theory Spec2Isabelle
  imports Complex_Main
begin

section \<open>Dense tensors of the host library\<close>

text \<open>
  The program computes with dense real tensors of the host tensor library. A tensor of
  shape (batch, channel) is a list of rows, one row of channel entries for each batch
  element; a tensor of shape (stream, batch, channel) is a list of such tensors. All
  arithmetic is exact (type \<open>real\<close>). The element-wise operations of the host library
  are given on operands of equal shape, which is how the program calls them; the
  shape predicates below state that condition in the theorems.
\<close>

type_synonym vec = "real list"
type_synonym tensor2 = "real list list"
type_synonym tensor3 = "real list list list"

definition shape2 :: "nat \<Rightarrow> nat \<Rightarrow> tensor2 \<Rightarrow> bool" where
  "shape2 B n T \<longleftrightarrow> length T = B \<and> list_all (\<lambda>r. length r = n) T"

definition shape3 :: "nat \<Rightarrow> nat \<Rightarrow> nat \<Rightarrow> tensor3 \<Rightarrow> bool" where
  "shape3 S B n P \<longleftrightarrow> length P = S \<and> list_all (shape2 B n) P"

text \<open>\<open>a + b\<close>, \<open>a - b\<close>, \<open>-a\<close> and \<open>a *= r\<close> on tensors of shape (batch, channel).\<close>

definition vadd :: "vec \<Rightarrow> vec \<Rightarrow> vec" where
  "vadd xs ys = map2 (+) xs ys"

definition vscale :: "real \<Rightarrow> vec \<Rightarrow> vec" where
  "vscale r xs = map (\<lambda>v. v * r) xs"

definition t_add :: "tensor2 \<Rightarrow> tensor2 \<Rightarrow> tensor2" where
  "t_add X Y = map2 vadd X Y"

definition t_sub :: "tensor2 \<Rightarrow> tensor2 \<Rightarrow> tensor2" where
  "t_sub X Y = map2 (map2 (-)) X Y"

definition t_neg :: "tensor2 \<Rightarrow> tensor2" where
  "t_neg X = map (map uminus) X"

definition t_scale :: "real \<Rightarrow> tensor2 \<Rightarrow> tensor2" where
  "t_scale r X = map (vscale r) X"

text \<open>
  The broadcast product the kernels use: \<open>a.unsqueeze(channel_dim)\<close> of shape
  (B, n, 1) times \<open>b.unsqueeze(channel_dim - 1)\<close> of shape (B, 1, m) is the tensor of
  shape (B, n, m) with entry \<open>a[b][i] * b[b][j]\<close> at \<open>[b][i][j]\<close>; viewed as
  (B, n * m) its row is the row-major flattening, entry \<open>i * m + j\<close>.
\<close>

definition otimes :: "vec \<Rightarrow> vec \<Rightarrow> vec" where
  "otimes xs ys = concat (map (\<lambda>a. map (\<lambda>b. a * b) ys) xs)"

definition outer :: "tensor2 \<Rightarrow> tensor2 \<Rightarrow> tensor2" where
  "outer X Y = map2 otimes X Y"

text \<open>\<open>narrow\<close> along the channel axis and along the stream axis.\<close>

definition narrow_channel :: "nat \<Rightarrow> nat \<Rightarrow> tensor2 \<Rightarrow> tensor2" where
  "narrow_channel start len T = map (\<lambda>r. take len (drop start r)) T"

definition narrow_stream :: "nat \<Rightarrow> nat \<Rightarrow> tensor3 \<Rightarrow> tensor3" where
  "narrow_stream start len P = take len (drop start P)"

section \<open>misc.inl\<close>

text \<open>
  \<open>torch::linspace(start, end, steps)\<close> and \<open>torch::ones\<close> of the host library, and
  \<open>make_reciprocals\<close>: ones divided element-wise by \<open>linspace(2, depth, depth - 1)\<close>
  when \<open>depth > 1\<close>, the empty vector otherwise.
\<close>

definition linspace :: "real \<Rightarrow> real \<Rightarrow> nat \<Rightarrow> real list" where
  "linspace a b steps =
     (if steps = 1 then [a]
      else map (\<lambda>i. a + real i * ((b - a) / real (steps - 1))) [0..<steps])"

definition ones :: "nat \<Rightarrow> real list" where
  "ones n = replicate n 1"

definition make_reciprocals :: "nat \<Rightarrow> real list" where
  "make_reciprocals depth =
     (if depth > 1 then map2 (/) (ones (depth - 1)) (linspace 2 (real depth) (depth - 1))
      else ones 0)"

section \<open>tensor_algebra_ops.cpp: the restricted exponential\<close>

text \<open>
  \<open>restricted_exp(in, out, reciprocals)\<close>: \<open>out[0].copy_(in)\<close>, then for
  \<open>i = 0 .. out.size() - 2\<close> the view of \<open>out[i + 1]\<close> of shape
  (B, C, \<open>out[i].size(channel_dim)\<close>) receives
  \<open>out[i].unsqueeze(channel_dim - 1) * in.unsqueeze(channel_dim)\<close>, that is
  \<open>in\<close> on the left of \<open>out[i]\<close>, and \<open>out[i + 1] *= reciprocals[i]\<close>.
  The vector \<open>out\<close> is passed by reference and returned updated.
\<close>

definition restricted_exp_step :: "tensor2 \<Rightarrow> real list \<Rightarrow> nat \<Rightarrow> tensor2 list \<Rightarrow> tensor2 list" where
  "restricted_exp_step inp reciprocals i out =
     out[Suc i := t_scale (reciprocals ! i) (outer inp (out ! i))]"

definition restricted_exp :: "tensor2 \<Rightarrow> tensor2 list \<Rightarrow> real list \<Rightarrow> tensor2 list" where
  "restricted_exp inp out reciprocals =
     fold (restricted_exp_step inp reciprocals) [0..<length out - 1] (out[0 := inp])"

text \<open>The tensor power \<open>x \<otimes> ... \<otimes> x\<close> with \<open>n + 1\<close> factors, a specification device.\<close>

fun tpow :: "tensor2 \<Rightarrow> nat \<Rightarrow> tensor2" where
  "tpow x 0 = x"
| "tpow x (Suc n) = outer (tpow x n) x"


section \<open>tensor_algebra_ops.cpp: the fused kernel and the product\<close>

text \<open>
  The side on which the fused kernel multiplies: without \<open>inverse\<close> the scratch is
  unsqueezed at \<open>channel_dim\<close> and the increment at \<open>channel_dim - 1\<close>, so the
  scratch is the left factor; with \<open>inverse\<close> the two are exchanged and the views of
  \<open>prev\<close> are (B, C, scratch size).
\<close>

definition fused_prod :: "bool \<Rightarrow> tensor2 \<Rightarrow> tensor2 \<Rightarrow> tensor2" where
  "fused_prod inv_flag scratch y = (if inv_flag then outer y scratch else outer scratch y)"

text \<open>
  The inner loop of \<open>mult_fused_restricted_exp\<close> for one \<open>depth_index\<close>:
  \<open>scratch = prev[0] + next_divided[depth_index - 1]\<close>, then for
  \<open>j = 1 .. depth_index - 1\<close>, with \<open>k = depth_index - 1 - j\<close>,
  \<open>scratch = prev_view.addcmul(scratch, next_divided[k])\<close> on the view of \<open>prev[j]\<close>.
\<close>

definition fused_scratch :: "tensor2 list \<Rightarrow> tensor2 list \<Rightarrow> bool \<Rightarrow> nat \<Rightarrow> tensor2" where
  "fused_scratch next_divided prev inv_flag depth_index =
     fold (\<lambda>j scratch. t_add (prev ! j)
                          (fused_prod inv_flag scratch (next_divided ! (depth_index - 1 - j))))
          [1..<depth_index]
          (t_add (prev ! 0) (next_divided ! (depth_index - 1)))"

text \<open>
  The outer loop, \<open>depth_index = depth - 1\<close> down to 1, updating \<open>prev[depth_index]\<close>
  in place with \<open>addcmul_(scratch, next)\<close>; the first argument counts the levels left.
\<close>

fun fused_depth_loop :: "nat \<Rightarrow> tensor2 \<Rightarrow> tensor2 list \<Rightarrow> bool \<Rightarrow> tensor2 list \<Rightarrow> tensor2 list" where
  "fused_depth_loop 0 nxt next_divided inv_flag prev = prev"
| "fused_depth_loop (Suc k) nxt next_divided inv_flag prev =
     fused_depth_loop k nxt next_divided inv_flag
       (prev[Suc k := t_add (prev ! Suc k)
                        (fused_prod inv_flag (fused_scratch next_divided prev inv_flag (Suc k)) nxt)])"

definition mult_fused_restricted_exp ::
  "tensor2 \<Rightarrow> tensor2 list \<Rightarrow> bool \<Rightarrow> real list \<Rightarrow> tensor2 list" where
  "mult_fused_restricted_exp nxt prev inv_flag reciprocals =
     (let next_divided = map (\<lambda>r. t_scale r nxt) reciprocals;
          prev1 = fused_depth_loop (length prev - 1) nxt next_divided inv_flag prev
      in prev1[0 := t_add (prev1 ! 0) nxt])"

text \<open>
  \<open>mult_inner\<close>: for \<open>j = 0 .. depth_index - 1\<close>, \<open>k = depth_index - 1 - j\<close>, the view of
  \<open>tensor_at_depth\<close> of shape (B, size of \<open>arg1[j]\<close>, size of \<open>arg2[k]\<close>) is increased by
  \<open>arg2[k].unsqueeze(channel_dim - 1) * arg1[j].unsqueeze(channel_dim)\<close>.
  \<open>mult(arg1, arg2)\<close>: for \<open>depth_index = depth - 1\<close> down to 0, \<open>mult_inner\<close> on
  \<open>arg1[depth_index]\<close>, then \<open>+= arg2[depth_index]\<close>. It has two parameters and
  no branch on a flag.
\<close>

definition mult_inner :: "tensor2 \<Rightarrow> tensor2 list \<Rightarrow> tensor2 list \<Rightarrow> nat \<Rightarrow> tensor2" where
  "mult_inner tensor_at_depth arg1 arg2 depth_index =
     fold (\<lambda>j t. t_add t (outer (arg1 ! j) (arg2 ! (depth_index - 1 - j))))
          [0..<depth_index] tensor_at_depth"

fun mult_loop :: "nat \<Rightarrow> tensor2 list \<Rightarrow> tensor2 list \<Rightarrow> tensor2 list" where
  "mult_loop 0 arg1 arg2 = arg1"
| "mult_loop (Suc depth_index) arg1 arg2 =
     mult_loop depth_index
       (arg1[depth_index :=
          t_add (mult_inner (arg1 ! depth_index) arg1 arg2 depth_index) (arg2 ! depth_index)])
       arg2"

definition mult :: "tensor2 list \<Rightarrow> tensor2 list \<Rightarrow> tensor2 list" where
  "mult arg1 arg2 = mult_loop (length arg1) arg1 arg2"

section \<open>The per-batch kernel of the CPU driver\<close>

text \<open>
  Modelled from the spec: \<open>mult_fused_restricted_exp_single_cpu\<close>, the template the CPU
  driver calls for one batch element, is declared in a header that is not among the
  source files. Section 4.D of the specification gives the kernel and section 5 says the
  per-batch loop of 4.D is fanned out over batch slices of the same increment, so this is
  4.D on one row: \<open>next_divided[i] = next * r[i]\<close>; for \<open>d = D - 1\<close> down to 1,
  \<open>s = prev[0] + next_divided[d - 1]\<close>, then \<open>s = prev[j] + s \<otimes> next_divided[d - 1 - j]\<close>
  for \<open>j = 1 .. d - 1\<close>, then \<open>prev[d] = prev[d] + s \<otimes> next\<close>; finally
  \<open>prev[0] = prev[0] + next\<close>; with \<open>inverse\<close> the increment is the left factor.
\<close>

definition fused_prod_row :: "bool \<Rightarrow> vec \<Rightarrow> vec \<Rightarrow> vec" where
  "fused_prod_row inv_flag s y = (if inv_flag then otimes y s else otimes s y)"

definition fused_scratch_row :: "vec list \<Rightarrow> vec list \<Rightarrow> bool \<Rightarrow> nat \<Rightarrow> vec" where
  "fused_scratch_row next_divided prev inv_flag d =
     fold (\<lambda>j s. vadd (prev ! j) (fused_prod_row inv_flag s (next_divided ! (d - 1 - j))))
          [1..<d]
          (vadd (prev ! 0) (next_divided ! (d - 1)))"

fun fused_depth_loop_row :: "nat \<Rightarrow> vec \<Rightarrow> vec list \<Rightarrow> bool \<Rightarrow> vec list \<Rightarrow> vec list" where
  "fused_depth_loop_row 0 nxt next_divided inv_flag prev = prev"
| "fused_depth_loop_row (Suc k) nxt next_divided inv_flag prev =
     fused_depth_loop_row k nxt next_divided inv_flag
       (prev[Suc k := vadd (prev ! Suc k)
                        (fused_prod_row inv_flag (fused_scratch_row next_divided prev inv_flag (Suc k)) nxt)])"

definition mult_fused_restricted_exp_single_cpu ::
  "vec \<Rightarrow> vec list \<Rightarrow> bool \<Rightarrow> real list \<Rightarrow> vec list" where
  "mult_fused_restricted_exp_single_cpu nxt prev inv_flag reciprocals =
     (let next_divided = map (\<lambda>r. vscale r nxt) reciprocals;
          prev1 = fused_depth_loop_row (length prev - 1) nxt next_divided inv_flag prev
      in prev1[0 := vadd (prev1 ! 0) nxt])"

section \<open>misc.inl: the term layout\<close>

text \<open>
  \<open>slice_by_term\<close> pushes \<open>depth\<close> views \<open>in.narrow(channel_dim, pos, len)\<close>, with
  \<open>pos\<close> starting at 0 and \<open>len\<close> at \<open>input_channel_size\<close>, \<open>pos += len\<close> and
  \<open>len *= input_channel_size\<close> after each. The views alias the buffer: the functions
  \<open>slice_by_term\<close> read the views' contents, and \<open>write_terms\<close> gives the buffer after
  contents of the views' shapes were written through all of them (the views are
  consecutive from offset 0, so a row becomes the rows of the terms one after another,
  followed by what the row holds beyond them).
\<close>

fun slice_offsets :: "nat \<Rightarrow> nat \<Rightarrow> nat \<Rightarrow> nat \<Rightarrow> (nat \<times> nat) list" where
  "slice_offsets pos len C 0 = []"
| "slice_offsets pos len C (Suc n) = (pos, len) # slice_offsets (pos + len) (len * C) C n"

definition slice_row :: "vec \<Rightarrow> nat \<Rightarrow> nat \<Rightarrow> vec list" where
  "slice_row r C depth = map (\<lambda>(pos, len). take len (drop pos r)) (slice_offsets 0 C C depth)"

definition slice_by_term :: "tensor2 \<Rightarrow> nat \<Rightarrow> nat \<Rightarrow> tensor2 list" where
  "slice_by_term inp C depth =
     map (\<lambda>(pos, len). narrow_channel pos len inp) (slice_offsets 0 C C depth)"

definition slice_by_term3 :: "tensor3 \<Rightarrow> nat \<Rightarrow> nat \<Rightarrow> tensor3 list" where
  "slice_by_term3 inp C depth =
     map (\<lambda>(pos, len). map (narrow_channel pos len) inp) (slice_offsets 0 C C depth)"

definition slice_at_stream :: "tensor3 list \<Rightarrow> nat \<Rightarrow> tensor2 list" where
  "slice_at_stream inp stream_index = map (\<lambda>elem. elem ! stream_index) inp"

definition write_row :: "vec list \<Rightarrow> vec \<Rightarrow> vec" where
  "write_row terms r = concat terms @ drop (length (concat terms)) r"

definition row_terms :: "nat \<Rightarrow> tensor2 list \<Rightarrow> vec list" where
  "row_terms b terms = map (\<lambda>t. t ! b) terms"

definition write_terms :: "tensor2 list \<Rightarrow> tensor2 \<Rightarrow> tensor2" where
  "write_terms terms buf = map (\<lambda>b. write_row (row_terms b terms) (buf ! b)) [0..<length buf]"

section \<open>signature.cpp: path increments\<close>

text \<open>
  \<open>torch::empty\<close> and \<open>torch::empty_like\<close> return uninitialised memory. The program
  overwrites every entry of such a tensor before it reads it, so the model fills it with
  zeros. \<open>write_stream\<close> is an in-place write through
  \<open>narrow(stream_dim, start, len)\<close>.
\<close>

definition empty2 :: "nat \<Rightarrow> nat \<Rightarrow> tensor2" where
  "empty2 B n = replicate B (replicate n 0)"

definition empty3 :: "nat \<Rightarrow> nat \<Rightarrow> nat \<Rightarrow> tensor3" where
  "empty3 S B n = replicate S (empty2 B n)"

definition empty_like3 :: "tensor3 \<Rightarrow> tensor3" where
  "empty_like3 P = map (map (map (\<lambda>v. 0))) P"

definition write_stream :: "nat \<Rightarrow> nat \<Rightarrow> tensor3 \<Rightarrow> tensor3 \<Rightarrow> tensor3" where
  "write_stream start len new old = take start old @ new @ drop (start + len) old"

definition t3_sub :: "tensor3 \<Rightarrow> tensor3 \<Rightarrow> tensor3" where
  "t3_sub P Q = map2 t_sub P Q"

definition compute_path_increments :: "tensor3 \<Rightarrow> bool \<Rightarrow> tensor2 \<Rightarrow> bool \<Rightarrow> tensor3" where
  "compute_path_increments path basepoint basepoint_value inv_flag =
     (let num_increments = length path - 1 in
      if basepoint then
        if inv_flag then
          let pi0 = empty_like3 path;
              pi1 = pi0[0 := basepoint_value];
              pi2 = write_stream 1 num_increments (narrow_stream 0 num_increments path) pi1
          in t3_sub pi2 path
        else
          let pi0 = path;
              pi1 = pi0[0 := t_sub (pi0 ! 0) basepoint_value]
          in write_stream 1 num_increments
               (t3_sub (narrow_stream 1 num_increments pi1) (narrow_stream 0 num_increments path))
               pi1
      else
        if inv_flag then
          t3_sub (narrow_stream 0 num_increments path) (narrow_stream 1 num_increments path)
        else
          t3_sub (narrow_stream 1 num_increments path) (narrow_stream 0 num_increments path))"

section \<open>Tensors as the exposed operations receive them\<close>

text \<open>
  An argument of an exposed operation is a tensor of any shape, element type and device.
  The model keeps what the program asks of it: the sizes of the axes, the element type,
  the device, and the contents, which the program reads as (batch, channel) or as
  (stream, batch, channel) after it has checked the number of axes.
\<close>

datatype scalar_type = kByte | kChar | kShort | kInt | kLong | kBool | kHalf | kBFloat16 | kFloat | kDouble

datatype device_type = kCPU | kCUDA

datatype contents = D2 tensor2 | D3 tensor3

record tensor =
  sizes :: "nat list"
  dtype :: scalar_type
  device :: device_type
  contents :: contents

fun data2 :: "contents \<Rightarrow> tensor2" where
  "data2 (D2 T) = T"
| "data2 (D3 P) = []"

fun data3 :: "contents \<Rightarrow> tensor3" where
  "data3 (D3 P) = P"
| "data3 (D2 T) = []"

definition ndimension :: "tensor \<Rightarrow> nat" where
  "ndimension t = length (sizes t)"

text \<open>\<open>t.size(d)\<close> for a negative axis \<open>d\<close>, counted from the last axis.\<close>

definition size_dim :: "tensor \<Rightarrow> int \<Rightarrow> nat" where
  "size_dim t d = sizes t ! nat (int (length (sizes t)) + d)"

text \<open>
  Modelled from the spec: the axis constants are declared in a header that is not among
  the source files. Section 3.2 has a path of shape (stream, batch, channel) and a
  basepoint of shape (batch, channel), and the program reads \<open>size(batch_dim)\<close> and
  \<open>size(channel_dim)\<close> of both, so the axes count from the end.
\<close>

definition stream_dim :: int where "stream_dim = - 3"
definition batch_dim :: int where "batch_dim = - 2"
definition channel_dim :: int where "channel_dim = - 1"

definition is_floating_point :: "tensor \<Rightarrow> bool" where
  "is_floating_point t \<longleftrightarrow> dtype t \<in> {kHalf, kBFloat16, kFloat, kDouble}"

definition is_cuda :: "tensor \<Rightarrow> bool" where
  "is_cuda t \<longleftrightarrow> device t = kCUDA"

definition make_opts :: "tensor \<Rightarrow> scalar_type \<times> device_type" where
  "make_opts t = (dtype t, device t)"

text \<open>
  Modelled from the spec: \<open>signature_channels\<close> is declared in a header that is not among
  the source files. Section 3.1: the signature width is
  \<open>C + C^2 + ... + C^D = C * (C^D - 1) / (C - 1)\<close> when \<open>C \<noteq> 1\<close>, else \<open>D\<close>.
\<close>

definition signature_channels :: "nat \<Rightarrow> nat \<Rightarrow> nat" where
  "signature_channels C D = (if C = 1 then D else C * (C ^ D - 1) div (C - 1))"

text \<open>Every \<open>throw\<close> of the program is \<open>std::invalid_argument\<close>, one value for each site.\<close>

datatype argument_error =
    path_2d_hint | path_not_3d | path_zero_size | path_too_short | depth_too_small
  | path_not_floating | basepoint_not_2d | basepoint_wrong_size | basepoint_wrong_opts
  | initial_not_2d | initial_wrong_size | initial_wrong_opts
  | sigtensor_not_2d | sigtensor_batch_mismatch | sigtensor_channel_mismatch
  | sigtensor_wrong_channels

datatype error = invalid_argument argument_error | not_implemented_for scalar_type

section \<open>signature.cpp: argument validation\<close>

definition signature_checkargs ::
  "tensor \<Rightarrow> int \<Rightarrow> bool \<Rightarrow> tensor \<Rightarrow> bool \<Rightarrow> tensor \<Rightarrow> error option" where
  "signature_checkargs path depth basepoint basepoint_value initial initial_value =
     (if ndimension path = 2 then Some (invalid_argument path_2d_hint)
      else if ndimension path \<noteq> 3 then Some (invalid_argument path_not_3d)
      else if size_dim path batch_dim = 0 \<or> size_dim path stream_dim = 0
                \<or> size_dim path channel_dim = 0
        then Some (invalid_argument path_zero_size)
      else if \<not> basepoint \<and> size_dim path stream_dim = 1
        then Some (invalid_argument path_too_short)
      else if depth < 1 then Some (invalid_argument depth_too_small)
      else if \<not> is_floating_point path then Some (invalid_argument path_not_floating)
      else if basepoint \<and> ndimension basepoint_value \<noteq> 2
        then Some (invalid_argument basepoint_not_2d)
      else if basepoint \<and> (size_dim basepoint_value channel_dim \<noteq> size_dim path channel_dim
                             \<or> size_dim basepoint_value batch_dim \<noteq> size_dim path batch_dim)
        then Some (invalid_argument basepoint_wrong_size)
      else if basepoint \<and> make_opts path \<noteq> make_opts basepoint_value
        then Some (invalid_argument basepoint_wrong_opts)
      else if initial \<and> ndimension initial_value \<noteq> 2
        then Some (invalid_argument initial_not_2d)
      else if initial \<and> (size_dim initial_value channel_dim
                              \<noteq> signature_channels (size_dim path channel_dim) (nat depth)
                           \<or> size_dim initial_value batch_dim \<noteq> size_dim path batch_dim)
        then Some (invalid_argument initial_wrong_size)
      else if initial \<and> make_opts path \<noteq> make_opts initial_value
        then Some (invalid_argument initial_wrong_opts)
      else None)"

section \<open>signature.cpp: the forward drivers\<close>

text \<open>
  The signature buffer is \<open>D2\<close> of shape (B, W) when \<open>stream\<close> is false and \<open>D3\<close> of
  shape (S, B, W) when it is true; the views \<open>signature_by_term_at_stream\<close> alias it.
  One pass of the loop of \<open>signature_forward_inner\<close>: with \<open>stream\<close>,
  \<open>signature[stream_index].copy_(signature[stream_index - 1])\<close> and the views are taken
  again at \<open>stream_index\<close>; then the fused kernel runs on the views.
\<close>

definition signature_forward_inner_step ::
  "tensor3 \<Rightarrow> real list \<Rightarrow> bool \<Rightarrow> nat \<Rightarrow> nat \<Rightarrow> nat \<Rightarrow> contents \<Rightarrow> contents" where
  "signature_forward_inner_step path_increments reciprocals inv_flag C depth stream_index sig =
     (case sig of
        D3 S \<Rightarrow>
          (let S1 = S[stream_index := S ! (stream_index - 1)];
               at_stream = slice_at_stream (slice_by_term3 S1 C depth) stream_index;
               res = mult_fused_restricted_exp (path_increments ! stream_index) at_stream
                       inv_flag reciprocals
           in D3 (S1[stream_index := write_terms res (S1 ! stream_index)]))
      | D2 T \<Rightarrow>
          D2 (write_terms
                (mult_fused_restricted_exp (path_increments ! stream_index)
                   (slice_by_term T C depth) inv_flag reciprocals) T))"

definition signature_forward_inner ::
  "tensor3 \<Rightarrow> real list \<Rightarrow> bool \<Rightarrow> nat \<Rightarrow> nat \<Rightarrow> nat \<Rightarrow> contents \<Rightarrow> contents" where
  "signature_forward_inner path_increments reciprocals inv_flag output_stream_size C depth sig =
     fold (signature_forward_inner_step path_increments reciprocals inv_flag C depth)
          [1..<output_stream_size] sig"

text \<open>
  The CPU driver runs the per-batch kernel on the rows of the views, for
  \<open>batch_index = 0 .. batch_size - 1\<close> (in parallel over disjoint rows when
  \<open>batch_threads > 1\<close>).
\<close>

definition cpu_batch_loop ::
  "tensor2 \<Rightarrow> real list \<Rightarrow> bool \<Rightarrow> nat \<Rightarrow> nat \<Rightarrow> nat \<Rightarrow> tensor2 \<Rightarrow> tensor2" where
  "cpu_batch_loop increment reciprocals inv_flag batch_size C depth T =
     fold (\<lambda>batch_index T.
             T[batch_index :=
                 write_row
                   (mult_fused_restricted_exp_single_cpu (increment ! batch_index)
                      (slice_row (T ! batch_index) C depth) inv_flag reciprocals)
                   (T ! batch_index)])
          [0..<batch_size] T"

definition signature_forward_inner_cpu_step ::
  "tensor3 \<Rightarrow> real list \<Rightarrow> bool \<Rightarrow> nat \<Rightarrow> nat \<Rightarrow> nat \<Rightarrow> nat \<Rightarrow> contents \<Rightarrow> contents" where
  "signature_forward_inner_cpu_step path_increments reciprocals inv_flag batch_size C depth
       stream_index sig =
     (case sig of
        D3 S \<Rightarrow>
          (let S1 = S[stream_index := S ! (stream_index - 1)]
           in D3 (S1[stream_index :=
                       cpu_batch_loop (path_increments ! stream_index) reciprocals inv_flag
                         batch_size C depth (S1 ! stream_index)]))
      | D2 T \<Rightarrow>
          D2 (cpu_batch_loop (path_increments ! stream_index) reciprocals inv_flag
                batch_size C depth T))"

text \<open>
  \<open>AT_DISPATCH_FLOATING_TYPES\<close> of the host library selects the instance of the template
  for \<open>float\<close> or \<open>double\<close> and raises for every other element type.
\<close>

definition signature_forward_inner_cpu ::
  "tensor3 \<Rightarrow> scalar_type \<Rightarrow> real list \<Rightarrow> bool \<Rightarrow> nat \<Rightarrow> nat \<Rightarrow> nat \<Rightarrow> nat \<Rightarrow> nat
     \<Rightarrow> contents \<Rightarrow> error + contents" where
  "signature_forward_inner_cpu path_increments scalar_t reciprocals inv_flag batch_size
       start end C depth sig =
     (if scalar_t = kFloat \<or> scalar_t = kDouble then
        Inr (fold (signature_forward_inner_cpu_step path_increments reciprocals inv_flag
                     batch_size C depth)
                  [start..<end] sig)
      else Inl (not_implemented_for scalar_t))"

text \<open>
  The environment of a call: \<open>omp_get_max_threads()\<close>, \<open>get_max_parallelism()\<close> and,
  for a parallel region that asks for \<open>k\<close> threads, the size of the team the runtime
  gives (\<open>omp_get_num_threads()\<close> inside the region).
\<close>

record omp_env =
  omp_max_threads :: nat
  max_parallelism :: nat
  team_size :: "nat \<Rightarrow> nat"

definition wf_env :: "omp_env \<Rightarrow> bool" where
  "wf_env env \<longleftrightarrow> 1 \<le> omp_max_threads env \<and> 1 \<le> max_parallelism env
      \<and> (\<forall>k. 1 \<le> k \<longrightarrow> 1 \<le> team_size env k \<and> team_size env k \<le> k)"

text \<open>The number of stream threads \<open>signature_forward\<close> settles on, on the CPU.\<close>

definition stream_threads_of :: "omp_env \<Rightarrow> bool \<Rightarrow> nat \<Rightarrow> nat \<Rightarrow> nat \<Rightarrow> nat \<Rightarrow> nat" where
  "stream_threads_of env stream batch_size input_stream_size output_stream_size
       output_channel_size =
     (let stream_threads0 =
            (if batch_size * output_stream_size * output_channel_size < 1392640 then 1
             else min ((omp_max_threads env + batch_size - 1) div batch_size)
                      ((input_stream_size + 2) div 3));
          stream_threads1 = (if stream then 1 else stream_threads0)
      in min stream_threads1 (max_parallelism env))"

text \<open>
  One thread of the parallel region: its chunk \<open>[start, end)\<close> of the stream and, when
  \<open>start < end\<close>, the signature of the chunk in a buffer of its own
  (\<open>omp_used\<close> is the result being \<open>Some\<close>).
\<close>

definition chunk_start :: "nat \<Rightarrow> nat \<Rightarrow> nat \<Rightarrow> nat" where
  "chunk_start output_stream_size thread_num num_threads =
     1 + ((output_stream_size - 1) * thread_num) div num_threads"

definition chunk_end :: "nat \<Rightarrow> nat \<Rightarrow> nat \<Rightarrow> nat" where
  "chunk_end output_stream_size thread_num num_threads =
     1 + ((output_stream_size - 1) * (1 + thread_num)) div num_threads"

definition omp_chunk ::
  "tensor3 \<Rightarrow> scalar_type \<Rightarrow> real list \<Rightarrow> bool \<Rightarrow> nat \<Rightarrow> nat \<Rightarrow> nat \<Rightarrow> nat \<Rightarrow> nat
     \<Rightarrow> nat \<Rightarrow> nat \<Rightarrow> error + tensor2 list option" where
  "omp_chunk path_increments scalar_t reciprocals inv_flag batch_size output_stream_size
       output_channel_size C depth num_threads thread_num =
     (let start = chunk_start output_stream_size thread_num num_threads;
          end = chunk_end output_stream_size thread_num num_threads
      in if start < end then
           (let omp_signature = empty2 batch_size output_channel_size;
                terms = restricted_exp (path_increments ! start)
                          (slice_by_term omp_signature C depth) reciprocals;
                omp_signature1 = write_terms terms omp_signature
            in case signature_forward_inner_cpu path_increments scalar_t reciprocals inv_flag
                      batch_size (start + 1) end C depth (D2 omp_signature1) of
                 Inl e \<Rightarrow> Inl e
               | Inr res \<Rightarrow> Inr (Some (slice_by_term (data2 res) C depth)))
         else Inr None)"

fun omp_collect :: "(error + 'a) list \<Rightarrow> error + 'a list" where
  "omp_collect [] = Inr []"
| "omp_collect (r # rs) =
     (case r of Inl e \<Rightarrow> Inl e
      | Inr x \<Rightarrow> (case omp_collect rs of Inl e \<Rightarrow> Inl e | Inr xs \<Rightarrow> Inr (x # xs)))"

text \<open>
  Modelled from the spec: the three-argument \<open>ta_ops::mult(arg1, arg2, inverse)\<close> that the
  combination of the chunks calls is not among the source files; the \<open>mult\<close> of
  tensor_algebra_ops.cpp has the two vectors as its only parameters. Section 4.E has
  \<open>arg1 \<leftarrow> arg1 \<otimes> arg2\<close> for the product, and section 4.D has the inverse flag
  exchange the side on which the new factor is multiplied
  (\<open>exp(next) \<otimes> prev\<close> instead of \<open>prev \<otimes> exp(next)\<close>). So without the flag the call
  is the product of tensor_algebra_ops.cpp, and with it the call leaves
  \<open>arg2 \<otimes> arg1\<close> in \<open>arg1\<close>. Section 9 of the specification leaves the role of the
  flag in this call as an open question; this reading is the one on which the chunks,
  each computed with the flag, compose in ascending order to the signature that the
  serial driver computes with the flag (properties 4 and 7 of section 8).
\<close>

definition mult_inverse :: "tensor2 list \<Rightarrow> tensor2 list \<Rightarrow> bool \<Rightarrow> tensor2 list" where
  "mult_inverse arg1 arg2 inv_flag = (if inv_flag then mult arg2 arg1 else mult arg1 arg2)"

text \<open>
  The combination of the chunks: for \<open>thread_index = 0 .. stream_threads - 1\<close>, where
  \<open>omp_used[thread_index]\<close>, the call
  \<open>ta_ops::mult(signature_by_term_at_stream, omp_results[thread_index], inverse)\<close>.
\<close>

definition combine_chunks ::
  "tensor2 list option list \<Rightarrow> nat \<Rightarrow> bool \<Rightarrow> tensor2 list \<Rightarrow> tensor2 list" where
  "combine_chunks omp_results stream_threads inv_flag terms =
     fold (\<lambda>thread_index terms.
             case omp_results ! thread_index of
               Some chunk \<Rightarrow> mult_inverse terms chunk inv_flag
             | None \<Rightarrow> terms)
          [0..<stream_threads] terms"

definition signature_forward_chunked ::
  "omp_env \<Rightarrow> tensor3 \<Rightarrow> scalar_type \<Rightarrow> real list \<Rightarrow> bool \<Rightarrow> nat \<Rightarrow> nat \<Rightarrow> nat \<Rightarrow> nat
     \<Rightarrow> nat \<Rightarrow> nat \<Rightarrow> tensor2 \<Rightarrow> error + contents" where
  "signature_forward_chunked env path_increments scalar_t reciprocals inv_flag batch_size
       output_stream_size output_channel_size C depth stream_threads signature =
     (let num_threads = team_size env stream_threads
      in case omp_collect
                (map (omp_chunk path_increments scalar_t reciprocals inv_flag batch_size
                        output_stream_size output_channel_size C depth num_threads)
                     [0..<num_threads]) of
           Inl e \<Rightarrow> Inl e
         | Inr results \<Rightarrow>
             (let omp_results = results @ replicate (stream_threads - num_threads) None;
                  terms = combine_chunks omp_results stream_threads inv_flag
                            (slice_by_term signature C depth)
              in Inr (D2 (write_terms terms signature))))"

section \<open>signature.cpp: signature_forward\<close>

fun first_term_of :: "contents \<Rightarrow> tensor2" where
  "first_term_of (D2 T) = T"
| "first_term_of (D3 S) = S ! 0"

fun set_first_term :: "tensor2 \<Rightarrow> contents \<Rightarrow> contents" where
  "set_first_term T' (D2 T) = D2 T'"
| "set_first_term T' (D3 S) = D3 (S[0 := T'])"

definition signature_forward ::
  "omp_env \<Rightarrow> tensor \<Rightarrow> int \<Rightarrow> bool \<Rightarrow> bool \<Rightarrow> tensor \<Rightarrow> bool \<Rightarrow> bool \<Rightarrow> tensor
     \<Rightarrow> error + tensor \<times> tensor" where
  "signature_forward env path depth stream basepoint basepoint_value inv_flag initial
       initial_value =
     (case signature_checkargs path depth basepoint basepoint_value initial initial_value of
        Some e \<Rightarrow> Inl e
      | None \<Rightarrow>
         (let batch_size = size_dim path batch_dim;
              input_stream_size = size_dim path stream_dim;
              input_channel_size = size_dim path channel_dim;
              output_stream_size = size_dim path stream_dim - (if basepoint then 0 else 1);
              output_channel_size = signature_channels input_channel_size (nat depth);
              reciprocals = make_reciprocals (nat depth);
              path_increments =
                compute_path_increments (data3 (contents path)) basepoint
                  (data2 (contents basepoint_value)) inv_flag;
              signature0 =
                (if stream then D3 (empty3 output_stream_size batch_size output_channel_size)
                 else D2 (empty2 batch_size output_channel_size));
              first_term =
                (if initial then data2 (contents initial_value) else first_term_of signature0);
              terms =
                (if initial then
                   mult_fused_restricted_exp (path_increments ! 0)
                     (slice_by_term first_term input_channel_size (nat depth))
                     inv_flag reciprocals
                 else
                   restricted_exp (path_increments ! 0)
                     (slice_by_term first_term input_channel_size (nat depth)) reciprocals);
              signature1 = set_first_term (write_terms terms first_term) signature0;
              stream_threads =
                stream_threads_of env stream batch_size input_stream_size output_stream_size
                  output_channel_size;
              driven =
                (if is_cuda path then
                   Inr (signature_forward_inner path_increments reciprocals inv_flag
                          output_stream_size input_channel_size (nat depth) signature1)
                 else if stream_threads = 1 then
                   signature_forward_inner_cpu path_increments (dtype path) reciprocals
                     inv_flag batch_size 1 output_stream_size input_channel_size (nat depth)
                     signature1
                 else
                   signature_forward_chunked env path_increments (dtype path) reciprocals
                     inv_flag batch_size output_stream_size output_channel_size
                     input_channel_size (nat depth) stream_threads (data2 signature1))
          in case driven of
               Inl e \<Rightarrow> Inl e
             | Inr signature \<Rightarrow>
                 Inr (\<lparr>sizes = (if stream
                                 then [output_stream_size, batch_size, output_channel_size]
                                 else [batch_size, output_channel_size]),
                       dtype = dtype path, device = device path, contents = signature\<rparr>,
                      \<lparr>sizes = [output_stream_size, batch_size, input_channel_size],
                       dtype = dtype path, device = device path,
                       contents = D3 path_increments\<rparr>)))"

section \<open>tensor_algebra_ops.cpp: signature_combine_forward\<close>

definition signature_combine_forward :: "tensor \<Rightarrow> tensor \<Rightarrow> nat \<Rightarrow> nat \<Rightarrow> error + tensor" where
  "signature_combine_forward arg1_inp arg2_inp input_channels depth =
     (let num_signature_channels = signature_channels input_channels depth
      in if ndimension arg1_inp \<noteq> 2 \<or> ndimension arg2_inp \<noteq> 2
           then Inl (invalid_argument sigtensor_not_2d)
         else if size_dim arg1_inp batch_dim \<noteq> size_dim arg2_inp batch_dim
           then Inl (invalid_argument sigtensor_batch_mismatch)
         else if size_dim arg1_inp channel_dim \<noteq> size_dim arg2_inp channel_dim
           then Inl (invalid_argument sigtensor_channel_mismatch)
         else if size_dim arg1_inp channel_dim \<noteq> num_signature_channels
                 \<or> size_dim arg2_inp channel_dim \<noteq> num_signature_channels
           then Inl (invalid_argument sigtensor_wrong_channels)
         else
           (let ret = data2 (contents arg1_inp);
                arg1 = slice_by_term ret input_channels depth;
                arg2 = slice_by_term (data2 (contents arg2_inp)) input_channels depth
            in Inr (arg1_inp\<lparr>contents := D2 (write_terms (mult arg1 arg2) ret)\<rparr>)))"

section \<open>Specification devices: words and coefficients\<close>

text \<open>
  The definitions of this section are not translated from the program; the theorems use
  them to say what the program computes. A term of depth \<open>k\<close> of one batch element is a
  row of \<open>C ^ k\<close> entries, the entry of the word \<open>w\<close> of \<open>k\<close> channel indices being at
  the row-major position \<open>idx C w\<close>. The coefficient function of a truncated
  tensor-algebra element has the value 1 at the empty word (the scalar term the program
  does not store). \<open>conv\<close> is the product of the tensor algebra on coefficient functions
  (a word is split in all ways into a left and a right part), \<open>expw x\<close> the
  exponential of \<open>x\<close>, \<open>unitw\<close> the unit.
\<close>

definition idx :: "nat \<Rightarrow> nat list \<Rightarrow> nat" where
  "idx C w = foldl (\<lambda>a d. a * C + d) 0 w"

definition wordp :: "nat \<Rightarrow> nat list \<Rightarrow> bool" where
  "wordp C w \<longleftrightarrow> list_all (\<lambda>d. d < C) w"

definition coef :: "nat \<Rightarrow> vec list \<Rightarrow> nat list \<Rightarrow> real" where
  "coef C L w = (if w = [] then 1 else L ! (length w - 1) ! idx C w)"

definition lshape :: "nat \<Rightarrow> nat \<Rightarrow> vec list \<Rightarrow> bool" where
  "lshape C D L \<longleftrightarrow> length L = D \<and> (\<forall>k<D. length (L ! k) = C ^ Suc k)"

definition conv :: "(nat list \<Rightarrow> real) \<Rightarrow> (nat list \<Rightarrow> real) \<Rightarrow> nat list \<Rightarrow> real" where
  "conv a b w = (\<Sum>i\<le>length w. a (take i w) * b (drop i w))"

definition xprod :: "vec \<Rightarrow> nat list \<Rightarrow> real" where
  "xprod x w = prod_list (map (\<lambda>c. x ! c) w)"

definition expw :: "vec \<Rightarrow> nat list \<Rightarrow> real" where
  "expw x w = xprod x w / fact (length w)"

definition unitw :: "nat list \<Rightarrow> real" where
  "unitw w = (if w = [] then 1 else 0)"

definition horner_right :: "(nat list \<Rightarrow> real) \<Rightarrow> vec \<Rightarrow> nat \<Rightarrow> nat list \<Rightarrow> real" where
  "horner_right a x d w = (\<Sum>i\<le>length w. a (take i w) * xprod x (drop i w) / fact (Suc d - i))"

definition horner_left :: "(nat list \<Rightarrow> real) \<Rightarrow> vec \<Rightarrow> nat \<Rightarrow> nat list \<Rightarrow> real" where
  "horner_left a x d w =
     (\<Sum>i\<le>length w. xprod x (take i w) * a (drop i w) / fact (Suc d - (length w - i)))"


text \<open>
  \<open>tshape B C D A\<close>: the vector \<open>A\<close> holds the \<open>D\<close> terms of a batch of \<open>B\<close>
  tensor-algebra elements over \<open>C\<close> channels, term \<open>k\<close> of shape (B, C^(k + 1)).
  \<open>width len C n\<close> is the total length of \<open>n\<close> consecutive views whose lengths start at
  \<open>len\<close> and grow by the factor \<open>C\<close>.
\<close>

definition tshape :: "nat \<Rightarrow> nat \<Rightarrow> nat \<Rightarrow> tensor2 list \<Rightarrow> bool" where
  "tshape B C D A \<longleftrightarrow> length A = D \<and> (\<forall>k<D. shape2 B (C ^ Suc k) (A ! k))"

definition width :: "nat \<Rightarrow> nat \<Rightarrow> nat \<Rightarrow> nat" where
  "width len C n = (\<Sum>k<n. len * C ^ k)"

text \<open>
  \<open>weq C D a a'\<close>: the coefficient functions \<open>a\<close> and \<open>a'\<close> agree on every word over \<open>C\<close>
  letters of length at most \<open>D\<close>, that is, as elements of the truncated tensor algebra.
  \<open>sig_fold inv_flag a xs\<close> multiplies \<open>a\<close> by the exponentials of the increments \<open>xs\<close> in
  turn, on the right, or on the left when \<open>inv_flag\<close> is set.
  \<open>row_coef C D T b\<close> reads batch row \<open>b\<close> of the flat buffer \<open>T\<close> as a coefficient function.
\<close>

definition weq :: "nat \<Rightarrow> nat \<Rightarrow> (nat list \<Rightarrow> real) \<Rightarrow> (nat list \<Rightarrow> real) \<Rightarrow> bool" where
  "weq C D a a' \<longleftrightarrow> (\<forall>w. wordp C w \<and> length w \<le> D \<longrightarrow> a w = a' w)"

definition sig_fold :: "bool \<Rightarrow> (nat list \<Rightarrow> real) \<Rightarrow> vec list \<Rightarrow> nat list \<Rightarrow> real" where
  "sig_fold inv_flag a xs =
     foldl (\<lambda>a x. if inv_flag then conv (expw x) a else conv a (expw x)) a xs"

definition row_coef :: "nat \<Rightarrow> nat \<Rightarrow> tensor2 \<Rightarrow> nat \<Rightarrow> nat list \<Rightarrow> real" where
  "row_coef C D T b = coef C (slice_row (T ! b) C D)"

text \<open>
  \<open>sig_step\<close> is one iteration of the serial driver seen on the flat buffer: the fused
  kernel applied to the term views of \<open>T\<close>, written back through the views.
  \<open>stream_fold\<close> is the stream = true loop: slot \<open>si\<close> receives the step applied to a copy
  of slot \<open>si - 1\<close>.
\<close>

definition sig_step :: "tensor3 \<Rightarrow> real list \<Rightarrow> bool \<Rightarrow> nat \<Rightarrow> nat \<Rightarrow> nat \<Rightarrow> tensor2 \<Rightarrow> tensor2" where
  "sig_step path_increments reciprocals inv_flag C D stream_index T =
     write_terms (mult_fused_restricted_exp (path_increments ! stream_index)
                    (slice_by_term T C D) inv_flag reciprocals) T"

definition stream_fold ::
  "tensor3 \<Rightarrow> real list \<Rightarrow> bool \<Rightarrow> nat \<Rightarrow> nat \<Rightarrow> nat list \<Rightarrow> tensor3 \<Rightarrow> tensor3" where
  "stream_fold incs r inv_flag C D sis S =
     fold (\<lambda>si S. S[si := sig_step incs r inv_flag C D si (S ! (si - 1))]) sis S"

text \<open>
  \<open>chunk_coef C b c\<close> is what chunk \<open>c\<close> of the parallel driver contributes for batch
  element \<open>b\<close>: the coefficient function of its result, or the unit when the chunk was
  not used.
\<close>

definition chunk_coef :: "nat \<Rightarrow> nat \<Rightarrow> tensor2 list option \<Rightarrow> nat list \<Rightarrow> real" where
  "chunk_coef C b c = (case c of Some ch \<Rightarrow> coef C (row_terms b ch) | None \<Rightarrow> unitw)"

text \<open>
  \<open>is_signature B C D a T\<close>: the buffer \<open>T\<close> has shape (B, W(C, D)) and row \<open>b\<close> holds
  the truncated element \<open>a b\<close>. \<open>sig_start\<close> is the element a call starts from: the
  row of \<open>initial_value\<close> when \<open>initial\<close> is set, the unit otherwise.
  \<open>batch_row b incs\<close> is the sequence of increments of batch element \<open>b\<close>.
\<close>

definition is_signature :: "nat \<Rightarrow> nat \<Rightarrow> nat \<Rightarrow> (nat \<Rightarrow> nat list \<Rightarrow> real) \<Rightarrow> tensor2 \<Rightarrow> bool" where
  "is_signature B C D a T \<longleftrightarrow>
     shape2 B (width C C D) T \<and> (\<forall>b<B. weq C D (row_coef C D T b) (a b))"

definition sig_start :: "nat \<Rightarrow> nat \<Rightarrow> bool \<Rightarrow> tensor \<Rightarrow> nat \<Rightarrow> nat list \<Rightarrow> real" where
  "sig_start C D initial initial_value b =
     (if initial then row_coef C D (data2 (contents initial_value)) b else unitw)"

definition batch_row :: "nat \<Rightarrow> tensor3 \<Rightarrow> vec list" where
  "batch_row b incs = map (\<lambda>X. X ! b) incs"

text \<open>
  \<open>conv_flag inv_flag a c\<close> multiplies \<open>a\<close> by \<open>c\<close> on the right, or on the left when
  \<open>inv_flag\<close> is set.
\<close>

definition conv_flag ::
  "bool \<Rightarrow> (nat list \<Rightarrow> real) \<Rightarrow> (nat list \<Rightarrow> real) \<Rightarrow> nat list \<Rightarrow> real" where
  "conv_flag inv_flag a c = (if inv_flag then conv c a else conv a c)"

section \<open>The store of the forward pass\<close>

text \<open>
  For what \<open>signature_forward\<close> does to its arguments the tensors live in a store: one
  buffer for each tensor the program allocates (\<open>torch::empty\<close>, \<open>torch::empty_like\<close>,
  \<open>clone\<close>, the result of an out-of-place operator), addressed in the order of
  allocation. A view of a tensor (\<open>detach\<close>, \<open>narrow\<close>, indexing, the views of
  \<open>slice_by_term\<close>) shares the buffer of the tensor, so an in-place operation through a
  view (\<open>copy_\<close>, \<open>-=\<close>, a kernel that updates its argument) is a write to that buffer.
  \<open>reciprocals\<close> is only read and stays a value.
\<close>

type_synonym addr = nat

record store =
  heap :: "addr \<Rightarrow> contents"
  top :: addr

definition alloc :: "contents \<Rightarrow> store \<Rightarrow> addr \<times> store" where
  "alloc c s = (top s, \<lparr>heap = (heap s)(top s := c), top = Suc (top s)\<rparr>)"

definition write_buf :: "addr \<Rightarrow> contents \<Rightarrow> store \<Rightarrow> store" where
  "write_buf a c s = \<lparr>heap = (heap s)(a := c), top = top s\<rparr>"

text \<open>An argument of an exposed operation: its sizes, element type and device, and its buffer.\<close>

record tensor_ref =
  ref_sizes :: "nat list"
  ref_dtype :: scalar_type
  ref_device :: device_type
  ref_addr :: addr

definition load :: "store \<Rightarrow> tensor_ref \<Rightarrow> tensor" where
  "load s t = \<lparr>sizes = ref_sizes t, dtype = ref_dtype t, device = ref_device t,
               contents = heap s (ref_addr t)\<rparr>"

text \<open>
  \<open>compute_path_increments\<close>: with a basepoint the increments are built in place in
  \<open>torch::empty_like(path)\<close> or in \<open>path.clone()\<close>; without one they are the result of
  the out-of-place subtraction.
\<close>

definition compute_path_increments_st :: "addr \<Rightarrow> bool \<Rightarrow> addr \<Rightarrow> bool \<Rightarrow> store \<Rightarrow> addr \<times> store" where
  "compute_path_increments_st path basepoint basepoint_value inv_flag s =
     (let num_increments = length (data3 (heap s path)) - 1 in
      if basepoint then
        if inv_flag then
          let (path_increments, s1) = alloc (D3 (empty_like3 (data3 (heap s path)))) s;
              s2 = write_buf path_increments
                     (D3 ((data3 (heap s1 path_increments))
                            [0 := data2 (heap s1 basepoint_value)])) s1;
              s3 = write_buf path_increments
                     (D3 (write_stream 1 num_increments
                            (narrow_stream 0 num_increments (data3 (heap s2 path)))
                            (data3 (heap s2 path_increments)))) s2;
              s4 = write_buf path_increments
                     (D3 (t3_sub (data3 (heap s3 path_increments)) (data3 (heap s3 path)))) s3
          in (path_increments, s4)
        else
          let (path_increments, s1) = alloc (D3 (data3 (heap s path))) s;
              s2 = write_buf path_increments
                     (D3 ((data3 (heap s1 path_increments))
                            [0 := t_sub (data3 (heap s1 path_increments) ! 0)
                                    (data2 (heap s1 basepoint_value))])) s1;
              s3 = write_buf path_increments
                     (D3 (write_stream 1 num_increments
                            (t3_sub (narrow_stream 1 num_increments
                                       (data3 (heap s2 path_increments)))
                                    (narrow_stream 0 num_increments (data3 (heap s2 path))))
                            (data3 (heap s2 path_increments)))) s2
          in (path_increments, s3)
      else
        if inv_flag then
          alloc (D3 (t3_sub (narrow_stream 0 num_increments (data3 (heap s path)))
                            (narrow_stream 1 num_increments (data3 (heap s path))))) s
        else
          alloc (D3 (t3_sub (narrow_stream 1 num_increments (data3 (heap s path)))
                            (narrow_stream 0 num_increments (data3 (heap s path))))) s)"

text \<open>
  The drivers receive the increments, the reciprocals and the signature with its views;
  each pass of their loops writes to the buffer of the signature.
\<close>

definition signature_forward_inner_st ::
  "addr \<Rightarrow> real list \<Rightarrow> bool \<Rightarrow> nat \<Rightarrow> nat \<Rightarrow> nat \<Rightarrow> addr \<Rightarrow> store \<Rightarrow> store" where
  "signature_forward_inner_st path_increments reciprocals inv_flag output_stream_size C depth
       signature s =
     fold (\<lambda>stream_index s.
             write_buf signature
               (signature_forward_inner_step (data3 (heap s path_increments)) reciprocals
                  inv_flag C depth stream_index (heap s signature)) s)
          [1..<output_stream_size] s"

definition signature_forward_inner_cpu_st ::
  "addr \<Rightarrow> scalar_type \<Rightarrow> real list \<Rightarrow> bool \<Rightarrow> nat \<Rightarrow> nat \<Rightarrow> nat \<Rightarrow> nat \<Rightarrow> nat \<Rightarrow> addr
     \<Rightarrow> store \<Rightarrow> error + store" where
  "signature_forward_inner_cpu_st path_increments scalar_t reciprocals inv_flag batch_size
       start end C depth signature s =
     (if scalar_t = kFloat \<or> scalar_t = kDouble then
        Inr (fold (\<lambda>stream_index s.
                     write_buf signature
                       (signature_forward_inner_cpu_step (data3 (heap s path_increments))
                          reciprocals inv_flag batch_size C depth stream_index
                          (heap s signature)) s)
                  [start..<end] s)
      else Inl (not_implemented_for scalar_t))"

text \<open>
  One thread of the parallel region allocates \<open>omp_signature\<close> and works in it; the
  threads are taken one after the other, each on a buffer of its own.
\<close>

definition omp_chunk_st ::
  "addr \<Rightarrow> scalar_type \<Rightarrow> real list \<Rightarrow> bool \<Rightarrow> nat \<Rightarrow> nat \<Rightarrow> nat \<Rightarrow> nat \<Rightarrow> nat
     \<Rightarrow> nat \<Rightarrow> nat \<Rightarrow> store \<Rightarrow> error + addr option \<times> store" where
  "omp_chunk_st path_increments scalar_t reciprocals inv_flag batch_size output_stream_size
       output_channel_size C depth num_threads thread_num s =
     (let start = chunk_start output_stream_size thread_num num_threads;
          end = chunk_end output_stream_size thread_num num_threads
      in if start < end then
           (let (omp_signature, s1) = alloc (D2 (empty2 batch_size output_channel_size)) s;
                s2 = write_buf omp_signature
                       (D2 (write_terms
                              (restricted_exp (data3 (heap s1 path_increments) ! start)
                                 (slice_by_term (data2 (heap s1 omp_signature)) C depth)
                                 reciprocals)
                              (data2 (heap s1 omp_signature)))) s1
            in case signature_forward_inner_cpu_st path_increments scalar_t reciprocals
                      inv_flag batch_size (start + 1) end C depth omp_signature s2 of
                 Inl e \<Rightarrow> Inl e
               | Inr s3 \<Rightarrow> Inr (Some omp_signature, s3))
         else Inr (None, s))"

fun omp_region_st ::
  "(nat \<Rightarrow> store \<Rightarrow> error + addr option \<times> store) \<Rightarrow> nat list \<Rightarrow> store
     \<Rightarrow> error + addr option list \<times> store" where
  "omp_region_st thread [] s = Inr ([], s)"
| "omp_region_st thread (t # ts) s =
     (case thread t s of
        Inl e \<Rightarrow> Inl e
      | Inr (r, s1) \<Rightarrow>
          (case omp_region_st thread ts s1 of
             Inl e \<Rightarrow> Inl e
           | Inr (rs, s2) \<Rightarrow> Inr (r # rs, s2)))"

definition combine_chunks_st ::
  "addr option list \<Rightarrow> nat \<Rightarrow> bool \<Rightarrow> nat \<Rightarrow> nat \<Rightarrow> addr \<Rightarrow> store \<Rightarrow> store" where
  "combine_chunks_st omp_results stream_threads inv_flag C depth signature s =
     fold (\<lambda>thread_index s.
             case omp_results ! thread_index of
               Some chunk \<Rightarrow>
                 write_buf signature
                   (D2 (write_terms
                          (mult_inverse (slice_by_term (data2 (heap s signature)) C depth)
                             (slice_by_term (data2 (heap s chunk)) C depth) inv_flag)
                          (data2 (heap s signature)))) s
             | None \<Rightarrow> s)
          [0..<stream_threads] s"

definition signature_forward_chunked_st ::
  "omp_env \<Rightarrow> addr \<Rightarrow> scalar_type \<Rightarrow> real list \<Rightarrow> bool \<Rightarrow> nat \<Rightarrow> nat \<Rightarrow> nat \<Rightarrow> nat
     \<Rightarrow> nat \<Rightarrow> nat \<Rightarrow> addr \<Rightarrow> store \<Rightarrow> error + store" where
  "signature_forward_chunked_st env path_increments scalar_t reciprocals inv_flag batch_size
       output_stream_size output_channel_size C depth stream_threads signature s =
     (let num_threads = team_size env stream_threads
      in case omp_region_st
                (omp_chunk_st path_increments scalar_t reciprocals inv_flag batch_size
                   output_stream_size output_channel_size C depth num_threads)
                [0..<num_threads] s of
           Inl e \<Rightarrow> Inl e
         | Inr (results, s1) \<Rightarrow>
             (let omp_results = results @ replicate (stream_threads - num_threads) None
              in Inr (combine_chunks_st omp_results stream_threads inv_flag C depth
                        signature s1)))"

text \<open>
  \<open>signature_forward\<close>: \<open>detach\<close> gives views of the arguments; the increments and the
  signature are new buffers; \<open>first_term.copy_(initial_value)\<close> and the kernels write to
  the signature. The results are the references to the signature and to the increments,
  with the store the call leaves.
\<close>

definition signature_forward_st ::
  "omp_env \<Rightarrow> tensor_ref \<Rightarrow> int \<Rightarrow> bool \<Rightarrow> bool \<Rightarrow> tensor_ref \<Rightarrow> bool \<Rightarrow> bool \<Rightarrow> tensor_ref
     \<Rightarrow> store \<Rightarrow> error + (tensor_ref \<times> tensor_ref) \<times> store" where
  "signature_forward_st env path depth stream basepoint basepoint_value inv_flag initial
       initial_value s =
     (case signature_checkargs (load s path) depth basepoint (load s basepoint_value) initial
             (load s initial_value) of
        Some e \<Rightarrow> Inl e
      | None \<Rightarrow>
         (let batch_size = size_dim (load s path) batch_dim;
              input_stream_size = size_dim (load s path) stream_dim;
              input_channel_size = size_dim (load s path) channel_dim;
              output_stream_size = size_dim (load s path) stream_dim - (if basepoint then 0 else 1);
              output_channel_size = signature_channels input_channel_size (nat depth);
              reciprocals = make_reciprocals (nat depth);
              (path_increments, s1) =
                compute_path_increments_st (ref_addr path) basepoint (ref_addr basepoint_value)
                  inv_flag s;
              (signature, s2) =
                alloc (if stream
                       then D3 (empty3 output_stream_size batch_size output_channel_size)
                       else D2 (empty2 batch_size output_channel_size)) s1;
              s3 = (if initial then
                      write_buf signature
                        (set_first_term (data2 (heap s2 (ref_addr initial_value)))
                           (heap s2 signature)) s2
                    else s2);
              first_term = first_term_of (heap s3 signature);
              terms =
                (if initial then
                   mult_fused_restricted_exp (data3 (heap s3 path_increments) ! 0)
                     (slice_by_term first_term input_channel_size (nat depth))
                     inv_flag reciprocals
                 else
                   restricted_exp (data3 (heap s3 path_increments) ! 0)
                     (slice_by_term first_term input_channel_size (nat depth)) reciprocals);
              s4 = write_buf signature
                     (set_first_term (write_terms terms first_term) (heap s3 signature)) s3;
              stream_threads =
                stream_threads_of env stream batch_size input_stream_size output_stream_size
                  output_channel_size;
              driven =
                (if is_cuda (load s path) then
                   Inr (signature_forward_inner_st path_increments reciprocals inv_flag
                          output_stream_size input_channel_size (nat depth) signature s4)
                 else if stream_threads = 1 then
                   signature_forward_inner_cpu_st path_increments (ref_dtype path) reciprocals
                     inv_flag batch_size 1 output_stream_size input_channel_size (nat depth)
                     signature s4
                 else
                   signature_forward_chunked_st env path_increments (ref_dtype path) reciprocals
                     inv_flag batch_size output_stream_size output_channel_size
                     input_channel_size (nat depth) stream_threads signature s4)
          in case driven of
               Inl e \<Rightarrow> Inl e
             | Inr s5 \<Rightarrow>
                 Inr ((\<lparr>ref_sizes = (if stream
                                       then [output_stream_size, batch_size, output_channel_size]
                                       else [batch_size, output_channel_size]),
                         ref_dtype = ref_dtype path, ref_device = ref_device path,
                         ref_addr = signature\<rparr>,
                       \<lparr>ref_sizes = [output_stream_size, batch_size, input_channel_size],
                         ref_dtype = ref_dtype path, ref_device = ref_device path,
                         ref_addr = path_increments\<rparr>),
                      s5)))"

text \<open>
  \<open>unchanged_below n s s'\<close>: the store \<open>s'\<close> has the buffers of \<open>s\<close> and holds in each
  buffer below \<open>n\<close> what \<open>s\<close> holds there.
\<close>

definition unchanged_below :: "addr \<Rightarrow> store \<Rightarrow> store \<Rightarrow> bool" where
  "unchanged_below n s s' \<longleftrightarrow> top s \<le> top s' \<and> (\<forall>a<n. heap s' a = heap s a)"


section \<open>tensor_algebra_ops.cpp: the backward kernels\<close>

text \<open>
  The batched matrix products of the backward kernels are of two shapes. With a tensor
  \<open>a\<close> of shape (B, n * m) viewed as (B, n, m): \<open>bmm(a, v.unsqueeze(channel_dim))\<close> for
  \<open>v\<close> of shape (B, m), which is \<open>bmm_mat_vec n m a v\<close> of shape (B, n), and
  \<open>bmm(v.unsqueeze(channel_dim - 1), a)\<close> for \<open>v\<close> of shape (B, n), which is
  \<open>bmm_vec_mat n m v a\<close> of shape (B, m). \<open>channel_size\<close> is \<open>size(channel_dim)\<close>.
\<close>

definition mat_vec :: "nat \<Rightarrow> nat \<Rightarrow> vec \<Rightarrow> vec \<Rightarrow> vec" where
  "mat_vec n m a v = map (\<lambda>i. \<Sum>j<m. a ! (i * m + j) * v ! j) [0..<n]"

definition vec_mat :: "nat \<Rightarrow> nat \<Rightarrow> vec \<Rightarrow> vec \<Rightarrow> vec" where
  "vec_mat n m v a = map (\<lambda>j. \<Sum>i<n. v ! i * a ! (i * m + j)) [0..<m]"

definition bmm_mat_vec :: "nat \<Rightarrow> nat \<Rightarrow> tensor2 \<Rightarrow> tensor2 \<Rightarrow> tensor2" where
  "bmm_mat_vec n m a v = map2 (mat_vec n m) a v"

definition bmm_vec_mat :: "nat \<Rightarrow> nat \<Rightarrow> tensor2 \<Rightarrow> tensor2 \<Rightarrow> tensor2" where
  "bmm_vec_mat n m v a = map2 (vec_mat n m) v a"

definition channel_size :: "tensor2 \<Rightarrow> nat" where
  "channel_size t = (case t of [] \<Rightarrow> 0 | r # rs \<Rightarrow> length r)"

text \<open>
  \<open>restricted_exp_backward(grad_in, grad_out, in, out, reciprocals)\<close> overwrites
  \<open>grad_in\<close> and updates \<open>grad_out\<close> in place; \<open>in\<close> and \<open>out\<close> are read. The first
  pass, \<open>i = depth - 2\<close>, sets \<open>grad_in\<close> with \<open>bmm_out\<close>; the passes
  \<open>i = depth - 3\<close> down to 0 add to it. The result is the pair of \<open>grad_in\<close> and
  \<open>grad_out\<close> after the call.
\<close>

definition restricted_exp_backward_step ::
  "tensor2 \<Rightarrow> tensor2 list \<Rightarrow> real list \<Rightarrow> nat \<Rightarrow> bool \<Rightarrow> nat \<Rightarrow> tensor2 \<times> tensor2 list
     \<Rightarrow> tensor2 \<times> tensor2 list" where
  "restricted_exp_backward_step inp out reciprocals C first i st =
     (let (grad_in, grad_out) = st;
          grad_out1 = grad_out[Suc i := t_scale (reciprocals ! i) (grad_out ! Suc i)];
          m = channel_size (out ! i);
          product = bmm_mat_vec C m (grad_out1 ! Suc i) (out ! i);
          grad_in1 = (if first then product else t_add grad_in product);
          grad_out2 = grad_out1[i := t_add (grad_out1 ! i)
                                      (bmm_vec_mat C m inp (grad_out1 ! Suc i))]
      in (grad_in1, grad_out2))"

definition restricted_exp_backward ::
  "tensor2 list \<Rightarrow> tensor2 \<Rightarrow> tensor2 list \<Rightarrow> real list \<Rightarrow> tensor2 \<times> tensor2 list" where
  "restricted_exp_backward grad_out inp out reciprocals =
     (let C = channel_size inp; depth = length out in
      if 1 < depth then
        (let st = restricted_exp_backward_step inp out reciprocals C True (depth - 2)
                    (grad_out ! 0, grad_out);
             (grad_in, grad_out1) =
               fold (restricted_exp_backward_step inp out reciprocals C False)
                    (rev [0..<depth - 2]) st
         in (t_add grad_in (grad_out1 ! 0), grad_out1))
      else (grad_out ! 0, grad_out))"

text \<open>
  \<open>mult_fused_restricted_exp_backward(grad_next, grad_prev, next, prev, inverse,
  reciprocals)\<close> overwrites \<open>grad_next\<close> and updates \<open>grad_prev\<close> in place; \<open>next\<close> and
  \<open>prev\<close> are read, and the scratches and their gradients are new tensors.
  \<open>fused_scratches\<close> are the scratches the forward pass went through for one
  \<open>depth_index\<close>, recomputed.
\<close>

definition fused_scratches :: "tensor2 list \<Rightarrow> tensor2 list \<Rightarrow> bool \<Rightarrow> nat \<Rightarrow> tensor2 list" where
  "fused_scratches next_divided prev inv_flag depth_index =
     fold (\<lambda>j scratches.
             scratches @ [t_add (prev ! j)
                            (fused_prod inv_flag (last scratches)
                               (next_divided ! (depth_index - 1 - j)))])
          [1..<depth_index]
          [t_add (prev ! 0) (next_divided ! (depth_index - 1))]"

text \<open>
  One pass of the inner loop, \<open>j = depth_index - 1\<close> down to 1 with
  \<open>k = depth_index - 1 - j\<close>, on the gradient of the current scratch, \<open>grad_prev\<close> and
  \<open>grad_next_divided\<close>; it leaves the gradient of the scratch before.
\<close>

definition fused_backward_inner ::
  "tensor2 list \<Rightarrow> tensor2 list \<Rightarrow> bool \<Rightarrow> nat \<Rightarrow> nat \<Rightarrow> nat
     \<Rightarrow> tensor2 \<times> tensor2 list \<times> tensor2 list \<Rightarrow> tensor2 \<times> tensor2 list \<times> tensor2 list" where
  "fused_backward_inner scratches next_divided inv_flag C depth_index j st =
     (let (grad_scratch, grad_prev, grad_next_divided) = st;
          k = depth_index - 1 - j;
          old_scratch = scratches ! (j - 1);
          m = channel_size old_scratch;
          grad_prev1 = grad_prev[j := t_add (grad_prev ! j) grad_scratch];
          grad_old_scratch =
            (if inv_flag then bmm_vec_mat C m (next_divided ! k) grad_scratch
             else bmm_mat_vec m C grad_scratch (next_divided ! k));
          grad_next_divided1 =
            grad_next_divided[k := t_add (grad_next_divided ! k)
               (if inv_flag then bmm_mat_vec C m grad_scratch old_scratch
                else bmm_vec_mat m C old_scratch grad_scratch)]
      in (grad_old_scratch, grad_prev1, grad_next_divided1))"

text \<open>One pass of the outer loop, \<open>depth_index = 1 .. depth - 1\<close>.\<close>

definition fused_backward_outer ::
  "tensor2 \<Rightarrow> tensor2 list \<Rightarrow> tensor2 list \<Rightarrow> bool \<Rightarrow> nat \<Rightarrow> nat
     \<Rightarrow> tensor2 \<times> tensor2 list \<times> tensor2 list \<Rightarrow> tensor2 \<times> tensor2 list \<times> tensor2 list" where
  "fused_backward_outer nxt next_divided prev inv_flag C depth_index st =
     (let (grad_next, grad_prev, grad_next_divided) = st;
          scratches = fused_scratches next_divided prev inv_flag depth_index;
          scratch = last scratches;
          m = channel_size scratch;
          grad_scratch =
            (if inv_flag then bmm_vec_mat C m nxt (grad_prev ! depth_index)
             else bmm_mat_vec m C (grad_prev ! depth_index) nxt);
          grad_next1 =
            t_add grad_next
              (if inv_flag then bmm_mat_vec C m (grad_prev ! depth_index) scratch
               else bmm_vec_mat m C scratch (grad_prev ! depth_index));
          (grad_scratch0, grad_prev1, grad_next_divided1) =
            fold (fused_backward_inner scratches next_divided inv_flag C depth_index)
                 (rev [1..<depth_index]) (grad_scratch, grad_prev, grad_next_divided);
          grad_next_divided2 =
            grad_next_divided1[depth_index - 1 :=
              t_add (grad_next_divided1 ! (depth_index - 1)) grad_scratch0];
          grad_prev2 = grad_prev1[0 := t_add (grad_prev1 ! 0) grad_scratch0]
      in (grad_next1, grad_prev2, grad_next_divided2))"

definition mult_fused_restricted_exp_backward ::
  "tensor2 list \<Rightarrow> tensor2 \<Rightarrow> tensor2 list \<Rightarrow> bool \<Rightarrow> real list \<Rightarrow> tensor2 \<times> tensor2 list" where
  "mult_fused_restricted_exp_backward grad_prev nxt prev inv_flag reciprocals =
     (let C = channel_size nxt;
          depth = length prev;
          next_divided = map (\<lambda>r. t_scale r nxt) reciprocals;
          zeros = map (\<lambda>t. map (map (\<lambda>v. 0)) t) next_divided;
          (grad_next, grad_prev1, grad_next_divided) =
            fold (fused_backward_outer nxt next_divided prev inv_flag C) [1..<depth]
                 (grad_prev ! 0, grad_prev, zeros);
          grad_next1 =
            (if 1 < depth then
               fold (\<lambda>k g. t_add g (t_scale (reciprocals ! k) (grad_next_divided ! k)))
                    [0..<depth - 1] grad_next
             else grad_next)
      in (grad_next1, grad_prev1))"

section \<open>The store of the backward pass\<close>

text \<open>
  \<open>compute_path_increments_backward\<close> builds \<open>grad_path\<close> in a new tensor
  (\<open>torch::empty_like\<close>, \<open>clone\<close> or \<open>torch::empty\<close>) and returns with it the gradient of
  the basepoint: the view \<open>grad_path_increments[0]\<close> (the buffer of
  \<open>grad_path_increments\<close>), the new tensor \<open>-grad_path_increments[0]\<close>, or an empty
  tensor. The sizes are those of \<open>grad_path_increments\<close>.
\<close>

definition zero_slot :: "nat \<Rightarrow> tensor3 \<Rightarrow> tensor3" where
  "zero_slot i g = g[i := map (map (\<lambda>v. 0)) (g ! i)]"

definition compute_path_increments_backward_st ::
  "addr \<Rightarrow> bool \<Rightarrow> bool \<Rightarrow> nat \<Rightarrow> nat \<Rightarrow> nat \<Rightarrow> store \<Rightarrow> (addr \<times> addr) \<times> store" where
  "compute_path_increments_backward_st grad_path_increments basepoint inv_flag
       stream_size batch_size input_channel_size s =
     (let input_stream_size = (if basepoint then stream_size else stream_size + 1);
          num_increments = input_stream_size - 1
      in
      if basepoint then
        if inv_flag then
          let (grad_path, s1) =
                alloc (D3 (empty_like3 (data3 (heap s grad_path_increments)))) s;
              s2 = write_buf grad_path
                     (D3 (write_stream 0 num_increments
                            (narrow_stream 1 num_increments
                               (data3 (heap s1 grad_path_increments)))
                            (data3 (heap s1 grad_path)))) s1;
              s3 = write_buf grad_path
                     (D3 (zero_slot (length (data3 (heap s2 grad_path)) - 1)
                            (data3 (heap s2 grad_path)))) s2;
              s4 = write_buf grad_path
                     (D3 (t3_sub (data3 (heap s3 grad_path))
                            (data3 (heap s3 grad_path_increments)))) s3
          in ((grad_path, grad_path_increments), s4)
        else
          let (grad_path, s1) = alloc (D3 (data3 (heap s grad_path_increments))) s;
              s2 = write_buf grad_path
                     (D3 (write_stream 0 num_increments
                            (t3_sub (narrow_stream 0 num_increments (data3 (heap s1 grad_path)))
                                    (narrow_stream 1 num_increments
                                       (data3 (heap s1 grad_path_increments))))
                            (data3 (heap s1 grad_path)))) s1;
              (grad_basepoint_value, s3) =
                alloc (D2 (t_neg (data3 (heap s2 grad_path_increments) ! 0))) s2
          in ((grad_path, grad_basepoint_value), s3)
      else
        if inv_flag then
          let (grad_path, s1) =
                alloc (D3 (empty3 input_stream_size batch_size input_channel_size)) s;
              s2 = write_buf grad_path
                     (D3 (zero_slot (length (data3 (heap s1 grad_path)) - 1)
                            (data3 (heap s1 grad_path)))) s1;
              s3 = write_buf grad_path
                     (D3 (write_stream 0 num_increments
                            (data3 (heap s2 grad_path_increments))
                            (data3 (heap s2 grad_path)))) s2;
              s4 = write_buf grad_path
                     (D3 (write_stream 1 num_increments
                            (t3_sub (narrow_stream 1 num_increments (data3 (heap s3 grad_path)))
                                    (data3 (heap s3 grad_path_increments)))
                            (data3 (heap s3 grad_path)))) s3;
              (grad_basepoint_value, s5) = alloc (D2 []) s4
          in ((grad_path, grad_basepoint_value), s5)
        else
          let (grad_path, s1) =
                alloc (D3 (empty3 input_stream_size batch_size input_channel_size)) s;
              s2 = write_buf grad_path
                     (D3 (zero_slot 0 (data3 (heap s1 grad_path)))) s1;
              s3 = write_buf grad_path
                     (D3 (write_stream 1 num_increments
                            (data3 (heap s2 grad_path_increments))
                            (data3 (heap s2 grad_path)))) s2;
              s4 = write_buf grad_path
                     (D3 (write_stream 0 num_increments
                            (t3_sub (narrow_stream 0 num_increments (data3 (heap s3 grad_path)))
                                    (data3 (heap s3 grad_path_increments)))
                            (data3 (heap s3 grad_path)))) s3;
              (grad_basepoint_value, s5) = alloc (D2 []) s4
          in ((grad_path, grad_basepoint_value), s5))"

text \<open>
  One pass of the loop of \<open>signature_backward\<close>, \<open>stream_index = output_stream_size - 1\<close>
  down to 1. With \<open>stream\<close> the signature at \<open>stream_index - 1\<close> is read through the
  views of the argument \<open>signature\<close>; without it the clone \<open>signature_at_stream\<close> is
  rolled back in place by the fused kernel on \<open>-next\<close>. The backward kernel overwrites
  \<open>grad_path_increments[stream_index]\<close> and updates the clone
  \<open>grad_signature_at_stream\<close> through its views.
\<close>

definition signature_backward_step ::
  "addr \<Rightarrow> addr \<Rightarrow> addr \<Rightarrow> real list \<Rightarrow> bool \<Rightarrow> bool \<Rightarrow> nat \<Rightarrow> nat \<Rightarrow> addr \<Rightarrow> addr \<Rightarrow> addr
     \<Rightarrow> nat \<Rightarrow> store \<Rightarrow> store" where
  "signature_backward_step grad_signature signature path_increments reciprocals stream inv_flag
       C depth grad_signature_at_stream signature_at_stream grad_path_increments
       stream_index s =
     (let nxt = data3 (heap s path_increments) ! stream_index;
          s1 = (if stream then s
                else write_buf signature_at_stream
                       (D2 (write_terms
                              (mult_fused_restricted_exp (t_neg nxt)
                                 (slice_by_term (data2 (heap s signature_at_stream)) C depth)
                                 inv_flag reciprocals)
                              (data2 (heap s signature_at_stream)))) s);
          prev = (if stream
                  then slice_at_stream (slice_by_term3 (data3 (heap s1 signature)) C depth)
                         (stream_index - 1)
                  else slice_by_term (data2 (heap s1 signature_at_stream)) C depth);
          (grad_next, grad_prev) =
            mult_fused_restricted_exp_backward
              (slice_by_term (data2 (heap s1 grad_signature_at_stream)) C depth)
              nxt prev inv_flag reciprocals;
          s2 = write_buf grad_path_increments
                 (D3 ((data3 (heap s1 grad_path_increments))[stream_index := grad_next])) s1;
          s3 = write_buf grad_signature_at_stream
                 (D2 (write_terms grad_prev (data2 (heap s2 grad_signature_at_stream)))) s2
      in if stream then
           write_buf grad_signature_at_stream
             (D2 (t_add (data2 (heap s3 grad_signature_at_stream))
                        (data3 (heap s3 grad_signature) ! (stream_index - 1)))) s3
         else s3)"

text \<open>
  The first increment, after the loop of \<open>signature_backward\<close>. Here
  \<open>signature_by_term_at_stream\<close> is the clone (without \<open>stream\<close>) or the views of
  \<open>signature[0]\<close>; with \<open>initial\<close> and \<open>stream\<close> these views are cloned (here into one
  buffer) before the fused kernel rolls them back to the initial value in place. Without
  \<open>initial\<close> nothing is rolled back and \<open>restricted_exp_backward\<close> runs.
\<close>

definition signature_backward_first_st ::
  "addr \<Rightarrow> addr \<Rightarrow> real list \<Rightarrow> bool \<Rightarrow> bool \<Rightarrow> bool \<Rightarrow> nat \<Rightarrow> nat \<Rightarrow> addr \<Rightarrow> addr \<Rightarrow> addr
     \<Rightarrow> store \<Rightarrow> store" where
  "signature_backward_first_st signature path_increments reciprocals stream inv_flag initial
       C depth grad_signature_at_stream signature_at_stream grad_path_increments s =
     (let nxt = data3 (heap s path_increments) ! 0;
          (signature_at_stream1, s1) =
            (if initial \<and> stream
             then alloc (D2 (data3 (heap s signature) ! 0)) s
             else (signature_at_stream, s));
          s2 = (if initial then
                  write_buf signature_at_stream1
                    (D2 (write_terms
                           (mult_fused_restricted_exp (t_neg nxt)
                              (slice_by_term (data2 (heap s1 signature_at_stream1)) C depth)
                              inv_flag reciprocals)
                           (data2 (heap s1 signature_at_stream1)))) s1
                else s1);
          prev = (if stream \<and> \<not> initial
                  then slice_at_stream (slice_by_term3 (data3 (heap s2 signature)) C depth) 0
                  else slice_by_term (data2 (heap s2 signature_at_stream1)) C depth);
          grad_prev = slice_by_term (data2 (heap s2 grad_signature_at_stream)) C depth;
          (grad_next, grad_prev1) =
            (if initial
             then mult_fused_restricted_exp_backward grad_prev nxt prev inv_flag reciprocals
             else restricted_exp_backward grad_prev nxt prev reciprocals);
          s3 = write_buf grad_path_increments
                 (D3 ((data3 (heap s2 grad_path_increments))[0 := grad_next])) s2
      in write_buf grad_signature_at_stream
           (D2 (write_terms grad_prev1 (data2 (heap s3 grad_signature_at_stream)))) s3)"

text \<open>
  \<open>signature_backward\<close>: \<open>detach\<close> gives views of the arguments.
  \<open>grad_signature_at_stream\<close> is a clone of \<open>grad_signature[-1]\<close> or of
  \<open>grad_signature\<close>; without \<open>stream\<close> the signature is cloned before it is rolled
  back; \<open>grad_path_increments\<close> is \<open>torch::empty_like(path_increments)\<close>. The results are
  the references to \<open>grad_path\<close>, to the gradient of the basepoint and to
  \<open>grad_signature_at_stream\<close>, with the store the call leaves.
\<close>

definition signature_backward_st ::
  "tensor_ref \<Rightarrow> tensor_ref \<Rightarrow> tensor_ref \<Rightarrow> nat \<Rightarrow> bool \<Rightarrow> bool \<Rightarrow> bool \<Rightarrow> bool \<Rightarrow> store
     \<Rightarrow> (tensor_ref \<times> tensor_ref \<times> tensor_ref) \<times> store" where
  "signature_backward_st grad_signature signature path_increments depth stream basepoint
       inv_flag initial s =
     (let reciprocals = make_reciprocals depth;
          output_stream_size = size_dim (load s path_increments) stream_dim;
          batch_size = size_dim (load s path_increments) batch_dim;
          input_channel_size = size_dim (load s path_increments) channel_dim;
          (grad_signature_at_stream, s1) =
            alloc (D2 (if stream then last (data3 (heap s (ref_addr grad_signature)))
                       else data2 (heap s (ref_addr grad_signature)))) s;
          (signature_at_stream, s2) =
            (if stream then (ref_addr signature, s1)
             else alloc (D2 (data2 (heap s1 (ref_addr signature)))) s1);
          (grad_path_increments, s3) =
            alloc (D3 (empty_like3 (data3 (heap s2 (ref_addr path_increments))))) s2;
          s4 = fold (signature_backward_step (ref_addr grad_signature) (ref_addr signature)
                       (ref_addr path_increments) reciprocals stream inv_flag
                       input_channel_size depth grad_signature_at_stream signature_at_stream
                       grad_path_increments)
                    (rev [1..<output_stream_size]) s3;
          s5 = signature_backward_first_st (ref_addr signature) (ref_addr path_increments)
                 reciprocals stream inv_flag initial input_channel_size depth
                 grad_signature_at_stream signature_at_stream grad_path_increments s4;
          ((grad_path, grad_basepoint_value), s6) =
            compute_path_increments_backward_st grad_path_increments basepoint inv_flag
              output_stream_size batch_size input_channel_size s5
      in ((\<lparr>ref_sizes = [output_stream_size + (if basepoint then 0 else 1), batch_size,
                          input_channel_size],
             ref_dtype = ref_dtype signature, ref_device = ref_device signature,
             ref_addr = grad_path\<rparr>,
           \<lparr>ref_sizes = (if basepoint then [batch_size, input_channel_size] else [0]),
             ref_dtype = ref_dtype signature, ref_device = ref_device signature,
             ref_addr = grad_basepoint_value\<rparr>,
           \<lparr>ref_sizes = [batch_size, signature_channels input_channel_size depth],
             ref_dtype = ref_dtype signature, ref_device = ref_device signature,
             ref_addr = grad_signature_at_stream\<rparr>),
          s6))"

text \<open>A buffer holds a tensor of the given sizes.\<close>

fun holds :: "nat list \<Rightarrow> contents \<Rightarrow> bool" where
  "holds [S, B, n] (D3 P) = shape3 S B n P"
| "holds [B, n] (D2 T) = shape2 B n T"
| "holds _ _ = False"

section \<open>Properties of the host operations\<close>

lemma otimes_Nil [simp]: "otimes [] ys = []"
  by (simp add: otimes_def)

lemma otimes_Cons: "otimes (x # xs) ys = map (\<lambda>b. x * b) ys @ otimes xs ys"
  by (simp add: otimes_def)

lemma otimes_append: "otimes (xs @ xs') ys = otimes xs ys @ otimes xs' ys"
  by (simp add: otimes_def)

lemma otimes_map_left: "otimes (map (\<lambda>b. x * b) ys) zs = map (\<lambda>b. x * b) (otimes ys zs)"
  by (induction ys) (simp_all add: otimes_Cons mult.assoc)

lemma otimes_assoc: "otimes (otimes xs ys) zs = otimes xs (otimes ys zs)"
  by (induction xs) (simp_all add: otimes_Cons otimes_append otimes_map_left)

lemma length_otimes [simp]: "length (otimes xs ys) = length xs * length ys"
  by (induction xs) (simp_all add: otimes_Cons)

lemma otimes_scale_left: "otimes (vscale r xs) ys = vscale r (otimes xs ys)"
  by (induction xs) (simp_all add: vscale_def otimes_Cons mult.assoc mult.left_commute mult.commute)

lemma otimes_scale_right: "otimes xs (vscale r ys) = vscale r (otimes xs ys)"
  by (induction xs) (simp_all add: vscale_def otimes_Cons mult.assoc)

lemma map2_assoc_gen:
  assumes "\<And>x y z. f (f x y) z = f x (f y z)"
  shows "map2 f (map2 f xs ys) zs = map2 f xs (map2 f ys zs)"
proof (induction xs arbitrary: ys zs)
  case Nil
  then show ?case by simp
next
  case (Cons x xs)
  then show ?case
    by (cases ys; cases zs) (simp_all add: assms)
qed

lemma outer_assoc: "outer (outer X Y) Z = outer X (outer Y Z)"
  unfolding outer_def by (rule map2_assoc_gen) (rule otimes_assoc)

lemma outer_scale_left: "outer (t_scale r X) Y = t_scale r (outer X Y)"
proof (induction X arbitrary: Y)
  case Nil
  then show ?case by (simp add: outer_def t_scale_def)
next
  case (Cons x X)
  then show ?case
    by (cases Y) (simp_all add: outer_def t_scale_def otimes_scale_left)
qed

lemma outer_scale_right: "outer X (t_scale r Y) = t_scale r (outer X Y)"
proof (induction X arbitrary: Y)
  case Nil
  then show ?case by (simp add: outer_def t_scale_def)
next
  case (Cons x X)
  then show ?case
    by (cases Y) (simp_all add: outer_def t_scale_def otimes_scale_right)
qed

lemma t_scale_t_scale: "t_scale r (t_scale s X) = t_scale (s * r) X"
  by (simp add: t_scale_def vscale_def mult.assoc)

lemma tpow_commute: "outer x (tpow x n) = outer (tpow x n) x"
  by (induction n) (simp_all add: outer_assoc [symmetric])

section \<open>Reciprocals\<close>

lemma length_linspace [simp]: "length (linspace a b steps) = steps"
  by (simp add: linspace_def)

lemma linspace_unit_step:
  assumes "i < n"
  shows "linspace 2 (real (Suc n)) n ! i = real i + 2"
proof (cases "n = 1")
  case True
  with assms show ?thesis by (simp add: linspace_def)
next
  case False
  with assms have n: "2 \<le> n" by simp
  then have "(real (Suc n) - 2) / real (n - 1) = 1"
    by (simp add: of_nat_diff)
  with assms False show ?thesis
    by (simp add: linspace_def)
qed

lemma length_make_reciprocals [simp]: "length (make_reciprocals depth) = depth - 1"
  by (simp add: make_reciprocals_def ones_def)

lemma make_reciprocals_nth:
  assumes "i < depth - 1"
  shows "make_reciprocals depth ! i = 1 / (real i + 2)"
proof -
  from assms obtain n where d: "depth = Suc n" and i: "i < n"
    by (cases depth) simp_all
  from i have "linspace 2 (real (Suc n)) n ! i = real i + 2"
    by (rule linspace_unit_step)
  with d i show ?thesis
    by (simp add: make_reciprocals_def ones_def)
qed


section \<open>Shapes\<close>

lemma shape2_iff: "shape2 B n T \<longleftrightarrow> length T = B \<and> (\<forall>b<B. length (T ! b) = n)"
  by (auto simp: shape2_def list_all_length)

lemma shape2_length: "shape2 B n T \<Longrightarrow> length T = B"
  by (simp add: shape2_def)

lemma shape2_row: "shape2 B n T \<Longrightarrow> b < B \<Longrightarrow> length (T ! b) = n"
  by (simp add: shape2_iff)

lemma outer_nth: "b < length X \<Longrightarrow> b < length Y \<Longrightarrow> outer X Y ! b = otimes (X ! b) (Y ! b)"
  by (simp add: outer_def)

lemma t_add_nth: "b < length X \<Longrightarrow> b < length Y \<Longrightarrow> t_add X Y ! b = vadd (X ! b) (Y ! b)"
  by (simp add: t_add_def)

lemma t_scale_nth: "b < length X \<Longrightarrow> t_scale r X ! b = vscale r (X ! b)"
  by (simp add: t_scale_def)

lemma length_vadd [simp]: "length (vadd xs ys) = min (length xs) (length ys)"
  by (simp add: vadd_def)

lemma length_vscale [simp]: "length (vscale r xs) = length xs"
  by (simp add: vscale_def)

lemma shape2_outer: "shape2 B n X \<Longrightarrow> shape2 B m Y \<Longrightarrow> shape2 B (n * m) (outer X Y)"
  by (simp add: shape2_iff outer_def)

lemma shape2_t_add: "shape2 B n X \<Longrightarrow> shape2 B n Y \<Longrightarrow> shape2 B n (t_add X Y)"
  by (simp add: shape2_iff t_add_def)

lemma shape2_t_scale: "shape2 B n X \<Longrightarrow> shape2 B n (t_scale r X)"
  by (simp add: shape2_iff t_scale_def)

lemma shape2_t_neg: "shape2 B n X \<Longrightarrow> shape2 B n (t_neg X)"
  by (simp add: shape2_iff t_neg_def)

lemma shape2_t_sub: "shape2 B n X \<Longrightarrow> shape2 B n Y \<Longrightarrow> shape2 B n (t_sub X Y)"
  by (simp add: shape2_iff t_sub_def)

lemma shape2_tpow: "shape2 B C x \<Longrightarrow> shape2 B (C ^ Suc k) (tpow x k)"
proof (induction k)
  case 0
  then show ?case by simp
next
  case (Suc k)
  then have "shape2 B (C ^ Suc k * C) (outer (tpow x k) x)"
    by (intro shape2_outer) simp_all
  then show ?case by (simp add: mult.commute)
qed

section \<open>The restricted exponential\<close>

lemma restricted_exp_step_length [simp]:
  "length (restricted_exp_step x r i out) = length out"
  by (simp add: restricted_exp_step_def)

lemma restricted_exp_prefix:
  assumes "n \<le> length out - 1" "0 < length out"
  shows "length (fold (restricted_exp_step x r) [0..<n] (out[0 := x])) = length out
       \<and> fold (restricted_exp_step x r) [0..<n] (out[0 := x]) ! 0 = x
       \<and> (\<forall>i<n. fold (restricted_exp_step x r) [0..<n] (out[0 := x]) ! Suc i
                   = t_scale (r ! i) (outer x (fold (restricted_exp_step x r) [0..<n] (out[0 := x]) ! i)))"
  using assms
proof (induction n)
  case 0
  then show ?case by simp
next
  case (Suc n)
  let ?F = "fold (restricted_exp_step x r) [0..<n] (out[0 := x])"
  from Suc have IH: "length ?F = length out" "?F ! 0 = x"
    "\<forall>i<n. ?F ! Suc i = t_scale (r ! i) (outer x (?F ! i))" and n: "Suc n < length out"
    by simp_all
  have step: "fold (restricted_exp_step x r) [0..<Suc n] (out[0 := x])
      = ?F[Suc n := t_scale (r ! n) (outer x (?F ! n))]"
    by (simp add: restricted_exp_step_def)
  show ?case
    unfolding step using IH n
    by (auto simp: nth_list_update less_Suc_eq)
qed

lemma restricted_exp_rec:
  assumes "0 < length out"
  shows "length (restricted_exp x out r) = length out"
    and "restricted_exp x out r ! 0 = x"
    and "Suc i < length out \<Longrightarrow>
           restricted_exp x out r ! Suc i = t_scale (r ! i) (outer x (restricted_exp x out r ! i))"
  using restricted_exp_prefix [of "length out - 1" out x r] assms
  by (auto simp: restricted_exp_def)

lemma vscale_one [simp]: "vscale 1 xs = xs"
  by (simp add: vscale_def)

lemma t_scale_one [simp]: "t_scale 1 X = X"
  by (induction X) (simp_all add: t_scale_def)

lemma restricted_exp_closed:
  assumes "k < length out" "\<forall>i<length out - 1. r ! i = 1 / (real i + 2)"
  shows "restricted_exp x out r ! k = t_scale (1 / fact (Suc k)) (tpow x k)"
  using assms(1)
proof (induction k)
  case 0
  then show ?case
    by (simp add: restricted_exp_rec)
next
  case (Suc k)
  then have IH: "restricted_exp x out r ! k = t_scale (1 / fact (Suc k)) (tpow x k)"
    and k: "Suc k < length out" by simp_all
  from k have rk: "r ! k = 1 / (real k + 2)" using assms(2) by simp
  have "restricted_exp x out r ! Suc k = t_scale (r ! k) (outer x (restricted_exp x out r ! k))"
    using k by (intro restricted_exp_rec) auto
  also have "\<dots> = t_scale (1 / fact (Suc k) * r ! k) (outer x (tpow x k))"
    by (simp add: IH outer_scale_right t_scale_t_scale)
  also have "1 / fact (Suc k) * r ! k = (1 / fact (Suc (Suc k)) :: real)"
    by (simp add: rk add.commute)
  finally show ?case
    by (simp add: tpow_commute)
qed

lemma restricted_exp_closed_rec:
  assumes "Suc k < length out" "\<forall>i<length out - 1. r ! i = 1 / (real i + 2)"
  shows "restricted_exp x out r ! Suc k = t_scale (r ! k) (outer (restricted_exp x out r ! k) x)"
proof -
  have "restricted_exp x out r ! Suc k = t_scale (r ! k) (outer x (restricted_exp x out r ! k))"
    using assms(1) by (intro restricted_exp_rec) auto
  also have "outer x (restricted_exp x out r ! k) = outer (restricted_exp x out r ! k) x"
    using assms by (simp add: restricted_exp_closed outer_scale_right outer_scale_left tpow_commute)
  finally show ?thesis .
qed

text \<open>
  Claim C6. For an increment \<open>x\<close> of shape (B, C) and \<open>D \<ge> 1\<close> output views,
  \<open>restricted_exp\<close> with the reciprocals of depth \<open>D\<close> leaves \<open>out[0] = x\<close> and
  \<open>out[k] = (out[k - 1] \<otimes> x) * r[k - 1]\<close> for \<open>k = 1 .. D - 1\<close>, where \<open>r\<close> has
  \<open>D - 1\<close> entries \<open>r[i] = 1 / (i + 2)\<close>; the term of depth \<open>k + 1\<close> is the tensor power of
  \<open>x\<close> with \<open>k + 1\<close> factors divided by \<open>(k + 1)!\<close>, of shape (B, C^(k + 1)).
\<close>

theorem restricted_exp_postcondition:
  assumes "shape2 B C x" and "1 \<le> D" and "length out = D"
  shows "length (make_reciprocals D) = D - 1
       \<and> (\<forall>i<D - 1. make_reciprocals D ! i = 1 / (real i + 2))
       \<and> length (restricted_exp x out (make_reciprocals D)) = D
       \<and> restricted_exp x out (make_reciprocals D) ! 0 = x
       \<and> (\<forall>k. 1 \<le> k \<and> k < D \<longrightarrow>
             restricted_exp x out (make_reciprocals D) ! k
               = t_scale (make_reciprocals D ! (k - 1))
                   (outer (restricted_exp x out (make_reciprocals D) ! (k - 1)) x))
       \<and> (\<forall>k<D. restricted_exp x out (make_reciprocals D) ! k
                    = t_scale (1 / fact (Suc k)) (tpow x k)
                \<and> shape2 B (C ^ Suc k) (restricted_exp x out (make_reciprocals D) ! k))"
proof -
  let ?r = "make_reciprocals D"
  have r: "\<forall>i<length out - 1. ?r ! i = 1 / (real i + 2)"
    using assms(3) by (simp add: make_reciprocals_nth)
  have pos: "0 < length out" using assms by simp
  have rec: "restricted_exp x out ?r ! k = t_scale (?r ! (k - 1)) (outer (restricted_exp x out ?r ! (k - 1)) x)"
    if "1 \<le> k" "k < D" for k
  proof -
    from that obtain j where k: "k = Suc j" by (cases k) simp_all
    with that assms(3) have "Suc j < length out" by simp
    from restricted_exp_closed_rec [OF this r] show ?thesis by (simp add: k)
  qed
  have closed: "restricted_exp x out ?r ! k = t_scale (1 / fact (Suc k)) (tpow x k)
      \<and> shape2 B (C ^ Suc k) (restricted_exp x out ?r ! k)" if "k < D" for k
  proof -
    from that assms(3) have "k < length out" by simp
    from restricted_exp_closed [OF this r] shape2_tpow [OF assms(1), of k]
    show ?thesis by (simp add: shape2_t_scale)
  qed
  have len: "length (restricted_exp x out ?r) = D" and first: "restricted_exp x out ?r ! 0 = x"
    using restricted_exp_rec(1,2) [OF pos, of x ?r] assms(3) by simp_all
  have r': "\<forall>i<D - 1. ?r ! i = 1 / (real i + 2)"
    using r assms(3) by simp
  have "\<forall>k. 1 \<le> k \<and> k < D \<longrightarrow>
      restricted_exp x out ?r ! k = t_scale (?r ! (k - 1)) (outer (restricted_exp x out ?r ! (k - 1)) x)"
    using rec by blast
  moreover have "\<forall>k<D. restricted_exp x out ?r ! k = t_scale (1 / fact (Suc k)) (tpow x k)
      \<and> shape2 B (C ^ Suc k) (restricted_exp x out ?r ! k)"
    using closed by blast
  moreover have "length ?r = D - 1" by simp
  ultimately show ?thesis
    using len first r' by (intro conjI)
qed

theorem restricted_exp_postcondition_witness:
  "restricted_exp [[1, 2]] [[[0, 0]], [[0, 0, 0, 0]]] (make_reciprocals 2) ! 1
     = t_scale (make_reciprocals 2 ! 0) (outer [[1, 2]] [[1, 2]])
   \<and> make_reciprocals 2 ! 0 = 1 / 2"
proof -
  have s: "shape2 1 2 [[1, 2]]" by (simp add: shape2_def)
  have l: "length [[[0, 0]], [[0, 0, 0, 0 :: real]]] = 2" by simp
  from restricted_exp_postcondition [OF s _ l] show ?thesis by simp
qed


section \<open>Path increments\<close>

lemma shape3_iff: "shape3 S B n P \<longleftrightarrow> length P = S \<and> (\<forall>s<S. shape2 B n (P ! s))"
  by (auto simp: shape3_def list_all_length)

lemma t3_sub_nth: "s < length P \<Longrightarrow> s < length Q \<Longrightarrow> t3_sub P Q ! s = t_sub (P ! s) (Q ! s)"
  by (simp add: t3_sub_def)

lemma length_t3_sub [simp]: "length (t3_sub P Q) = min (length P) (length Q)"
  by (simp add: t3_sub_def)

lemma length_empty_like3 [simp]: "length (empty_like3 P) = length P"
  by (simp add: empty_like3_def)

lemma increments_plain:
  assumes "1 \<le> length path"
  shows "length (compute_path_increments path False bp inv_flag) = length path - 1"
    and "s < length path - 1 \<Longrightarrow>
           compute_path_increments path False bp inv_flag ! s
             = (if inv_flag then t_sub (path ! s) (path ! Suc s) else t_sub (path ! Suc s) (path ! s))"
  using assms
  by (auto simp: compute_path_increments_def Let_def narrow_stream_def t3_sub_nth)

lemma increments_basepoint:
  assumes "1 \<le> length path"
  shows "length (compute_path_increments path True bp inv_flag) = length path"
    and "compute_path_increments path True bp inv_flag ! 0
           = (if inv_flag then t_sub bp (path ! 0) else t_sub (path ! 0) bp)"
    and "1 \<le> s \<Longrightarrow> s < length path \<Longrightarrow>
           compute_path_increments path True bp inv_flag ! s
             = (if inv_flag then t_sub (path ! (s - 1)) (path ! s)
                else t_sub (path ! s) (path ! (s - 1)))"
proof -
  let ?n = "length path - 1"
  from assms obtain p ps where path: "path = p # ps" by (cases path) simp_all
  show "length (compute_path_increments path True bp inv_flag) = length path"
    using assms
    by (auto simp: compute_path_increments_def Let_def narrow_stream_def write_stream_def)
  show "compute_path_increments path True bp inv_flag ! 0
           = (if inv_flag then t_sub bp (path ! 0) else t_sub (path ! 0) bp)"
    by (simp add: path compute_path_increments_def Let_def narrow_stream_def write_stream_def
        t3_sub_def empty_like3_def)
  show "compute_path_increments path True bp inv_flag ! s
             = (if inv_flag then t_sub (path ! (s - 1)) (path ! s)
                else t_sub (path ! s) (path ! (s - 1)))" if "1 \<le> s" "s < length path"
  proof -
    from that obtain j where s: "s = Suc j" by (cases s) simp_all
    with that path have j: "j < length ps" by simp
    then have j': "j < length (butlast (p # ps))" by (simp del: butlast.simps)
    show ?thesis
      using j j'
      by (auto simp add: s path compute_path_increments_def Let_def narrow_stream_def
        write_stream_def t3_sub_def empty_like3_def nth_butlast simp del: butlast.simps)
  qed
qed

lemma increments_shape:
  assumes "shape3 N B C path" and "1 \<le> N" and "basepoint \<longrightarrow> shape2 B C bp"
  shows "shape3 (N - (if basepoint then 0 else 1)) B C
           (compute_path_increments path basepoint bp inv_flag)"
proof (cases basepoint)
  case True
  from assms have len: "1 \<le> length path" and sh: "\<And>s. s < N \<Longrightarrow> shape2 B C (path ! s)"
    and N: "length path = N"
    by (simp_all add: shape3_iff)
  have "shape2 B C (compute_path_increments path True bp inv_flag ! s)" if "s < N" for s
  proof (cases s)
    case 0
    with assms True sh [of 0] show ?thesis
      by (simp add: increments_basepoint(2) [OF len] shape2_t_sub)
  next
    case (Suc j)
    with that N sh [of s] sh [of j] show ?thesis
      by (simp add: increments_basepoint(3) [OF len] shape2_t_sub)
  qed
  with True N show ?thesis
    by (simp add: shape3_iff increments_basepoint(1) [OF len])
next
  case False
  from assms have len: "1 \<le> length path" and sh: "\<And>s. s < N \<Longrightarrow> shape2 B C (path ! s)"
    and N: "length path = N"
    by (simp_all add: shape3_iff)
  have "shape2 B C (compute_path_increments path False bp inv_flag ! s)" if "s < N - 1" for s
    using that N sh [of s] sh [of "Suc s"]
    by (simp add: increments_plain(2) [OF len] shape2_t_sub)
  with False N show ?thesis
    by (simp add: shape3_iff increments_plain(1) [OF len])
qed

text \<open>
  Claim C7, as the program has it. For a path of shape (N, B, C) with \<open>N \<ge> 1\<close>,
  \<open>compute_path_increments\<close> returns a tensor of shape (S, B, C). Without a basepoint
  \<open>S = N - 1\<close> and entry \<open>s\<close> is \<open>path[s + 1] - path[s]\<close>, or \<open>path[s] - path[s + 1]\<close>
  under \<open>inverse\<close>. With a basepoint of shape (B, C), \<open>S = N\<close>, entry 0 is
  \<open>path[0] - bp\<close> (\<open>bp - path[0]\<close> under \<open>inverse\<close>) and entry \<open>s \<ge> 1\<close> is
  \<open>path[s] - path[s - 1]\<close> (\<open>path[s - 1] - path[s]\<close> under \<open>inverse\<close>): the basepoint is
  put in front of the path, so the differences with a basepoint are those without it,
  one place later.
\<close>

theorem compute_path_increments_cases:
  assumes "shape3 N B C path" and "1 \<le> N" and "basepoint \<longrightarrow> shape2 B C bp"
  shows "shape3 (N - (if basepoint then 0 else 1)) B C
           (compute_path_increments path basepoint bp inv_flag)
       \<and> (\<not> basepoint \<longrightarrow>
            (\<forall>s<N - 1. compute_path_increments path basepoint bp inv_flag ! s
                = (if inv_flag then t_sub (path ! s) (path ! (s + 1))
                   else t_sub (path ! (s + 1)) (path ! s))))
       \<and> (basepoint \<longrightarrow>
            compute_path_increments path basepoint bp inv_flag ! 0
              = (if inv_flag then t_sub bp (path ! 0) else t_sub (path ! 0) bp)
            \<and> (\<forall>s. 1 \<le> s \<and> s < N \<longrightarrow>
                  compute_path_increments path basepoint bp inv_flag ! s
                    = (if inv_flag then t_sub (path ! (s - 1)) (path ! s)
                       else t_sub (path ! s) (path ! (s - 1)))))"
proof -
  from assms have len: "1 \<le> length path" and N: "length path = N"
    by (simp_all add: shape3_iff)
  show ?thesis
    using increments_shape [OF assms, of inv_flag]
      increments_plain(2) [OF len, where bp = bp and inv_flag = inv_flag]
      increments_basepoint(2,3) [OF len, where bp = bp and inv_flag = inv_flag] N
    by (cases basepoint) simp_all
qed

theorem compute_path_increments_cases_witness:
  "compute_path_increments [[[1]], [[3]], [[7]]] True [[0]] False ! 1
     = t_sub ([[[1]], [[3]], [[7]]] ! 1) ([[[1]], [[3]], [[7]]] ! 0)
   \<and> compute_path_increments [[[1]], [[3]], [[7]]] True [[0]] False ! 0
     = t_sub ([[[1]], [[3]], [[7]]] ! 0) [[0]]"
proof -
  have s: "shape3 3 1 1 [[[1]], [[3]], [[7]]]" by (simp add: shape3_def shape2_def)
  have b: "True \<longrightarrow> shape2 1 1 [[0]]" by (simp add: shape2_def)
  from compute_path_increments_cases [OF s _ b, of False] show ?thesis by simp
qed

text \<open>
  The claim as the specification states it has entry \<open>s \<ge> 1\<close> with a basepoint equal to
  \<open>path[s + 1] - path[s]\<close>. For the path 1, 3, 7 with basepoint 0 the program returns
  1, 2, 4: entry 1 is \<open>path[1] - path[0] = 2\<close>, not \<open>path[2] - path[1] = 4\<close>.
\<close>

theorem compute_path_increments_basepoint_counterexample:
  "compute_path_increments [[[1]], [[3]], [[7]]] True [[0]] False ! 1
     \<noteq> t_sub ([[[1]], [[3]], [[7]]] ! (1 + 1)) ([[[1]], [[3]], [[7]]] ! 1)"
  by (simp add: compute_path_increments_def Let_def narrow_stream_def write_stream_def
        t3_sub_def t_sub_def)


section \<open>Argument validation\<close>

lemma length_3E:
  assumes "length xs = 3"
  obtains a b c where "xs = [a, b, c]"
  using assms by (cases xs; cases "tl xs"; cases "tl (tl xs)") auto

lemma length_2E:
  assumes "length xs = 2"
  obtains a b where "xs = [a, b]"
  using assms by (cases xs; cases "tl xs") auto

lemma sizes_2d_iff:
  "ndimension t = 2 \<and> size_dim t batch_dim = B \<and> size_dim t channel_dim = n \<longleftrightarrow> sizes t = [B, n]"
proof
  assume a: "ndimension t = 2 \<and> size_dim t batch_dim = B \<and> size_dim t channel_dim = n"
  then have "length (sizes t) = 2" by (simp add: ndimension_def)
  then obtain a b where "sizes t = [a, b]" by (rule length_2E)
  with a show "sizes t = [B, n]"
    by (simp add: size_dim_def batch_dim_def channel_dim_def)
next
  assume "sizes t = [B, n]"
  then show "ndimension t = 2 \<and> size_dim t batch_dim = B \<and> size_dim t channel_dim = n"
    by (simp add: ndimension_def size_dim_def batch_dim_def channel_dim_def)
qed

lemma sizes_3d:
  assumes "sizes t = [N, B, C]"
  shows "ndimension t = 3" "size_dim t stream_dim = N" "size_dim t batch_dim = B"
    "size_dim t channel_dim = C"
  using assms
  by (simp_all add: ndimension_def size_dim_def batch_dim_def channel_dim_def stream_dim_def)

lemma if_Some_eq_None: "((if c then Some e else x) = None) = (\<not> c \<and> x = None)"
  by simp

lemma checkargs_None_conds:
  "signature_checkargs path depth basepoint basepoint_value initial initial_value = None
   \<longleftrightarrow> ndimension path = 3
     \<and> size_dim path batch_dim \<noteq> 0 \<and> size_dim path stream_dim \<noteq> 0
     \<and> size_dim path channel_dim \<noteq> 0
     \<and> (basepoint \<or> size_dim path stream_dim \<noteq> 1)
     \<and> 1 \<le> depth \<and> is_floating_point path
     \<and> (basepoint \<longrightarrow> ndimension basepoint_value = 2
            \<and> size_dim basepoint_value channel_dim = size_dim path channel_dim
            \<and> size_dim basepoint_value batch_dim = size_dim path batch_dim
            \<and> make_opts path = make_opts basepoint_value)
     \<and> (initial \<longrightarrow> ndimension initial_value = 2
            \<and> size_dim initial_value channel_dim
                  = signature_channels (size_dim path channel_dim) (nat depth)
            \<and> size_dim initial_value batch_dim = size_dim path batch_dim
            \<and> make_opts path = make_opts initial_value)"
  unfolding signature_checkargs_def if_Some_eq_None
  by (auto simp: not_less)

lemma checkargs_accepts_iff:
  "signature_checkargs path depth basepoint basepoint_value initial initial_value = None
   \<longleftrightarrow> (\<exists>N B C. sizes path = [N, B, C] \<and> N \<noteq> 0 \<and> B \<noteq> 0 \<and> C \<noteq> 0
          \<and> (basepoint \<or> N \<noteq> 1) \<and> 1 \<le> depth \<and> is_floating_point path
          \<and> (basepoint \<longrightarrow> sizes basepoint_value = [B, C]
                \<and> dtype basepoint_value = dtype path \<and> device basepoint_value = device path)
          \<and> (initial \<longrightarrow> sizes initial_value = [B, signature_channels C (nat depth)]
                \<and> dtype initial_value = dtype path \<and> device initial_value = device path))"
proof (cases "ndimension path = 3")
  case False
  then have "\<not> (\<exists>N B C. sizes path = [N, B, C])"
    by (auto simp: ndimension_def)
  with False show ?thesis
    by (auto simp: signature_checkargs_def)
next
  case True
  then obtain N B C where s: "sizes path = [N, B, C]"
    unfolding ndimension_def by (rule length_3E)
  note d = sizes_3d [OF s]
  have bp: "(ndimension basepoint_value \<noteq> 2 \<or> size_dim basepoint_value channel_dim \<noteq> C
              \<or> size_dim basepoint_value batch_dim \<noteq> B) \<longleftrightarrow> sizes basepoint_value \<noteq> [B, C]"
    using sizes_2d_iff [of basepoint_value B C] by blast
  have iv: "(ndimension initial_value \<noteq> 2
              \<or> size_dim initial_value channel_dim \<noteq> signature_channels C (nat depth)
              \<or> size_dim initial_value batch_dim \<noteq> B)
            \<longleftrightarrow> sizes initial_value \<noteq> [B, signature_channels C (nat depth)]"
    using sizes_2d_iff [of initial_value B "signature_channels C (nat depth)"] by blast
  have bp': "ndimension basepoint_value = 2 \<and> size_dim basepoint_value channel_dim = C
              \<and> size_dim basepoint_value batch_dim = B \<longleftrightarrow> sizes basepoint_value = [B, C]"
    using bp by auto
  have iv': "ndimension initial_value = 2
              \<and> size_dim initial_value channel_dim = signature_channels C (nat depth)
              \<and> size_dim initial_value batch_dim = B
            \<longleftrightarrow> sizes initial_value = [B, signature_channels C (nat depth)]"
    using iv by auto
  have "signature_checkargs path depth basepoint basepoint_value initial initial_value = None
    \<longleftrightarrow> N \<noteq> 0 \<and> B \<noteq> 0 \<and> C \<noteq> 0
          \<and> (basepoint \<or> N \<noteq> 1) \<and> 1 \<le> depth \<and> is_floating_point path
          \<and> (basepoint \<longrightarrow> sizes basepoint_value = [B, C]
                \<and> dtype basepoint_value = dtype path \<and> device basepoint_value = device path)
          \<and> (initial \<longrightarrow> sizes initial_value = [B, signature_channels C (nat depth)]
                \<and> dtype initial_value = dtype path \<and> device initial_value = device path)"
    unfolding checkargs_None_conds d make_opts_def
    using bp' iv' by auto
  then show ?thesis
    by (simp add: s)
qed

lemma checkargs_error_kind:
  assumes "signature_checkargs path depth basepoint basepoint_value initial initial_value = Some e"
  shows "\<exists>a. e = invalid_argument a"
  using assms unfolding signature_checkargs_def
  by (auto split: if_splits)

lemma signature_forward_rejects:
  assumes "signature_checkargs path depth basepoint basepoint_value initial initial_value = Some e"
  shows "signature_forward env path depth stream basepoint basepoint_value inv_flag initial
           initial_value = Inl e"
  using assms by (simp add: signature_forward_def)

text \<open>
  Claim C8. \<open>signature_checkargs\<close> raises, and what it raises is an argument error, if and
  only if the path does not have three axes, or has an axis of size zero, or has stream
  size 1 while \<open>basepoint\<close> is false, or \<open>depth < 1\<close>, or the path is not of a
  floating-point type, or \<open>basepoint\<close> is set and \<open>basepoint_value\<close> is not of shape
  (B, C) with the element type and device of the path, or \<open>initial\<close> is set and
  \<open>initial_value\<close> is not of shape (B, W(C, depth)) with the element type and device of
  the path. \<open>signature_forward\<close> validates first: whenever the validation raises,
  \<open>signature_forward\<close> ends with that error and returns no signature.
\<close>

theorem signature_checkargs_raises_iff:
  "((\<exists>a. signature_checkargs path depth basepoint basepoint_value initial initial_value
             = Some (invalid_argument a))
     \<longleftrightarrow> ndimension path \<noteq> 3
         \<or> 0 \<in> set (sizes path)
         \<or> (size_dim path stream_dim = 1 \<and> \<not> basepoint)
         \<or> depth < 1
         \<or> \<not> is_floating_point path
         \<or> (basepoint \<and> \<not> (sizes basepoint_value
                                  = [size_dim path batch_dim, size_dim path channel_dim]
                               \<and> dtype basepoint_value = dtype path
                               \<and> device basepoint_value = device path))
         \<or> (initial \<and> \<not> (sizes initial_value
                                = [size_dim path batch_dim,
                                   signature_channels (size_dim path channel_dim) (nat depth)]
                             \<and> dtype initial_value = dtype path
                             \<and> device initial_value = device path)))
   \<and> (\<forall>e. signature_checkargs path depth basepoint basepoint_value initial initial_value = Some e
          \<longrightarrow> (\<exists>a. e = invalid_argument a)
            \<and> signature_forward env path depth stream basepoint basepoint_value inv_flag
                  initial initial_value = Inl e)"
proof -
  let ?chk = "signature_checkargs path depth basepoint basepoint_value initial initial_value"
  have kind: "(\<exists>a. ?chk = Some (invalid_argument a)) \<longleftrightarrow> ?chk \<noteq> None"
    using checkargs_error_kind [of path depth basepoint basepoint_value initial initial_value]
    by (cases ?chk) auto
  have first: "?chk \<noteq> None \<longleftrightarrow> ndimension path \<noteq> 3
         \<or> 0 \<in> set (sizes path)
         \<or> (size_dim path stream_dim = 1 \<and> \<not> basepoint)
         \<or> depth < 1
         \<or> \<not> is_floating_point path
         \<or> (basepoint \<and> \<not> (sizes basepoint_value
                                  = [size_dim path batch_dim, size_dim path channel_dim]
                               \<and> dtype basepoint_value = dtype path
                               \<and> device basepoint_value = device path))
         \<or> (initial \<and> \<not> (sizes initial_value
                                = [size_dim path batch_dim,
                                   signature_channels (size_dim path channel_dim) (nat depth)]
                             \<and> dtype initial_value = dtype path
                             \<and> device initial_value = device path))"
  proof (cases "ndimension path = 3")
    case False
    then have "\<not> (\<exists>N B C. sizes path = [N, B, C])"
      by (auto simp: ndimension_def)
    with False show ?thesis
      by (simp add: checkargs_accepts_iff)
  next
    case True
    then obtain N B C where s: "sizes path = [N, B, C]"
      unfolding ndimension_def by (rule length_3E)
    show ?thesis
      unfolding checkargs_accepts_iff
      by (simp add: s sizes_3d [OF s] not_le) blast
  qed
  show ?thesis
    unfolding kind
    using first checkargs_error_kind signature_forward_rejects
    by blast
qed

theorem signature_checkargs_raises_iff_witness:
  "signature_checkargs
      \<lparr>sizes = [3, 2], dtype = kDouble, device = kCPU, contents = D2 [[0, 0], [1, 0], [1, 1]]\<rparr>
      2 False \<lparr>sizes = [0], dtype = kDouble, device = kCPU, contents = D2 []\<rparr>
      False \<lparr>sizes = [0], dtype = kDouble, device = kCPU, contents = D2 []\<rparr>
     = Some (invalid_argument path_2d_hint)
   \<and> signature_forward \<lparr>omp_max_threads = 1, max_parallelism = 1, team_size = (\<lambda>k. k)\<rparr>
      \<lparr>sizes = [3, 2], dtype = kDouble, device = kCPU, contents = D2 [[0, 0], [1, 0], [1, 1]]\<rparr>
      2 False False \<lparr>sizes = [0], dtype = kDouble, device = kCPU, contents = D2 []\<rparr>
      False False \<lparr>sizes = [0], dtype = kDouble, device = kCPU, contents = D2 []\<rparr>
     = Inl (invalid_argument path_2d_hint)"
proof -
  let ?p = "\<lparr>sizes = [3, 2], dtype = kDouble, device = kCPU,
             contents = D2 [[0, 0], [1, 0], [1, 1]]\<rparr>"
  let ?d = "\<lparr>sizes = [0], dtype = kDouble, device = kCPU, contents = D2 []\<rparr>"
  have c: "signature_checkargs ?p 2 False ?d False ?d = Some (invalid_argument path_2d_hint)"
    by (simp add: signature_checkargs_def ndimension_def)
  from signature_checkargs_raises_iff
    [of ?p 2 False ?d False ?d
        "\<lparr>omp_max_threads = 1, max_parallelism = 1, team_size = (\<lambda>k. k)\<rparr>" False False]
    c
  show ?thesis by blast
qed
section \<open>Words, positions and the product of coefficient functions\<close>

lemma idx_Nil [simp]: "idx C [] = 0"
  by (simp add: idx_def)

lemma idx_snoc [simp]: "idx C (w @ [c]) = idx C w * C + c"
  by (simp add: idx_def)

lemma idx_append: "idx C (u @ v) = idx C u * C ^ length v + idx C v"
proof (induction v rule: rev_induct)
  case Nil
  then show ?case by simp
next
  case (snoc c v)
  have "idx C (u @ v @ [c]) = idx C (u @ v) * C + c"
    using idx_snoc [of C "u @ v" c] by simp
  then show ?case
    by (simp add: snoc algebra_simps)
qed

lemma idx_Cons: "idx C (c # w) = c * C ^ length w + idx C w"
  using idx_append [of C "[c]" w] by (simp add: idx_def)

lemma wordp_Nil [simp]: "wordp C []"
  by (simp add: wordp_def)

lemma wordp_append [simp]: "wordp C (u @ v) \<longleftrightarrow> wordp C u \<and> wordp C v"
  by (simp add: wordp_def)

lemma wordp_Cons [simp]: "wordp C (c # w) \<longleftrightarrow> c < C \<and> wordp C w"
  by (simp add: wordp_def)

lemma wordp_take: "wordp C w \<Longrightarrow> wordp C (take i w)"
  using wordp_append [of C "take i w" "drop i w"] by simp

lemma wordp_drop: "wordp C w \<Longrightarrow> wordp C (drop i w)"
  using wordp_append [of C "take i w" "drop i w"] by simp

lemma idx_less: "wordp C w \<Longrightarrow> idx C w < C ^ length w"
proof (induction w rule: rev_induct)
  case Nil
  then show ?case by simp
next
  case (snoc c w)
  then have "idx C w < C ^ length w" and c: "c < C" by simp_all
  then have "idx C w * C + c < (idx C w + 1) * C" by simp
  also have "\<dots> \<le> C ^ length w * C"
    using \<open>idx C w < C ^ length w\<close> by (intro mult_le_mono1) simp
  finally show ?case by (simp add: mult.commute)
qed

lemma idx_surj:
  assumes "n < C ^ k"
  shows "\<exists>w. length w = k \<and> wordp C w \<and> idx C w = n"
  using assms
proof (induction k arbitrary: n)
  case 0
  then show ?case by (intro exI [of _ "[]"]) simp
next
  case (Suc k)
  then have C: "0 < C" by (cases C) simp_all
  from Suc.prems have "n div C < C ^ k"
    by (simp add: less_mult_imp_div_less mult.commute)
  with Suc.IH obtain w where w: "length w = k" "wordp C w" "idx C w = n div C" by blast
  have "idx C (w @ [n mod C]) = n" by (simp add: w)
  moreover have "wordp C (w @ [n mod C])" using w C by simp
  ultimately show ?case using w(1)
    by (intro exI [of _ "w @ [n mod C]"]) simp
qed

lemma otimes_nth:
  assumes "i < length xs" "j < length ys"
  shows "otimes xs ys ! (i * length ys + j) = xs ! i * ys ! j"
  using assms
proof (induction xs arbitrary: i)
  case Nil
  then show ?case by simp
next
  case (Cons x xs)
  show ?case
  proof (cases i)
    case 0
    with Cons.prems show ?thesis by (simp add: otimes_Cons nth_append)
  next
    case (Suc i')
    with Cons.prems have "i' < length xs" by simp
    from Cons.IH [OF this Cons.prems(2)] Suc show ?thesis
      by (simp add: otimes_Cons nth_append)
  qed
qed

lemma otimes_idx:
  assumes "wordp C u" "wordp C v" "length xs = C ^ length u" "length ys = C ^ length v"
  shows "otimes xs ys ! idx C (u @ v) = xs ! idx C u * ys ! idx C v"
  using otimes_nth [of "idx C u" xs "idx C v" ys] idx_less [OF assms(1)] idx_less [OF assms(2)] assms
  by (simp add: idx_append)

lemma lshape_ext:
  assumes "lshape C D L" "lshape C D L'"
    and "\<And>w. wordp C w \<Longrightarrow> 1 \<le> length w \<Longrightarrow> length w \<le> D \<Longrightarrow> coef C L w = coef C L' w"
  shows "L = L'"
proof (rule nth_equalityI)
  show "length L = length L'" using assms by (simp add: lshape_def)
next
  fix k assume "k < length L"
  then have k: "k < D" using assms by (simp add: lshape_def)
  show "L ! k = L' ! k"
  proof (rule nth_equalityI)
    show "length (L ! k) = length (L' ! k)" using assms k by (simp add: lshape_def)
  next
    fix n assume "n < length (L ! k)"
    then have "n < C ^ Suc k" using assms k by (simp add: lshape_def)
    then obtain w where w: "length w = Suc k" "wordp C w" "idx C w = n"
      using idx_surj by blast
    then have "w \<noteq> []" by auto
    with assms(3) [of w] w k show "L ! k ! n = L' ! k ! n"
      by (simp add: coef_def)
  qed
qed

lemma conv_Nil [simp]: "conv a b [] = a [] * b []"
  by (simp add: conv_def)

lemma conv_unit_right [simp]: "conv a unitw w = a w"
proof -
  have "conv a unitw w = (\<Sum>i\<le>length w. if i = length w then a w else 0)"
    unfolding conv_def by (intro sum.cong) (auto simp: unitw_def)
  then show ?thesis by simp
qed

lemma conv_unit_left [simp]: "conv unitw a w = a w"
proof -
  have "conv unitw a w = (\<Sum>i\<le>length w. if i = 0 then a w else 0)"
    unfolding conv_def by (intro sum.cong) (auto simp: unitw_def)
  then show ?thesis by simp
qed

lemma conv_cong:
  assumes "\<And>i. i \<le> length w \<Longrightarrow> a (take i w) = a' (take i w)"
    and "\<And>i. i \<le> length w \<Longrightarrow> b (drop i w) = b' (drop i w)"
  shows "conv a b w = conv a' b' w"
  unfolding conv_def by (intro sum.cong) (simp_all add: assms)

lemma triangle_swap:
  fixes f :: "nat \<Rightarrow> nat \<Rightarrow> real"
  shows "(\<Sum>i\<le>n. \<Sum>j\<le>i. f j (i - j)) = (\<Sum>j\<le>n. \<Sum>l\<le>n - j. f j l)"
proof (induction n)
  case 0
  then show ?case by simp
next
  case (Suc n)
  have "(\<Sum>j\<le>Suc n. \<Sum>l\<le>Suc n - j. f j l)
      = (\<Sum>j\<le>n. \<Sum>l\<le>Suc n - j. f j l) + f (Suc n) 0"
    by simp
  also have "(\<Sum>j\<le>n. \<Sum>l\<le>Suc n - j. f j l)
      = (\<Sum>j\<le>n. (\<Sum>l\<le>n - j. f j l) + f j (Suc n - j))"
    by (intro sum.cong refl) (simp add: Suc_diff_le)
  also have "\<dots> = (\<Sum>j\<le>n. \<Sum>l\<le>n - j. f j l) + (\<Sum>j\<le>n. f j (Suc n - j))"
    by (simp add: sum.distrib)
  finally show ?case
    by (simp add: Suc)
qed

lemma conv_assoc: "conv (conv a b) c w = conv a (conv b c) w"
proof -
  let ?n = "length w"
  let ?f = "\<lambda>j l. a (take j w) * b (take l (drop j w)) * c (drop (j + l) w)"
  have "conv (conv a b) c w = (\<Sum>i\<le>?n. \<Sum>j\<le>i. ?f j (i - j))"
    unfolding conv_def
  proof (intro sum.cong refl)
    fix i assume "i \<in> {..?n}"
    then have i: "i \<le> ?n" by simp
    have "(\<Sum>j\<le>length (take i w). a (take j (take i w)) * b (drop j (take i w))) * c (drop i w)
        = (\<Sum>j\<le>i. a (take j (take i w)) * b (drop j (take i w)) * c (drop i w))"
      using i by (simp add: sum_distrib_right min_def)
    also have "\<dots> = (\<Sum>j\<le>i. ?f j (i - j))"
      by (intro sum.cong refl) (simp add: min_def drop_take)
    finally show "(\<Sum>j\<le>length (take i w). a (take j (take i w)) * b (drop j (take i w))) * c (drop i w)
        = (\<Sum>j\<le>i. ?f j (i - j))" .
  qed
  also have "\<dots> = (\<Sum>j\<le>?n. \<Sum>l\<le>?n - j. ?f j l)"
    by (rule triangle_swap)
  also have "\<dots> = conv a (conv b c) w"
    unfolding conv_def
    by (intro sum.cong refl) (simp add: sum_distrib_left mult.assoc add.commute)
  finally show ?thesis .
qed

section \<open>The exponential and its inverse\<close>

lemma xprod_Nil [simp]: "xprod x [] = 1"
  by (simp add: xprod_def)

lemma xprod_append: "xprod x (u @ v) = xprod x u * xprod x v"
  by (simp add: xprod_def)

lemma xprod_Cons [simp]: "xprod x (c # w) = x ! c * xprod x w"
  by (simp add: xprod_def)

lemma xprod_snoc [simp]: "xprod x (w @ [c]) = xprod x w * x ! c"
  by (simp add: xprod_def)

lemma xprod_take_drop: "xprod x (take i w) * xprod x (drop i w) = xprod x w"
  using xprod_append [of x "take i w" "drop i w"] by simp

lemma xprod_uminus:
  assumes "wordp (length x) w"
  shows "xprod (map uminus x) w = (- 1) ^ length w * xprod x w"
  using assms by (induction w) simp_all

lemma xprod_zero:
  assumes "wordp (length x) w" "w \<noteq> []" "\<forall>c<length x. x ! c = 0"
  shows "xprod x w = 0"
  using assms by (cases w) simp_all

lemma expw_Nil [simp]: "expw x [] = 1"
  by (simp add: expw_def)

lemma expw_zero:
  assumes "wordp (length x) w" "w \<noteq> []" "\<forall>c<length x. x ! c = 0"
  shows "expw x w = 0"
  using xprod_zero [OF assms] by (simp add: expw_def)

lemma alternating_fact_sum:
  assumes "0 < n"
  shows "(\<Sum>i\<le>n. (- 1) ^ i / (fact i * fact (n - i))) = (0 :: real)"
proof -
  have "(\<Sum>i\<le>n. (- 1) ^ i / (fact i * fact (n - i)))
      = (\<Sum>i\<le>n. ((- 1) ^ i * of_nat (n choose i)) / fact n :: real)"
    by (intro sum.cong refl) (simp add: binomial_fact)
  also have "\<dots> = (\<Sum>i\<le>n. (- 1) ^ i * of_nat (n choose i)) / fact n"
    by (simp add: sum_divide_distrib)
  finally show ?thesis
    using choose_alternating_sum [OF assms, where ?'a = real] by simp
qed

lemma alternating_fact_sum':
  assumes "0 < n"
  shows "(\<Sum>i\<le>n. (- 1) ^ (n - i) / (fact i * fact (n - i))) = (0 :: real)"
proof -
  have "(\<Sum>i\<le>n. (- 1) ^ (n - i) / (fact i * fact (n - i)))
      = (\<Sum>i\<le>n. (- 1) ^ n * ((- 1) ^ i / (fact i * fact (n - i))) :: real)"
  proof (intro sum.cong refl)
    fix i assume "i \<in> {..n}"
    then have "n = (n - i) + i" by simp
    then have e: "(- 1 :: real) ^ n = (- 1) ^ (n - i) * (- 1) ^ i"
      by (metis power_add)
    have "(- 1 :: real) ^ i * (- 1) ^ i = 1"
      by (simp flip: power_mult_distrib)
    then have "(- 1 :: real) ^ n * (- 1) ^ i = (- 1) ^ (n - i)"
      unfolding e by (simp add: mult.assoc)
    then show "(- 1) ^ (n - i) / (fact i * fact (n - i))
        = (- 1) ^ n * ((- 1) ^ i / (fact i * fact (n - i)) :: real)"
      by simp
  qed
  also have "\<dots> = (- 1) ^ n * (\<Sum>i\<le>n. (- 1) ^ i / (fact i * fact (n - i)))"
    by (simp add: sum_distrib_left)
  finally show ?thesis
    by (simp add: alternating_fact_sum [OF assms])
qed

lemma expw_inverse_right:
  assumes "wordp (length x) w"
  shows "conv (expw x) (expw (map uminus x)) w = unitw w"
proof (cases "w = []")
  case True
  then show ?thesis by (simp add: unitw_def)
next
  case False
  let ?n = "length w"
  have "conv (expw x) (expw (map uminus x)) w
      = (\<Sum>i\<le>?n. xprod x w * ((- 1) ^ (?n - i) / (fact i * fact (?n - i))))"
    unfolding conv_def
  proof (intro sum.cong refl)
    fix i assume "i \<in> {..?n}"
    then have i: "i \<le> ?n" by simp
    have "wordp (length x) (drop i w)" using assms by (rule wordp_drop)
    then have "xprod (map uminus x) (drop i w) = (- 1) ^ (?n - i) * xprod x (drop i w)"
      by (simp add: xprod_uminus)
    then have "expw x (take i w) * expw (map uminus x) (drop i w)
        = (xprod x (take i w) * xprod x (drop i w)) * ((- 1) ^ (?n - i) / (fact i * fact (?n - i)))"
      using i by (simp add: expw_def min_def)
    then show "expw x (take i w) * expw (map uminus x) (drop i w)
        = xprod x w * ((- 1) ^ (?n - i) / (fact i * fact (?n - i)))"
      by (simp add: xprod_take_drop)
  qed
  also have "\<dots> = xprod x w * (\<Sum>i\<le>?n. (- 1) ^ (?n - i) / (fact i * fact (?n - i)))"
    by (simp add: sum_distrib_left)
  finally show ?thesis
    using False by (simp add: alternating_fact_sum' unitw_def)
qed

lemma expw_inverse_left:
  assumes "wordp (length x) w"
  shows "conv (expw (map uminus x)) (expw x) w = unitw w"
proof (cases "w = []")
  case True
  then show ?thesis by (simp add: unitw_def)
next
  case False
  let ?n = "length w"
  have "conv (expw (map uminus x)) (expw x) w
      = (\<Sum>i\<le>?n. xprod x w * ((- 1) ^ i / (fact i * fact (?n - i))))"
    unfolding conv_def
  proof (intro sum.cong refl)
    fix i assume "i \<in> {..?n}"
    then have i: "i \<le> ?n" by simp
    have "wordp (length x) (take i w)" using assms by (rule wordp_take)
    then have "xprod (map uminus x) (take i w) = (- 1) ^ i * xprod x (take i w)"
      using i by (simp add: xprod_uminus min_def)
    then have "expw (map uminus x) (take i w) * expw x (drop i w)
        = (xprod x (take i w) * xprod x (drop i w)) * ((- 1) ^ i / (fact i * fact (?n - i)))"
      using i by (simp add: expw_def min_def)
    then show "expw (map uminus x) (take i w) * expw x (drop i w)
        = xprod x w * ((- 1) ^ i / (fact i * fact (?n - i)))"
      by (simp add: xprod_take_drop)
  qed
  also have "\<dots> = xprod x w * (\<Sum>i\<le>?n. (- 1) ^ i / (fact i * fact (?n - i)))"
    by (simp add: sum_distrib_left)
  finally show ?thesis
    using False by (simp add: alternating_fact_sum unitw_def)
qed
section \<open>The fused kernel on one batch element\<close>

lemma horner_right_Nil [simp]: "horner_right a x d [] = a [] / fact (Suc d)"
  by (simp add: horner_right_def)

lemma horner_left_Nil [simp]: "horner_left a x d [] = a [] / fact (Suc d)"
  by (simp add: horner_left_def)

lemma horner_right_snoc:
  "horner_right a x d (u @ [c])
     = horner_right a x d u * x ! c + a (u @ [c]) / fact (d - length u)"
proof -
  have "(\<Sum>i\<le>length u. a (take i (u @ [c])) * xprod x (drop i (u @ [c])) / fact (Suc d - i))
      = (\<Sum>i\<le>length u. a (take i u) * xprod x (drop i u) / fact (Suc d - i) * x ! c)"
    by (intro sum.cong refl) simp
  then show ?thesis
    by (simp add: horner_right_def sum_distrib_right)
qed

lemma horner_left_Cons:
  "horner_left a x d (c # u)
     = x ! c * horner_left a x d u + a (c # u) / fact (d - length u)"
proof -
  have "(\<Sum>i\<le>length u. xprod x (take (Suc i) (c # u)) * a (drop (Suc i) (c # u))
            / fact (Suc d - (length (c # u) - Suc i)))
      = (\<Sum>i\<le>length u. x ! c * (xprod x (take i u) * a (drop i u) / fact (Suc d - (length u - i))))"
    by (intro sum.cong refl) simp
  then show ?thesis
    by (simp add: horner_left_def sum.atMost_Suc_shift sum_distrib_left del: sum.atMost_Suc)
qed

lemma horner_right_full:
  assumes "length w = Suc d"
  shows "horner_right a x d w = conv a (expw x) w"
  unfolding horner_right_def conv_def
  by (intro sum.cong refl) (simp add: expw_def assms)

lemma horner_left_full:
  assumes "length w = Suc d"
  shows "horner_left a x d w = conv (expw x) a w"
  unfolding horner_left_def conv_def
proof (intro sum.cong refl)
  fix i assume "i \<in> {..length w}"
  then have "Suc d - (length w - i) = i" "min (length w) i = i"
    using assms by simp_all
  then show "xprod x (take i w) * a (drop i w) / fact (Suc d - (length w - i))
      = expw x (take i w) * a (drop i w)"
    by (simp add: expw_def)
qed

lemma fact_ratio: "fact m * (y / fact (Suc m)) = (y / (real m + 1) :: real)"
proof -
  have "(fact (Suc m) :: real) = (real m + 1) * fact m" by (simp add: algebra_simps)
  then show ?thesis by simp
qed

lemma fact_ratio_step: "fact (Suc m) * h * (y * (1 / (real m + 1))) = (fact m * (h * y) :: real)"
proof -
  have nz: "real m + 1 \<noteq> 0" by linarith
  have "(fact (Suc m) :: real) = (real m + 1) * fact m" by (simp add: algebra_simps)
  then show ?thesis using nz by (simp add: field_simps)
qed

lemma vadd_nth: "n < length xs \<Longrightarrow> n < length ys \<Longrightarrow> vadd xs ys ! n = xs ! n + ys ! n"
  by (simp add: vadd_def)

lemma vscale_nth: "n < length xs \<Longrightarrow> vscale r xs ! n = xs ! n * r"
  by (simp add: vscale_def)

lemma lshape_level: "lshape C D L \<Longrightarrow> k < D \<Longrightarrow> length (L ! k) = C ^ Suc k"
  by (simp add: lshape_def)

lemma coef_level: "length w = Suc k \<Longrightarrow> coef C L w = L ! k ! idx C w"
  by (auto simp: coef_def)

lemma word_snocE:
  assumes "length w = Suc j" "wordp C w"
  obtains u c where "w = u @ [c]" "length u = j" "wordp C u" "c < C"
  using assms by (cases w rule: rev_cases) auto

lemma word_ConsE:
  assumes "length w = Suc j" "wordp C w"
  obtains u c where "w = c # u" "length u = j" "wordp C u" "c < C"
  using assms by (cases w) auto

lemma idx_single [simp]: "idx C [c] = c"
  by (simp add: idx_def)

text \<open>The scratch of the kernel, without the inverse flag.\<close>

lemma scratch_right:
  assumes A: "lshape C D A" and x: "length x = C"
    and r: "length r = D - 1" "\<forall>i<D - 1. r ! i = 1 / (real i + 2)"
    and d: "d < D" and j: "j < d"
  defines "nd \<equiv> map (\<lambda>q. vscale q x) r"
  defines "S \<equiv> \<lambda>j. fold (\<lambda>j s. vadd (A ! j) (fused_prod_row False s (nd ! (d - 1 - j))))
                        [1..<Suc j] (vadd (A ! 0) (nd ! (d - 1)))"
  shows "length (S j) = C ^ Suc j
       \<and> (\<forall>w. wordp C w \<and> length w = Suc j \<longrightarrow>
             S j ! idx C w = fact (d - j) * horner_right (coef C A) x d w)"
  using j
proof (induction j)
  case 0
  have "d - 1 < D - 1" using d 0 by linarith
  moreover from this have "r ! (d - 1) = 1 / (real (d - 1) + 2)" using r by blast
  moreover have "real (d - 1) + 2 = real d + 1" using 0 by (simp add: of_nat_diff)
  ultimately have nd: "nd ! (d - 1) = vscale (1 / (real d + 1)) x"
    using r by (simp add: nd_def add.commute)
  have S0: "S 0 = vadd (A ! 0) (vscale (1 / (real d + 1)) x)"
    unfolding S_def nd by simp
  have len: "length (S 0) = C ^ Suc 0"
    using lshape_level [OF A, of 0] d x by (simp add: S0)
  have "S 0 ! idx C w = fact d * horner_right (coef C A) x d w"
    if "wordp C w" "length w = Suc 0" for w
  proof -
    from that obtain c where w: "w = [c]" and c: "c < C"
      by (cases w) auto
    have "horner_right (coef C A) x d ([] @ [c])
        = horner_right (coef C A) x d [] * x ! c + coef C A ([] @ [c]) / fact (d - length ([] :: nat list))"
      by (rule horner_right_snoc)
    then have h: "horner_right (coef C A) x d w = x ! c / fact (Suc d) + A ! 0 ! c / fact d"
      by (simp add: w coef_def)
    have "S 0 ! idx C w = A ! 0 ! c + x ! c * (1 / (real d + 1))"
      using c x lshape_level [OF A, of 0] d
      by (simp add: S0 w vadd_nth vscale_nth)
    moreover have "fact d * horner_right (coef C A) x d w
        = fact d * (x ! c / fact (Suc d)) + fact d * (A ! 0 ! c / fact d)"
      unfolding h by (rule distrib_left)
    moreover have "fact d * (x ! c / fact (Suc d)) = x ! c / (real d + 1)"
      by (rule fact_ratio)
    moreover have "fact d * (A ! 0 ! c / fact d) = A ! 0 ! c"
      by simp
    ultimately show ?thesis
      by (simp del: fact_Suc)
  qed
  with len show ?case by simp
next
  case (Suc j)
  then have IH: "length (S j) = C ^ Suc j"
    "\<And>u. wordp C u \<Longrightarrow> length u = Suc j \<Longrightarrow> S j ! idx C u = fact (d - j) * horner_right (coef C A) x d u"
    and jd: "Suc j < d" by simp_all
  obtain m where m: "d - j = Suc m" "d - Suc j = m" "d - 1 - Suc j = m - 1" "1 \<le> m"
    using jd by (cases "d - j") auto
  have "m - 1 < D - 1" using m d jd by linarith
  moreover from this have "r ! (m - 1) = 1 / (real (m - 1) + 2)" using r by blast
  moreover have "real (m - 1) + 2 = real m + 1" using m by (simp add: of_nat_diff)
  ultimately have nd: "nd ! (d - 1 - Suc j) = vscale (1 / (real m + 1)) x"
    using r m by (simp add: nd_def add.commute)
  have "S (Suc j) = vadd (A ! Suc j) (otimes (S j) (nd ! (d - 1 - Suc j)))"
    by (simp add: S_def fused_prod_row_def)
  then have step: "S (Suc j) = vadd (A ! Suc j) (otimes (S j) (vscale (1 / (real m + 1)) x))"
    unfolding nd .
  have lenA: "length (A ! Suc j) = C ^ Suc (Suc j)"
    using lshape_level [OF A, of "Suc j"] jd d by simp
  have len: "length (S (Suc j)) = C ^ Suc (Suc j)"
    by (simp add: step lenA IH(1) x)
  have "S (Suc j) ! idx C w = fact (d - Suc j) * horner_right (coef C A) x d w"
    if "wordp C w" "length w = Suc (Suc j)" for w
  proof -
    from that(2,1) obtain u c where w: "w = u @ [c]" and u: "length u = Suc j" "wordp C u" and c: "c < C"
      by (rule word_snocE)
    have iw: "idx C w < C ^ Suc (Suc j)"
      using idx_less [OF that(1)] that(2) by simp
    have ot: "otimes (S j) (vscale (1 / (real m + 1)) x) ! idx C (u @ [c])
        = S j ! idx C u * vscale (1 / (real m + 1)) x ! idx C [c]"
      using u c x IH(1) by (intro otimes_idx) simp_all
    have lo: "length (otimes (S j) (vscale (1 / (real m + 1)) x)) = C ^ Suc (Suc j)"
      using IH(1) x by (simp add: mult_ac)
    have "S (Suc j) ! idx C w
        = A ! Suc j ! idx C w + otimes (S j) (vscale (1 / (real m + 1)) x) ! idx C w"
      unfolding step using iw lenA lo by (intro vadd_nth) simp_all
    also have "otimes (S j) (vscale (1 / (real m + 1)) x) ! idx C w
        = S j ! idx C u * (x ! c * (1 / (real m + 1)))"
      unfolding w ot using c x by (simp add: vscale_nth)
    finally have "S (Suc j) ! idx C w
        = A ! Suc j ! idx C w + S j ! idx C u * (x ! c * (1 / (real m + 1)))" .
    also have "A ! Suc j ! idx C w = coef C A w"
      using that(2) by (simp add: coef_level)
    also have "S j ! idx C u = fact (d - j) * horner_right (coef C A) x d u"
      using u by (simp add: IH(2))
    finally have "S (Suc j) ! idx C w
        = coef C A w + fact (Suc m) * horner_right (coef C A) x d u * (x ! c * (1 / (real m + 1)))"
      by (simp add: m)
    moreover have "horner_right (coef C A) x d w
        = horner_right (coef C A) x d u * x ! c + coef C A w / fact m"
      using horner_right_snoc [of "coef C A" x d u c] u m by (simp add: w)
    moreover have "fact m * (horner_right (coef C A) x d u * x ! c + coef C A w / fact m)
        = fact m * (horner_right (coef C A) x d u * x ! c) + coef C A w"
      by (simp add: distrib_left)
    moreover have "fact (Suc m) * horner_right (coef C A) x d u * (x ! c * (1 / (real m + 1)))
        = fact m * (horner_right (coef C A) x d u * x ! c)"
      by (rule fact_ratio_step)
    ultimately show ?thesis
      by (simp only: m add.commute)
  qed
  with len show ?case by simp
qed

lemma fact_ratio_step_left: "y * (1 / (real m + 1)) * (fact (Suc m) * h) = (fact m * (y * h) :: real)"
proof -
  have nz: "real m + 1 \<noteq> 0" by linarith
  have "(fact (Suc m) :: real) = (real m + 1) * fact m" by (simp add: algebra_simps)
  then show ?thesis using nz by (simp add: field_simps)
qed

text \<open>The scratch of the kernel, with the inverse flag.\<close>

lemma scratch_left:
  assumes A: "lshape C D A" and x: "length x = C"
    and r: "length r = D - 1" "\<forall>i<D - 1. r ! i = 1 / (real i + 2)"
    and d: "d < D" and j: "j < d"
  defines "nd \<equiv> map (\<lambda>q. vscale q x) r"
  defines "S \<equiv> \<lambda>j. fold (\<lambda>j s. vadd (A ! j) (fused_prod_row True s (nd ! (d - 1 - j))))
                        [1..<Suc j] (vadd (A ! 0) (nd ! (d - 1)))"
  shows "length (S j) = C ^ Suc j
       \<and> (\<forall>w. wordp C w \<and> length w = Suc j \<longrightarrow>
             S j ! idx C w = fact (d - j) * horner_left (coef C A) x d w)"
  using j
proof (induction j)
  case 0
  have "d - 1 < D - 1" using d 0 by linarith
  moreover from this have "r ! (d - 1) = 1 / (real (d - 1) + 2)" using r by blast
  moreover have "real (d - 1) + 2 = real d + 1" using 0 by (simp add: of_nat_diff)
  ultimately have nd: "nd ! (d - 1) = vscale (1 / (real d + 1)) x"
    using r by (simp add: nd_def add.commute)
  have S0: "S 0 = vadd (A ! 0) (vscale (1 / (real d + 1)) x)"
    unfolding S_def nd by simp
  have len: "length (S 0) = C ^ Suc 0"
    using lshape_level [OF A, of 0] d x by (simp add: S0)
  have "S 0 ! idx C w = fact d * horner_left (coef C A) x d w"
    if "wordp C w" "length w = Suc 0" for w
  proof -
    from that obtain c where w: "w = [c]" and c: "c < C"
      by (cases w) auto
    have "horner_left (coef C A) x d (c # [])
        = x ! c * horner_left (coef C A) x d [] + coef C A (c # []) / fact (d - length ([] :: nat list))"
      by (rule horner_left_Cons)
    then have h: "horner_left (coef C A) x d w = x ! c / fact (Suc d) + A ! 0 ! c / fact d"
      by (simp add: w coef_def)
    have "S 0 ! idx C w = A ! 0 ! c + x ! c * (1 / (real d + 1))"
      using c x lshape_level [OF A, of 0] d
      by (simp add: S0 w vadd_nth vscale_nth)
    moreover have "fact d * horner_left (coef C A) x d w
        = fact d * (x ! c / fact (Suc d)) + fact d * (A ! 0 ! c / fact d)"
      unfolding h by (rule distrib_left)
    moreover have "fact d * (x ! c / fact (Suc d)) = x ! c / (real d + 1)"
      by (rule fact_ratio)
    moreover have "fact d * (A ! 0 ! c / fact d) = A ! 0 ! c"
      by simp
    ultimately show ?thesis
      by (simp del: fact_Suc)
  qed
  with len show ?case by simp
next
  case (Suc j)
  then have IH: "length (S j) = C ^ Suc j"
    "\<And>u. wordp C u \<Longrightarrow> length u = Suc j \<Longrightarrow> S j ! idx C u = fact (d - j) * horner_left (coef C A) x d u"
    and jd: "Suc j < d" by simp_all
  obtain m where m: "d - j = Suc m" "d - Suc j = m" "d - 1 - Suc j = m - 1" "1 \<le> m"
    using jd by (cases "d - j") auto
  have "m - 1 < D - 1" using m d jd by linarith
  moreover from this have "r ! (m - 1) = 1 / (real (m - 1) + 2)" using r by blast
  moreover have "real (m - 1) + 2 = real m + 1" using m by (simp add: of_nat_diff)
  ultimately have nd: "nd ! (d - 1 - Suc j) = vscale (1 / (real m + 1)) x"
    using r m by (simp add: nd_def add.commute)
  have "S (Suc j) = vadd (A ! Suc j) (otimes (nd ! (d - 1 - Suc j)) (S j))"
    by (simp add: S_def fused_prod_row_def)
  then have step: "S (Suc j) = vadd (A ! Suc j) (otimes (vscale (1 / (real m + 1)) x) (S j))"
    unfolding nd .
  have lenA: "length (A ! Suc j) = C ^ Suc (Suc j)"
    using lshape_level [OF A, of "Suc j"] jd d by simp
  have len: "length (S (Suc j)) = C ^ Suc (Suc j)"
    by (simp add: step lenA IH(1) x)
  have "S (Suc j) ! idx C w = fact (d - Suc j) * horner_left (coef C A) x d w"
    if "wordp C w" "length w = Suc (Suc j)" for w
  proof -
    from that(2,1) obtain u c where w: "w = c # u" and u: "length u = Suc j" "wordp C u" and c: "c < C"
      by (rule word_ConsE)
    have w': "w = [c] @ u" by (simp add: w)
    have iw: "idx C w < C ^ Suc (Suc j)"
      using idx_less [OF that(1)] that(2) by simp
    have ot: "otimes (vscale (1 / (real m + 1)) x) (S j) ! idx C ([c] @ u)
        = vscale (1 / (real m + 1)) x ! idx C [c] * S j ! idx C u"
      using u c x IH(1) by (intro otimes_idx) simp_all
    have lo: "length (otimes (vscale (1 / (real m + 1)) x) (S j)) = C ^ Suc (Suc j)"
      using IH(1) x by (simp add: mult_ac)
    have "S (Suc j) ! idx C w
        = A ! Suc j ! idx C w + otimes (vscale (1 / (real m + 1)) x) (S j) ! idx C w"
      unfolding step using iw lenA lo by (intro vadd_nth) simp_all
    also have "otimes (vscale (1 / (real m + 1)) x) (S j) ! idx C w
        = x ! c * (1 / (real m + 1)) * S j ! idx C u"
      unfolding w' ot using c x by (simp add: vscale_nth)
    finally have "S (Suc j) ! idx C w
        = A ! Suc j ! idx C w + x ! c * (1 / (real m + 1)) * S j ! idx C u" .
    also have "A ! Suc j ! idx C w = coef C A w"
      using that(2) by (simp add: coef_level)
    also have "S j ! idx C u = fact (d - j) * horner_left (coef C A) x d u"
      using u by (simp add: IH(2))
    finally have "S (Suc j) ! idx C w
        = coef C A w + x ! c * (1 / (real m + 1)) * (fact (Suc m) * horner_left (coef C A) x d u)"
      by (simp add: m)
    moreover have "horner_left (coef C A) x d w
        = x ! c * horner_left (coef C A) x d u + coef C A w / fact m"
      using horner_left_Cons [of "coef C A" x d c u] u m by (simp add: w)
    moreover have "fact m * (x ! c * horner_left (coef C A) x d u + coef C A w / fact m)
        = fact m * (x ! c * horner_left (coef C A) x d u) + coef C A w"
      by (simp add: distrib_left)
    moreover have "x ! c * (1 / (real m + 1)) * (fact (Suc m) * horner_left (coef C A) x d u)
        = fact m * (x ! c * horner_left (coef C A) x d u)"
      by (rule fact_ratio_step_left)
    ultimately show ?thesis
      by (simp only: m add.commute)
  qed
  with len show ?case by simp
qed

lemma fused_scratch_row_cong:
  assumes "\<forall>j<d. prev ! j = prev' ! j" "1 \<le> d"
  shows "fused_scratch_row nd prev inv_flag d = fused_scratch_row nd prev' inv_flag d"
proof -
  have "fold (\<lambda>j s. vadd (prev ! j) (fused_prod_row inv_flag s (nd ! (d - 1 - j)))) [1..<d] s0
      = fold (\<lambda>j s. vadd (prev' ! j) (fused_prod_row inv_flag s (nd ! (d - 1 - j)))) [1..<d] s0" for s0
    using assms by (intro fold_cong) auto
  moreover have "prev ! 0 = prev' ! 0" using assms by simp
  ultimately show ?thesis
    by (simp add: fused_scratch_row_def)
qed

lemma fused_depth_loop_row_length [simp]:
  "length (fused_depth_loop_row k x nd inv_flag prev) = length prev"
  by (induction k arbitrary: prev) simp_all

lemma fused_depth_loop_row_nth:
  "fused_depth_loop_row k x nd inv_flag prev ! d
     = (if 1 \<le> d \<and> d \<le> k \<and> d < length prev
        then vadd (prev ! d) (fused_prod_row inv_flag (fused_scratch_row nd prev inv_flag d) x)
        else prev ! d)"
proof (induction k arbitrary: prev)
  case 0
  then show ?case by auto
next
  case (Suc k)
  let ?v = "vadd (prev ! Suc k) (fused_prod_row inv_flag (fused_scratch_row nd prev inv_flag (Suc k)) x)"
  let ?prev' = "prev[Suc k := ?v]"
  have eq: "fused_depth_loop_row (Suc k) x nd inv_flag prev ! d
      = (if 1 \<le> d \<and> d \<le> k \<and> d < length ?prev'
         then vadd (?prev' ! d) (fused_prod_row inv_flag (fused_scratch_row nd ?prev' inv_flag d) x)
         else ?prev' ! d)"
    using Suc [of ?prev'] by simp
  show ?case
  proof (cases "1 \<le> d \<and> d \<le> k \<and> d < length prev")
    case True
    then have "\<forall>j<d. ?prev' ! j = prev ! j" by simp
    with True have "fused_scratch_row nd ?prev' inv_flag d = fused_scratch_row nd prev inv_flag d"
      by (intro fused_scratch_row_cong) simp_all
    with True show ?thesis
      unfolding eq by simp
  next
    case False
    then show ?thesis
      unfolding eq by (cases "d = Suc k") (auto simp: list_update_beyond)
  qed
qed

lemma single_cpu_length [simp]:
  "length (mult_fused_restricted_exp_single_cpu x A inv_flag r) = length A"
  by (simp add: mult_fused_restricted_exp_single_cpu_def Let_def)

lemma single_cpu_level0:
  assumes "0 < length A"
  shows "mult_fused_restricted_exp_single_cpu x A inv_flag r ! 0 = vadd (A ! 0) x"
  using assms
  by (simp add: mult_fused_restricted_exp_single_cpu_def Let_def fused_depth_loop_row_nth)

lemma single_cpu_level:
  assumes "1 \<le> d" "d < length A"
  shows "mult_fused_restricted_exp_single_cpu x A inv_flag r ! d
     = vadd (A ! d) (fused_prod_row inv_flag
                       (fused_scratch_row (map (\<lambda>q. vscale q x) r) A inv_flag d) x)"
proof -
  from assms have "d \<le> length A - 1" by linarith
  with assms show ?thesis
    by (simp add: mult_fused_restricted_exp_single_cpu_def Let_def fused_depth_loop_row_nth)
qed

lemma scratch_row_facts:
  assumes A: "lshape C D A" and x: "length x = C"
    and r: "length r = D - 1" "\<forall>i<D - 1. r ! i = 1 / (real i + 2)"
    and d: "1 \<le> d" "d < D"
  shows "length (fused_scratch_row (map (\<lambda>q. vscale q x) r) A inv_flag d) = C ^ d"
    and "wordp C u \<Longrightarrow> length u = d \<Longrightarrow>
          fused_scratch_row (map (\<lambda>q. vscale q x) r) A inv_flag d ! idx C u
            = (if inv_flag then horner_left (coef C A) x d u else horner_right (coef C A) x d u)"
proof -
  from d obtain j where j: "d = Suc j" by (cases d) simp_all
  then have jd: "j < d" by simp
  have dj: "d - j = Suc 0" using j by simp
  show "length (fused_scratch_row (map (\<lambda>q. vscale q x) r) A inv_flag d) = C ^ d"
    using scratch_right [OF A x r d(2) jd] scratch_left [OF A x r d(2) jd]
    by (cases inv_flag) (simp_all add: fused_scratch_row_def j)
  show "fused_scratch_row (map (\<lambda>q. vscale q x) r) A inv_flag d ! idx C u
            = (if inv_flag then horner_left (coef C A) x d u else horner_right (coef C A) x d u)"
    if "wordp C u" "length u = d"
    using scratch_right [OF A x r d(2) jd] scratch_left [OF A x r d(2) jd] that
    by (cases inv_flag) (simp_all add: fused_scratch_row_def j)
qed

lemma single_cpu_lshape:
  assumes A: "lshape C D A" and x: "length x = C"
    and r: "length r = D - 1" "\<forall>i<D - 1. r ! i = 1 / (real i + 2)"
  shows "lshape C D (mult_fused_restricted_exp_single_cpu x A inv_flag r)"
  unfolding lshape_def
proof (intro conjI allI impI)
  show "length (mult_fused_restricted_exp_single_cpu x A inv_flag r) = D"
    using A by (simp add: lshape_def)
next
  fix k assume k: "k < D"
  have lenA: "length A = D" using A by (simp add: lshape_def)
  show "length (mult_fused_restricted_exp_single_cpu x A inv_flag r ! k) = C ^ Suc k"
  proof (cases k)
    case 0
    with k lenA lshape_level [OF A, of 0] x show ?thesis
      by (simp add: single_cpu_level0)
  next
    case (Suc j)
    then have d: "1 \<le> k" by simp
    from scratch_row_facts(1) [OF A x r d k, where inv_flag = inv_flag] lshape_level [OF A k] x
      single_cpu_level [of k A x inv_flag r] d k lenA
    show ?thesis
      by (cases inv_flag) (simp_all add: fused_prod_row_def mult.commute)
  qed
qed

lemma coef_Nil [simp]: "coef C L [] = 1"
  by (simp add: coef_def)

lemma single_cpu_coef:
  assumes A: "lshape C D A" and x: "length x = C"
    and r: "length r = D - 1" "\<forall>i<D - 1. r ! i = 1 / (real i + 2)"
    and w: "wordp C w" "1 \<le> length w" "length w \<le> D"
  shows "coef C (mult_fused_restricted_exp_single_cpu x A inv_flag r) w
     = (if inv_flag then conv (expw x) (coef C A) w else conv (coef C A) (expw x) w)"
proof -
  have lenA: "length A = D" using A by (simp add: lshape_def)
  from w obtain d where d: "length w = Suc d" "d < D" by (cases "length w") simp_all
  let ?R = "mult_fused_restricted_exp_single_cpu x A inv_flag r"
  let ?s = "fused_scratch_row (map (\<lambda>q. vscale q x) r) A inv_flag d"
  have cw: "coef C ?R w = ?R ! d ! idx C w"
    using d by (simp add: coef_level)
  have iw: "idx C w < C ^ Suc d"
    using idx_less [OF w(1)] d by simp
  have lA: "length (A ! d) = C ^ Suc d"
    using lshape_level [OF A d(2)] .
  show ?thesis
  proof (cases d)
    case 0
    with d w(1) obtain c where wc: "w = [c]" "c < C" by (cases w) auto
    have "?R ! 0 ! idx C w = A ! 0 ! c + x ! c"
      using lenA d 0 wc x lA by (simp add: single_cpu_level0 vadd_nth)
    moreover have "conv (expw x) (coef C A) w = A ! 0 ! c + x ! c"
      by (simp add: wc conv_def coef_def expw_def)
    moreover have "conv (coef C A) (expw x) w = A ! 0 ! c + x ! c"
      by (simp add: wc conv_def coef_def expw_def)
    ultimately show ?thesis
      using cw 0 by simp
  next
    case (Suc j)
    then have d1: "1 \<le> d" by simp
    have Rd: "?R ! d = vadd (A ! d) (fused_prod_row inv_flag ?s x)"
      using d1 d lenA by (intro single_cpu_level) simp_all
    note sf = scratch_row_facts [OF A x r d1 d(2), where inv_flag = inv_flag]
    show ?thesis
    proof (cases inv_flag)
      case False
      from d(1) w(1) obtain u c where wu: "w = u @ [c]" and u: "length u = d" "wordp C u" and c: "c < C"
        by (rule word_snocE)
      have lo: "length (otimes ?s x) = C ^ Suc d"
        using sf(1) x by (simp add: mult.commute)
      have ot: "otimes ?s x ! idx C (u @ [c]) = ?s ! idx C u * x ! idx C [c]"
        using u c x sf(1) by (intro otimes_idx) simp_all
      have "?R ! d ! idx C w = A ! d ! idx C w + otimes ?s x ! idx C w"
        unfolding Rd using False iw lA lo by (simp add: fused_prod_row_def vadd_nth)
      also have "otimes ?s x ! idx C w = horner_right (coef C A) x d u * x ! c"
        unfolding wu ot using sf(2) [OF u(2,1)] False by simp
      also have "A ! d ! idx C w = coef C A w"
        using d by (simp add: coef_level)
      finally have "?R ! d ! idx C w = horner_right (coef C A) x d w"
        using horner_right_snoc [of "coef C A" x d u c] u by (simp add: wu)
      then show ?thesis
        using cw False d by (simp add: horner_right_full)
    next
      case True
      from d(1) w(1) obtain u c where wu: "w = c # u" and u: "length u = d" "wordp C u" and c: "c < C"
        by (rule word_ConsE)
      have wu': "w = [c] @ u" by (simp add: wu)
      have lo: "length (otimes x ?s) = C ^ Suc d"
        using sf(1) x by simp
      have ot: "otimes x ?s ! idx C ([c] @ u) = x ! idx C [c] * ?s ! idx C u"
        using u c x sf(1) by (intro otimes_idx) simp_all
      have "?R ! d ! idx C w = A ! d ! idx C w + otimes x ?s ! idx C w"
        unfolding Rd using True iw lA lo by (simp add: fused_prod_row_def vadd_nth)
      also have "otimes x ?s ! idx C w = x ! c * horner_left (coef C A) x d u"
        unfolding wu' ot using sf(2) [OF u(2,1)] True by simp
      also have "A ! d ! idx C w = coef C A w"
        using d by (simp add: coef_level)
      finally have "?R ! d ! idx C w = horner_left (coef C A) x d w"
        using horner_left_Cons [of "coef C A" x d c u] u by (simp add: wu)
      then show ?thesis
        using cw True d by (simp add: horner_left_full)
    qed
  qed
qed
section \<open>The batched kernel, batch element by batch element\<close>

lemma length_row_terms [simp]: "length (row_terms b A) = length A"
  by (simp add: row_terms_def)

lemma row_terms_nth [simp]: "k < length A \<Longrightarrow> row_terms b A ! k = A ! k ! b"
  by (simp add: row_terms_def)

lemma row_terms_update: "row_terms b (A[k := T]) = (row_terms b A)[k := T ! b]"
  by (simp add: row_terms_def map_update)

lemma tshape_lshape: "tshape B C D A \<Longrightarrow> b < B \<Longrightarrow> lshape C D (row_terms b A)"
  by (simp add: tshape_def lshape_def shape2_iff)

lemma tshape_level: "tshape B C D A \<Longrightarrow> k < D \<Longrightarrow> shape2 B (C ^ Suc k) (A ! k)"
  by (simp add: tshape_def)

lemma tshape_length: "tshape B C D A \<Longrightarrow> length A = D"
  by (simp add: tshape_def)

lemma tshape_rows: "tshape B C D A \<Longrightarrow> k < D \<Longrightarrow> length (A ! k) = B"
  by (simp add: tshape_def shape2_iff)

lemma tshape_ext:
  assumes "tshape B C D A" "tshape B C D A'"
    and "\<And>b. b < B \<Longrightarrow> row_terms b A = row_terms b A'"
  shows "A = A'"
proof (rule nth_equalityI)
  show "length A = length A'" using assms by (simp add: tshape_def)
next
  fix k assume "k < length A"
  then have k: "k < D" using assms by (simp add: tshape_def)
  show "A ! k = A' ! k"
  proof (rule nth_equalityI)
    show "length (A ! k) = length (A' ! k)"
      using assms k by (simp add: tshape_rows)
  next
    fix b assume "b < length (A ! k)"
    then have b: "b < B" using assms k by (simp add: tshape_rows)
    from assms(3) [OF b] have "row_terms b A ! k = row_terms b A' ! k" by simp
    then show "A ! k ! b = A' ! k ! b"
      using k assms by (simp add: tshape_length)
  qed
qed

lemma tshapeI:
  assumes "length A = D" "\<And>k. k < D \<Longrightarrow> length (A ! k) = B"
    and "\<And>b. b < B \<Longrightarrow> lshape C D (row_terms b A)"
  shows "tshape B C D A"
  unfolding tshape_def shape2_iff
proof (intro conjI allI impI)
  fix k b assume k: "k < D" and b: "b < B"
  from assms(3) [OF b] k assms(1) show "length (A ! k ! b) = C ^ Suc k"
    by (simp add: lshape_def)
qed (use assms in auto)

lemma fold_rows:
  assumes "\<And>j T. j \<in> set js \<Longrightarrow> length T = B \<Longrightarrow>
             length (F j T) = B \<and> (\<forall>b<B. F j T ! b = f b j (T ! b))"
    and "length T0 = B"
  shows "length (fold F js T0) = B \<and> (\<forall>b<B. fold F js T0 ! b = fold (f b) js (T0 ! b))"
  using assms
proof (induction js arbitrary: T0)
  case Nil
  then show ?case by simp
next
  case (Cons j js)
  from Cons.prems(1) [of j T0] Cons.prems(2)
  have h: "length (F j T0) = B" "\<forall>b<B. F j T0 ! b = f b j (T0 ! b)" by simp_all
  have "length (fold F js (F j T0)) = B
      \<and> (\<forall>b<B. fold F js (F j T0) ! b = fold (f b) js (F j T0 ! b))"
    using Cons.prems(1) h(1) by (intro Cons.IH) simp_all
  with h show ?case by simp
qed

lemma length_t_add [simp]: "length (t_add X Y) = min (length X) (length Y)"
  by (simp add: t_add_def)

lemma length_outer [simp]: "length (outer X Y) = min (length X) (length Y)"
  by (simp add: outer_def)

lemma length_t_scale [simp]: "length (t_scale r X) = length X"
  by (simp add: t_scale_def)

lemma fused_prod_rows:
  assumes "length S = B" "length Y = B"
  shows "length (fused_prod inv_flag S Y) = B"
    and "b < B \<Longrightarrow> fused_prod inv_flag S Y ! b = fused_prod_row inv_flag (S ! b) (Y ! b)"
  using assms by (simp_all add: fused_prod_def fused_prod_row_def outer_nth)

lemma fused_scratch_rows:
  assumes prev: "\<forall>j<d. length (prev ! j) = B" and nd: "\<forall>k<d. length (nd ! k) = B"
    and d: "1 \<le> d" "d \<le> length prev" "d \<le> length nd"
  shows "length (fused_scratch nd prev inv_flag d) = B
       \<and> (\<forall>b<B. fused_scratch nd prev inv_flag d ! b
                  = fused_scratch_row (map (\<lambda>T. T ! b) nd) (row_terms b prev) inv_flag d)"
  unfolding fused_scratch_def fused_scratch_row_def
proof -
  let ?F = "\<lambda>j scratch. t_add (prev ! j) (fused_prod inv_flag scratch (nd ! (d - 1 - j)))"
  let ?f = "\<lambda>b j s. vadd (row_terms b prev ! j)
                       (fused_prod_row inv_flag s (map (\<lambda>T. T ! b) nd ! (d - 1 - j)))"
  let ?T0 = "t_add (prev ! 0) (nd ! (d - 1))"
  have T0: "length ?T0 = B" using prev nd d by simp
  have step: "length (?F j T) = B \<and> (\<forall>b<B. ?F j T ! b = ?f b j (T ! b))"
    if "j \<in> set [1..<d]" "length T = B" for j T
  proof -
    from that have j: "1 \<le> j" "j < d" by simp_all
    then have k: "d - 1 - j < d" by simp
    have l1: "length (prev ! j) = B" using prev j by simp
    have l2: "length (nd ! (d - 1 - j)) = B" using nd k by blast
    have l3: "length (fused_prod inv_flag T (nd ! (d - 1 - j))) = B"
      using that(2) l2 by (rule fused_prod_rows)
    have "?F j T ! b = ?f b j (T ! b)" if "b < B" for b
    proof -
      have "?F j T ! b = vadd (prev ! j ! b) (fused_prod inv_flag T (nd ! (d - 1 - j)) ! b)"
        using l1 l3 that by (intro t_add_nth) simp_all
      also have "fused_prod inv_flag T (nd ! (d - 1 - j)) ! b
          = fused_prod_row inv_flag (T ! b) (nd ! (d - 1 - j) ! b)"
        using \<open>length T = B\<close> l2 that by (rule fused_prod_rows)
      moreover have "j < length prev" "d - 1 - j < length nd" using j k d by linarith+
      ultimately show ?thesis
        by simp
    qed
    with l1 l3 show ?thesis by simp
  qed
  have "length (fold ?F [1..<d] ?T0) = B
      \<and> (\<forall>b<B. fold ?F [1..<d] ?T0 ! b = fold (?f b) [1..<d] (?T0 ! b))"
    using step T0 by (rule fold_rows)
  moreover have "?T0 ! b = vadd (row_terms b prev ! 0) (map (\<lambda>T. T ! b) nd ! (d - 1))" if "b < B" for b
  proof -
    have "d - 1 < d" using d by simp
    then have "length (nd ! (d - 1)) = B" using nd by blast
    moreover have "length (prev ! 0) = B" using prev d by simp
    ultimately have "?T0 ! b = vadd (prev ! 0 ! b) (nd ! (d - 1) ! b)"
      using that by (intro t_add_nth) simp_all
    moreover have "0 < length prev" "d - 1 < length nd" using d by linarith+
    ultimately show ?thesis by simp
  qed
  ultimately show "length (fold ?F [1..<d] ?T0) = B
      \<and> (\<forall>b<B. fold ?F [1..<d] ?T0 ! b
                  = fold (\<lambda>j s. vadd (row_terms b prev ! j)
                                   (fused_prod_row inv_flag s (map (\<lambda>T. T ! b) nd ! (d - 1 - j))))
                      [1..<d] (vadd (row_terms b prev ! 0) (map (\<lambda>T. T ! b) nd ! (d - 1))))"
    by simp
qed

lemma fused_depth_loop_length [simp]:
  "length (fused_depth_loop k x nd inv_flag prev) = length prev"
  by (induction k arbitrary: prev) simp_all

lemma fused_depth_loop_rows:
  assumes "k < length prev" "\<forall>j<length prev. length (prev ! j) = B"
    and "\<forall>i<k. length (nd ! i) = B" "k \<le> length nd" "length x = B"
  shows "(\<forall>j<length prev. length (fused_depth_loop k x nd inv_flag prev ! j) = B)
       \<and> (\<forall>b<B. row_terms b (fused_depth_loop k x nd inv_flag prev)
                  = fused_depth_loop_row k (x ! b) (map (\<lambda>T. T ! b) nd) inv_flag (row_terms b prev))"
  using assms
proof (induction k arbitrary: prev)
  case 0
  then show ?case by simp
next
  case (Suc k)
  let ?s = "fused_scratch nd prev inv_flag (Suc k)"
  let ?V = "t_add (prev ! Suc k) (fused_prod inv_flag ?s x)"
  let ?prev' = "prev[Suc k := ?V]"
  have sc: "length ?s = B"
    "\<And>b. b < B \<Longrightarrow> ?s ! b = fused_scratch_row (map (\<lambda>T. T ! b) nd) (row_terms b prev) inv_flag (Suc k)"
    using fused_scratch_rows [of "Suc k" prev B nd inv_flag] Suc.prems by simp_all
  have lp: "length (fused_prod inv_flag ?s x) = B"
    using sc(1) Suc.prems(5) by (rule fused_prod_rows)
  have lV: "length ?V = B"
    using lp Suc.prems by simp
  have Vb: "?V ! b = vadd (row_terms b prev ! Suc k)
                       (fused_prod_row inv_flag
                          (fused_scratch_row (map (\<lambda>T. T ! b) nd) (row_terms b prev) inv_flag (Suc k))
                          (x ! b))" if "b < B" for b
  proof -
    have "?V ! b = vadd (prev ! Suc k ! b) (fused_prod inv_flag ?s x ! b)"
      using lp Suc.prems that by (intro t_add_nth) simp_all
    also have "fused_prod inv_flag ?s x ! b = fused_prod_row inv_flag (?s ! b) (x ! b)"
      using sc(1) Suc.prems(5) that by (rule fused_prod_rows)
    finally show ?thesis
      using sc(2) [OF that] Suc.prems(1) by simp
  qed
  have p': "k < length ?prev'" "\<forall>j<length ?prev'. length (?prev' ! j) = B"
    using Suc.prems lV by (simp_all add: nth_list_update)
  have IH: "(\<forall>j<length ?prev'. length (fused_depth_loop k x nd inv_flag ?prev' ! j) = B)
       \<and> (\<forall>b<B. row_terms b (fused_depth_loop k x nd inv_flag ?prev')
                  = fused_depth_loop_row k (x ! b) (map (\<lambda>T. T ! b) nd) inv_flag (row_terms b ?prev'))"
    using p' Suc.prems by (intro Suc.IH) simp_all
  have "row_terms b ?prev'
      = (row_terms b prev)[Suc k := vadd (row_terms b prev ! Suc k)
           (fused_prod_row inv_flag
              (fused_scratch_row (map (\<lambda>T. T ! b) nd) (row_terms b prev) inv_flag (Suc k))
              (x ! b))]" if "b < B" for b
    using Vb [OF that] by (simp add: row_terms_update)
  with IH show ?case by simp
qed

lemma mult_fused_length [simp]:
  "length (mult_fused_restricted_exp x A inv_flag r) = length A"
  by (simp add: mult_fused_restricted_exp_def Let_def)

lemma mult_fused_rows:
  assumes A: "0 < length A" "\<forall>j<length A. length (A ! j) = B"
    and x: "length x = B" and r: "length A - 1 \<le> length r"
  shows "\<forall>j<length A. length (mult_fused_restricted_exp x A inv_flag r ! j) = B"
    and "b < B \<Longrightarrow> row_terms b (mult_fused_restricted_exp x A inv_flag r)
           = mult_fused_restricted_exp_single_cpu (x ! b) (row_terms b A) inv_flag r"
proof -
  let ?nd = "map (\<lambda>q. t_scale q x) r"
  let ?prev1 = "fused_depth_loop (length A - 1) x ?nd inv_flag A"
  have k: "length A - 1 < length A" using A by simp
  have nd: "\<forall>i<length A - 1. length (?nd ! i) = B" using r x by simp
  have nl: "length A - 1 \<le> length ?nd" using r by simp
  note loop = fused_depth_loop_rows [OF k A(2) nd nl x, of inv_flag]
  have ndb: "map (\<lambda>T. T ! b) ?nd = map (\<lambda>q. vscale q (x ! b)) r" if "b < B" for b
    using that x by (simp add: t_scale_nth)
  show "\<forall>j<length A. length (mult_fused_restricted_exp x A inv_flag r ! j) = B"
    using loop x A by (simp add: mult_fused_restricted_exp_def Let_def nth_list_update)
  show "row_terms b (mult_fused_restricted_exp x A inv_flag r)
           = mult_fused_restricted_exp_single_cpu (x ! b) (row_terms b A) inv_flag r" if "b < B"
  proof -
    have l0: "length (?prev1 ! 0) = B" using loop A by simp
    from loop that have "row_terms b ?prev1
        = fused_depth_loop_row (length A - 1) (x ! b) (map (\<lambda>T. T ! b) ?nd) inv_flag
            (row_terms b A)"
      by blast
    then have rt: "row_terms b ?prev1
        = fused_depth_loop_row (length A - 1) (x ! b) (map (\<lambda>q. vscale q (x ! b)) r) inv_flag
            (row_terms b A)"
      unfolding ndb [OF that] .
    have "t_add (?prev1 ! 0) x ! b = vadd (?prev1 ! 0 ! b) (x ! b)"
      using l0 x that by (intro t_add_nth) simp_all
    also have "?prev1 ! 0 ! b = row_terms b ?prev1 ! 0"
      using A by simp
    finally have "row_terms b (?prev1[0 := t_add (?prev1 ! 0) x])
        = (row_terms b ?prev1)[0 := vadd (row_terms b ?prev1 ! 0) (x ! b)]"
      by (simp only: row_terms_update)
    then show ?thesis
      unfolding rt
      by (simp only: mult_fused_restricted_exp_def mult_fused_restricted_exp_single_cpu_def
          Let_def length_row_terms)
  qed
qed

lemma recips_facts:
  "length (make_reciprocals D) = D - 1" "\<forall>i<D - 1. make_reciprocals D ! i = 1 / (real i + 2)"
  by (simp_all add: make_reciprocals_nth)

text \<open>The batched kernel preserves the layout and acts on each batch element as the row kernel.\<close>

lemma mult_fused_tshape:
  assumes A: "tshape B C D A" and x: "shape2 B C x" and D: "1 \<le> D"
    and r: "length r = D - 1" "\<forall>i<D - 1. r ! i = 1 / (real i + 2)"
  shows "tshape B C D (mult_fused_restricted_exp x A inv_flag r)"
proof (rule tshapeI)
  have lenA: "length A = D" using A by (rule tshape_length)
  have rows: "\<forall>j<length A. length (A ! j) = B" using A lenA by (simp add: tshape_rows)
  have xl: "length x = B" using x by (rule shape2_length)
  have pos: "0 < length A" using lenA D by simp
  have rl: "length A - 1 \<le> length r" using r lenA by simp
  show "length (mult_fused_restricted_exp x A inv_flag r) = D" using lenA by simp
  show "length (mult_fused_restricted_exp x A inv_flag r ! k) = B" if "k < D" for k
    using mult_fused_rows(1) [OF pos rows xl rl, of inv_flag] that lenA by simp
  show "lshape C D (row_terms b (mult_fused_restricted_exp x A inv_flag r))" if "b < B" for b
    unfolding mult_fused_rows(2) [OF pos rows xl rl that]
    using tshape_lshape [OF A that] shape2_row [OF x that] r
    by (intro single_cpu_lshape)
qed

lemma mult_fused_coef:
  assumes A: "tshape B C D A" and x: "shape2 B C x" and D: "1 \<le> D"
    and r: "length r = D - 1" "\<forall>i<D - 1. r ! i = 1 / (real i + 2)"
    and b: "b < B" and w: "wordp C w" "1 \<le> length w" "length w \<le> D"
  shows "coef C (row_terms b (mult_fused_restricted_exp x A inv_flag r)) w
     = (if inv_flag then conv (expw (x ! b)) (coef C (row_terms b A)) w
        else conv (coef C (row_terms b A)) (expw (x ! b)) w)"
proof -
  have lenA: "length A = D" using A by (rule tshape_length)
  have rows: "\<forall>j<length A. length (A ! j) = B" using A lenA by (simp add: tshape_rows)
  have xl: "length x = B" using x by (rule shape2_length)
  have pos: "0 < length A" using lenA D by simp
  have rl: "length A - 1 \<le> length r" using r lenA by simp
  show ?thesis
    unfolding mult_fused_rows(2) [OF pos rows xl rl b]
    using tshape_lshape [OF A b] shape2_row [OF x b] r w
    by (intro single_cpu_coef)
qed
section \<open>The term layout\<close>

lemma width_Suc_shift: "width len C (Suc n) = len + width (len * C) C n"
  by (simp add: width_def sum.lessThan_Suc_shift mult.assoc del: sum.lessThan_Suc)

lemma geometric_nat: "(C - 1) * (\<Sum>k<D. C ^ k) + 1 = (C :: nat) ^ D" if "1 \<le> C"
proof (induction D)
  case 0
  then show ?case by simp
next
  case (Suc D)
  have "(C - 1) * (\<Sum>k<Suc D. C ^ k) + 1 = ((C - 1) * (\<Sum>k<D. C ^ k) + 1) + (C - 1) * C ^ D"
    by (simp add: algebra_simps)
  also have "\<dots> = C ^ D + (C - 1) * C ^ D" unfolding Suc ..
  also have "\<dots> = C * C ^ D" using that by (cases C) simp_all
  finally show ?case by simp
qed

lemma signature_channels_width: "1 \<le> C \<Longrightarrow> signature_channels C D = width C C D"
proof (cases "C = 1")
  case True
  then show ?thesis by (simp add: signature_channels_def width_def)
next
  case False
  assume C: "1 \<le> C"
  with False have C1: "0 < C - 1" by simp
  have "C ^ D - 1 = (C - 1) * (\<Sum>k<D. C ^ k)"
    using geometric_nat [OF C, of D] by simp
  then have "C * (C ^ D - 1) div (C - 1) = C * (\<Sum>k<D. C ^ k)"
    using C1 by (simp add: mult.left_commute)
  then show ?thesis
    using False by (simp add: signature_channels_def width_def sum_distrib_left)
qed

lemma slices_of_concat:
  assumes "length L = n" "\<forall>k<n. length (L ! k) = len * C ^ k" "length pre = pos"
  shows "map (\<lambda>(p, l). take l (drop p (pre @ concat L @ post))) (slice_offsets pos len C n) = L"
  using assms
proof (induction n arbitrary: L len pos pre)
  case 0
  then show ?case by simp
next
  case (Suc n)
  then obtain l0 L' where L: "L = l0 # L'" by (cases L) auto
  with Suc.prems have l0: "length l0 = len" and L': "length L' = n"
    "\<forall>k<n. length (L' ! k) = (len * C) * C ^ k"
    by (auto simp: mult.assoc)
  have "map (\<lambda>(p, l). take l (drop p ((pre @ l0) @ concat L' @ post)))
          (slice_offsets (pos + len) (len * C) C n) = L'"
    using L' l0 Suc.prems(3) by (intro Suc.IH) simp_all
  then show ?case
    using l0 Suc.prems(3) by (simp add: L)
qed

lemma slices_of_row:
  assumes "pos + width len C n \<le> length r"
  shows "concat (map (\<lambda>(p, l). take l (drop p r)) (slice_offsets pos len C n))
           = take (width len C n) (drop pos r)
       \<and> (\<forall>k<n. length (map (\<lambda>(p, l). take l (drop p r)) (slice_offsets pos len C n) ! k)
                   = len * C ^ k)"
  using assms
proof (induction n arbitrary: len pos)
  case 0
  then show ?case by (simp add: width_def)
next
  case (Suc n)
  let ?rest = "map (\<lambda>(p, l). take l (drop p r)) (slice_offsets (pos + len) (len * C) C n)"
  from Suc.prems have le: "(pos + len) + width (len * C) C n \<le> length r"
    by (simp add: width_Suc_shift)
  from Suc.IH [OF le]
  have IH: "concat ?rest = take (width (len * C) C n) (drop (pos + len) r)"
    "\<forall>k<n. length (?rest ! k) = len * C * C ^ k" by simp_all
  have l0: "length (take len (drop pos r)) = len"
    using le by simp
  have "take (width len C (Suc n)) (drop pos r)
      = take len (drop pos r) @ take (width (len * C) C n) (drop len (drop pos r))"
    unfolding width_Suc_shift by (simp add: take_add)
  then have c: "concat (map (\<lambda>(p, l). take l (drop p r)) (slice_offsets pos len C (Suc n)))
      = take (width len C (Suc n)) (drop pos r)"
    using IH(1) by (simp add: add.commute)
  have "length (map (\<lambda>(p, l). take l (drop p r)) (slice_offsets pos len C (Suc n)) ! k) = len * C ^ k"
    if "k < Suc n" for k
    using that l0 IH(2) by (cases k) (simp_all add: mult.assoc)
  with c show ?case by blast
qed

lemma length_slice_offsets [simp]: "length (slice_offsets pos len C n) = n"
  by (induction n arbitrary: pos len) simp_all

lemma length_slice_row [simp]: "length (slice_row r C D) = D"
  by (simp add: slice_row_def)

lemma lshape_width: "lshape C D L \<Longrightarrow> length (concat L) = width C C D"
proof (induction D arbitrary: L)
  case 0
  then show ?case by (simp add: lshape_def width_def)
next
  case (Suc D)
  then have len: "length L = Suc D" by (simp add: lshape_def)
  then have L: "L = butlast L @ [last L]" by (cases L rule: rev_cases) auto
  have "lshape C D (butlast L)"
    using Suc.prems len by (auto simp: lshape_def nth_butlast)
  then have "length (concat (butlast L)) = width C C D" by (rule Suc.IH)
  moreover have "L \<noteq> []" using len by auto
  then have "last L = L ! D" using len by (simp add: last_conv_nth)
  then have "length (last L) = C ^ Suc D"
    using Suc.prems by (simp add: lshape_def)
  moreover have "concat L = concat (butlast L) @ last L"
    by (subst L) simp
  ultimately show ?case
    by (simp add: width_def)
qed

lemma slice_row_write_row:
  assumes "lshape C D L"
  shows "slice_row (write_row L r) C D = L"
proof -
  have "\<forall>k<D. length (L ! k) = C * C ^ k" using assms by (simp add: lshape_def)
  moreover have "length L = D" using assms by (simp add: lshape_def)
  ultimately have "map (\<lambda>(p, l). take l (drop p ([] @ concat L @ drop (length (concat L)) r)))
      (slice_offsets 0 C C D) = L"
    by (intro slices_of_concat) simp_all
  then show ?thesis
    by (simp add: slice_row_def write_row_def)
qed

lemma slice_row_facts:
  assumes "width C C D \<le> length r"
  shows "lshape C D (slice_row r C D)" and "write_row (slice_row r C D) r = r"
proof -
  from assms have "0 + width C C D \<le> length r" by simp
  from slices_of_row [OF this]
  have c: "concat (slice_row r C D) = take (width C C D) r"
    and l: "\<forall>k<D. length (slice_row r C D ! k) = C * C ^ k"
    by (simp_all add: slice_row_def)
  from l show "lshape C D (slice_row r C D)" by (simp add: lshape_def)
  show "write_row (slice_row r C D) r = r"
    using assms by (simp add: write_row_def c)
qed

lemma length_write_row:
  assumes "lshape C D L" "length r = width C C D"
  shows "length (write_row L r) = width C C D"
  using lshape_width [OF assms(1)] assms(2) by (simp add: write_row_def)

lemma row_terms_slice_by_term:
  "b < length T \<Longrightarrow> row_terms b (slice_by_term T C D) = slice_row (T ! b) C D"
  by (simp add: row_terms_def slice_by_term_def slice_row_def narrow_channel_def split_def)

lemma length_slice_by_term [simp]: "length (slice_by_term T C D) = D"
  by (simp add: slice_by_term_def)

lemma slice_by_term_rows: "k < D \<Longrightarrow> length (slice_by_term T C D ! k) = length T"
  by (simp add: slice_by_term_def narrow_channel_def split_def)

lemma length_write_terms [simp]: "length (write_terms L T) = length T"
  by (simp add: write_terms_def)

lemma write_terms_nth: "b < length T \<Longrightarrow> write_terms L T ! b = write_row (row_terms b L) (T ! b)"
  by (simp add: write_terms_def)

lemma tshape_slice_by_term:
  assumes "shape2 B (width C C D) T"
  shows "tshape B C D (slice_by_term T C D)"
proof (rule tshapeI)
  show "length (slice_by_term T C D) = D" by simp
  show "length (slice_by_term T C D ! k) = B" if "k < D" for k
    using that assms by (simp add: slice_by_term_rows shape2_length)
  show "lshape C D (row_terms b (slice_by_term T C D))" if "b < B" for b
    using that assms by (simp add: row_terms_slice_by_term shape2_iff slice_row_facts)
qed

lemma write_terms_slice_by_term:
  assumes "shape2 B (width C C D) T"
  shows "write_terms (slice_by_term T C D) T = T"
proof (rule nth_equalityI)
  show "length (write_terms (slice_by_term T C D) T) = length T" by simp
next
  fix b assume "b < length (write_terms (slice_by_term T C D) T)"
  then have b: "b < length T" by simp
  with assms have "width C C D \<le> length (T ! b)" by (simp add: shape2_iff)
  then show "write_terms (slice_by_term T C D) T ! b = T ! b"
    using b by (simp add: write_terms_nth row_terms_slice_by_term slice_row_facts)
qed

lemma slice_by_term_write_terms:
  assumes "tshape B C D L" "length T = B"
  shows "slice_by_term (write_terms L T) C D = L"
proof (rule tshape_ext [where B = B and C = C and D = D])
  show "tshape B C D L" by fact
  have rows: "row_terms b (slice_by_term (write_terms L T) C D) = row_terms b L" if "b < B" for b
    using that assms
    by (simp add: row_terms_slice_by_term write_terms_nth slice_row_write_row tshape_lshape)
  show "tshape B C D (slice_by_term (write_terms L T) C D)"
  proof (rule tshapeI)
    show "length (slice_by_term (write_terms L T) C D) = D" by simp
    show "length (slice_by_term (write_terms L T) C D ! k) = B" if "k < D" for k
      using that assms by (simp add: slice_by_term_rows)
    show "lshape C D (row_terms b (slice_by_term (write_terms L T) C D))" if "b < B" for b
      using rows [OF that] tshape_lshape [OF assms(1) that] by simp
  qed
  show "\<And>b. b < B \<Longrightarrow> row_terms b (slice_by_term (write_terms L T) C D) = row_terms b L"
    by (rule rows)
qed

lemma shape2_write_terms:
  assumes "tshape B C D L" "shape2 B (width C C D) T"
  shows "shape2 B (width C C D) (write_terms L T)"
  unfolding shape2_iff
proof (intro conjI allI impI)
  show "length (write_terms L T) = B" using assms by (simp add: shape2_length)
  fix b assume b: "b < B"
  then show "length (write_terms L T ! b) = width C C D"
    using assms
    by (simp add: write_terms_nth shape2_iff length_write_row [OF tshape_lshape])
qed
section \<open>The fused kernel undone by the negated increment\<close>

lemma conv_one_Nil: "a [] = 1 \<Longrightarrow> b [] = 1 \<Longrightarrow> conv a b [] = 1"
  by simp

lemma mult_fused_coef_all:
  assumes A: "tshape B C D A" and x: "shape2 B C x" and D: "1 \<le> D"
    and r: "length r = D - 1" "\<forall>i<D - 1. r ! i = 1 / (real i + 2)"
    and b: "b < B" and w: "wordp C w" "length w \<le> D"
  shows "coef C (row_terms b (mult_fused_restricted_exp x A inv_flag r)) w
     = (if inv_flag then conv (expw (x ! b)) (coef C (row_terms b A)) w
        else conv (coef C (row_terms b A)) (expw (x ! b)) w)"
proof (cases "w = []")
  case True
  then show ?thesis by simp
next
  case False
  then have "1 \<le> length w" by (cases w) simp_all
  from mult_fused_coef [OF A x D r b w(1) this w(2)] show ?thesis .
qed

lemma t_neg_nth: "b < length x \<Longrightarrow> t_neg x ! b = map uminus (x ! b)"
  by (simp add: t_neg_def)

lemma fused_round_trip_rows:
  assumes A: "tshape B C D A" and x: "shape2 B C x" and D: "1 \<le> D"
    and r: "length r = D - 1" "\<forall>i<D - 1. r ! i = 1 / (real i + 2)"
    and b: "b < B" and w: "wordp C w" "length w \<le> D"
  shows "coef C (row_terms b (mult_fused_restricted_exp (t_neg x)
                                (mult_fused_restricted_exp x A inv_flag r) inv_flag r)) w
       = coef C (row_terms b A) w"
proof -
  let ?R1 = "mult_fused_restricted_exp x A inv_flag r"
  let ?a = "coef C (row_terms b A)"
  let ?xb = "x ! b"
  have R1: "tshape B C D ?R1" using A x D r by (rule mult_fused_tshape)
  have nx: "shape2 B C (t_neg x)" using x by (rule shape2_t_neg)
  have nxb: "t_neg x ! b = map uminus ?xb" using b x by (simp add: t_neg_nth shape2_length)
  have lx: "length ?xb = C" using x b by (rule shape2_row)
  have sub1: "coef C (row_terms b ?R1) v
      = (if inv_flag then conv (expw ?xb) ?a v else conv ?a (expw ?xb) v)"
    if "wordp C v" "length v \<le> D" for v
    using A x D r b that by (rule mult_fused_coef_all)
  have tk: "wordp C (take i w)" "length (take i w) \<le> D" "wordp C (drop i w)" for i
    using w by (simp_all add: wordp_take wordp_drop)
  have sub1': "coef C (row_terms b ?R1) (take i w)
      = (if inv_flag then conv (expw ?xb) ?a (take i w) else conv ?a (expw ?xb) (take i w))"
    "coef C (row_terms b ?R1) (drop i w)
      = (if inv_flag then conv (expw ?xb) ?a (drop i w) else conv ?a (expw ?xb) (drop i w))" for i
    using sub1 [of "take i w"] sub1 [of "drop i w"] w
    by (simp_all add: wordp_take wordp_drop)
  have inv_r: "conv (expw ?xb) (expw (map uminus ?xb)) (drop i w) = unitw (drop i w)" for i
    using tk(3) [of i] lx by (intro expw_inverse_right) simp
  have inv_l: "conv (expw (map uminus ?xb)) (expw ?xb) (take i w) = unitw (take i w)" for i
    using tk(1) [of i] lx by (intro expw_inverse_left) simp
  show ?thesis
  proof (cases inv_flag)
    case False
    have "coef C (row_terms b (mult_fused_restricted_exp (t_neg x) ?R1 inv_flag r)) w
        = conv (coef C (row_terms b ?R1)) (expw (map uminus ?xb)) w"
      using mult_fused_coef_all [OF R1 nx D r b w, of inv_flag] False by (simp add: nxb)
    also have "\<dots> = conv (conv ?a (expw ?xb)) (expw (map uminus ?xb)) w"
      using sub1' False by (intro conv_cong) simp_all
    also have "\<dots> = conv ?a (conv (expw ?xb) (expw (map uminus ?xb))) w"
      by (rule conv_assoc)
    also have "\<dots> = conv ?a unitw w"
      using inv_r by (intro conv_cong) simp_all
    finally show ?thesis by simp
  next
    case True
    have "coef C (row_terms b (mult_fused_restricted_exp (t_neg x) ?R1 inv_flag r)) w
        = conv (expw (map uminus ?xb)) (coef C (row_terms b ?R1)) w"
      using mult_fused_coef_all [OF R1 nx D r b w, of inv_flag] True by (simp add: nxb)
    also have "\<dots> = conv (expw (map uminus ?xb)) (conv (expw ?xb) ?a) w"
      using sub1' True by (intro conv_cong) simp_all
    also have "\<dots> = conv (conv (expw (map uminus ?xb)) (expw ?xb)) ?a w"
      by (rule conv_assoc [symmetric])
    also have "\<dots> = conv unitw ?a w"
      using inv_l by (intro conv_cong) simp_all
    finally show ?thesis by simp
  qed
qed

lemma tshape_coef_ext:
  assumes "tshape B C D A" "tshape B C D A'"
    and "\<And>b w. b < B \<Longrightarrow> wordp C w \<Longrightarrow> 1 \<le> length w \<Longrightarrow> length w \<le> D
           \<Longrightarrow> coef C (row_terms b A) w = coef C (row_terms b A') w"
  shows "A = A'"
  using assms(1,2)
proof (rule tshape_ext)
  fix b assume b: "b < B"
  show "row_terms b A = row_terms b A'"
    using tshape_lshape [OF assms(1) b] tshape_lshape [OF assms(2) b] assms(3) [OF b]
    by (rule lshape_ext)
qed

lemma fused_round_trip:
  assumes A: "tshape B C D A" and x: "shape2 B C x" and D: "1 \<le> D"
  shows "mult_fused_restricted_exp (t_neg x)
           (mult_fused_restricted_exp x A inv_flag (make_reciprocals D)) inv_flag
           (make_reciprocals D) = A"
proof (rule tshape_coef_ext [where B = B and C = C and D = D])
  note r = recips_facts [of D]
  have R1: "tshape B C D (mult_fused_restricted_exp x A inv_flag (make_reciprocals D))"
    using A x D r by (rule mult_fused_tshape)
  show "tshape B C D (mult_fused_restricted_exp (t_neg x)
           (mult_fused_restricted_exp x A inv_flag (make_reciprocals D)) inv_flag
           (make_reciprocals D))"
    using R1 shape2_t_neg [OF x] D r by (rule mult_fused_tshape)
  show "tshape B C D A" by fact
  show "coef C (row_terms b (mult_fused_restricted_exp (t_neg x)
           (mult_fused_restricted_exp x A inv_flag (make_reciprocals D)) inv_flag
           (make_reciprocals D))) w = coef C (row_terms b A) w"
    if "b < B" "wordp C w" "1 \<le> length w" "length w \<le> D" for b w
    using A x D r that(1,2,4) by (rule fused_round_trip_rows)
qed

text \<open>
  Claim C4. For every element \<open>A\<close> of the truncated tensor algebra (terms of shape
  (B, C^k), \<open>k = 1 .. D\<close>), every increment \<open>x\<close> of shape (B, C) and either value of the
  inverse flag, \<open>mult_fused_restricted_exp\<close> with \<open>next = x\<close> followed by
  \<open>mult_fused_restricted_exp\<close> with \<open>next = -x\<close> gives \<open>A\<close> back; on a buffer \<open>T\<close> of
  shape (B, W(C, D)) whose views are the terms, the two calls leave the buffer as it
  was. This is the step of the backward pass for \<open>stream = false\<close>: from the signature
  after the increment \<open>x\<close> it recovers the signature before it.
\<close>

theorem mult_fused_restricted_exp_round_trip:
  assumes "tshape B C D A" and "shape2 B C x" and "1 \<le> D" and "1 \<le> C"
    and "shape2 B (signature_channels C D) T"
  shows "mult_fused_restricted_exp (t_neg x)
           (mult_fused_restricted_exp x A inv_flag (make_reciprocals D)) inv_flag
           (make_reciprocals D) = A
       \<and> write_terms
           (mult_fused_restricted_exp (t_neg x)
              (mult_fused_restricted_exp x (slice_by_term T C D) inv_flag (make_reciprocals D))
              inv_flag (make_reciprocals D)) T = T"
proof -
  have T: "shape2 B (width C C D) T"
    using assms(4,5) by (simp add: signature_channels_width)
  have "tshape B C D (slice_by_term T C D)"
    using T by (rule tshape_slice_by_term)
  from fused_round_trip [OF this assms(2,3), of inv_flag] fused_round_trip [OF assms(1,2,3), of inv_flag]
    write_terms_slice_by_term [OF T]
  show ?thesis by simp
qed

theorem mult_fused_restricted_exp_round_trip_witness:
  "mult_fused_restricted_exp (t_neg [[1, 1]])
     (mult_fused_restricted_exp [[1, 1]] [[[1, 2]], [[3, 4, 5, 6]]] True (make_reciprocals 2))
     True (make_reciprocals 2) = [[[1, 2]], [[3, 4, 5, 6]]]"
proof -
  have a: "tshape 1 2 2 [[[1, 2]], [[3, 4, 5, 6]]]"
    by (auto simp: tshape_def shape2_def less_Suc_eq numeral_2_eq_2)
  have x: "shape2 1 2 [[1, 1]]" by (simp add: shape2_def)
  have t: "shape2 1 (signature_channels 2 2) [[1, 2, 3, 4, 5, 6]]"
    by (simp add: shape2_def signature_channels_def)
  from mult_fused_restricted_exp_round_trip [OF a x _ _ t, of True] show ?thesis by simp
qed
section \<open>Coefficients of the restricted exponential and of the product\<close>

lemma tpow_row:
  assumes x: "shape2 B C x" and b: "b < B"
  shows "wordp C w \<Longrightarrow> length w = Suc k \<Longrightarrow> tpow x k ! b ! idx C w = xprod (x ! b) w"
proof (induction k arbitrary: w)
  case 0
  then obtain c where "w = [c]" by (cases w) auto
  then show ?case by simp
next
  case (Suc k)
  from Suc.prems(2,1) obtain u c where w: "w = u @ [c]" and u: "length u = Suc k" "wordp C u"
    and c: "c < C" by (rule word_snocE)
  have lt: "length (tpow x k) = B" "length (tpow x k ! b) = C ^ Suc k"
    using shape2_tpow [OF x, of k] b by (simp_all add: shape2_iff)
  have lx: "length x = B" "length (x ! b) = C"
    using x b by (simp_all add: shape2_iff)
  have "tpow x (Suc k) ! b = otimes (tpow x k ! b) (x ! b)"
    using lt lx b by (simp add: outer_nth)
  moreover have "otimes (tpow x k ! b) (x ! b) ! idx C (u @ [c])
      = tpow x k ! b ! idx C u * (x ! b) ! idx C [c]"
    using u c lt lx by (intro otimes_idx) simp_all
  ultimately show ?case
    using Suc.IH [OF u(2,1)] by (simp add: w)
qed

lemma restricted_exp_tshape:
  assumes x: "shape2 B C x" and D: "1 \<le> D" and out: "length out = D"
    and r: "length r = D - 1" "\<forall>i<D - 1. r ! i = 1 / (real i + 2)"
  shows "tshape B C D (restricted_exp x out r)"
  unfolding tshape_def
proof (intro conjI allI impI)
  have pos: "0 < length out" using D out by simp
  show "length (restricted_exp x out r) = D"
    using restricted_exp_rec(1) [OF pos] out by simp
  fix k assume "k < D"
  then have k: "k < length out" using out by simp
  have r': "\<forall>i<length out - 1. r ! i = 1 / (real i + 2)" using r out by simp
  show "shape2 B (C ^ Suc k) (restricted_exp x out r ! k)"
    unfolding restricted_exp_closed [OF k r']
    using shape2_tpow [OF x] by (rule shape2_t_scale)
qed

lemma restricted_exp_coef:
  assumes x: "shape2 B C x" and D: "1 \<le> D" and out: "length out = D"
    and r: "length r = D - 1" "\<forall>i<D - 1. r ! i = 1 / (real i + 2)"
    and b: "b < B" and w: "wordp C w" "length w \<le> D"
  shows "coef C (row_terms b (restricted_exp x out r)) w = expw (x ! b) w"
proof (cases "w = []")
  case True
  then show ?thesis by simp
next
  case False
  then obtain k where k: "length w = Suc k" by (cases w) auto
  with w have kD: "k < length out" using out by simp
  have r': "\<forall>i<length out - 1. r ! i = 1 / (real i + 2)" using r out by simp
  have len: "length (restricted_exp x out r) = D"
    using restricted_exp_rec(1) [of out x r] kD out by simp
  have lt: "length (tpow x k) = B" "length (tpow x k ! b) = C ^ Suc k"
    using shape2_tpow [OF x, of k] b by (simp_all add: shape2_iff)
  have iw: "idx C w < C ^ Suc k" using idx_less [OF w(1)] k by simp
  have "coef C (row_terms b (restricted_exp x out r)) w = restricted_exp x out r ! k ! b ! idx C w"
    using k kD out len by (simp add: coef_level)
  also have "\<dots> = vscale (1 / fact (Suc k)) (tpow x k ! b) ! idx C w"
    unfolding restricted_exp_closed [OF kD r'] using lt b by (simp add: t_scale_nth)
  also have "\<dots> = tpow x k ! b ! idx C w * (1 / fact (Suc k))"
    using lt iw by (intro vscale_nth) simp
  also have "tpow x k ! b ! idx C w = xprod (x ! b) w"
    using x b w(1) k by (rule tpow_row)
  finally show ?thesis
    by (simp add: expw_def k)
qed

text \<open>The product \<open>mult\<close>.\<close>

lemma mult_inner_cong:
  assumes "\<forall>j<d. A1 ! j = A1' ! j"
  shows "mult_inner T A1 A2 d = mult_inner T A1' A2 d"
  unfolding mult_inner_def using assms by (intro fold_cong) auto

lemma mult_loop_length [simp]: "length (mult_loop n A1 A2) = length A1"
  by (induction n arbitrary: A1) simp_all

lemma mult_loop_nth:
  "mult_loop n A1 A2 ! d
     = (if d < n \<and> d < length A1 then t_add (mult_inner (A1 ! d) A1 A2 d) (A2 ! d) else A1 ! d)"
proof (induction n arbitrary: A1)
  case 0
  then show ?case by simp
next
  case (Suc n)
  let ?V = "t_add (mult_inner (A1 ! n) A1 A2 n) (A2 ! n)"
  let ?A' = "A1[n := ?V]"
  have eq: "mult_loop (Suc n) A1 A2 ! d
      = (if d < n \<and> d < length ?A' then t_add (mult_inner (?A' ! d) ?A' A2 d) (A2 ! d) else ?A' ! d)"
    using Suc [of ?A'] by simp
  show ?case
  proof (cases "d < n \<and> d < length A1")
    case True
    then have "\<forall>j<d. ?A' ! j = A1 ! j" by simp
    then have "mult_inner (A1 ! d) ?A' A2 d = mult_inner (A1 ! d) A1 A2 d"
      by (rule mult_inner_cong)
    with True show ?thesis unfolding eq by simp
  next
    case False
    then show ?thesis
      unfolding eq by (cases "d = n") (auto simp: list_update_beyond)
  qed
qed

lemma length_mult [simp]: "length (mult A1 A2) = length A1"
  by (simp add: mult_def)

lemma mult_nth:
  "d < length A1 \<Longrightarrow> mult A1 A2 ! d = t_add (mult_inner (A1 ! d) A1 A2 d) (A2 ! d)"
  by (simp add: mult_def mult_loop_nth)

lemma fold_t_add_entries:
  assumes T: "shape2 B m T" and G: "\<forall>j<d. shape2 B m (G j)"
  shows "shape2 B m (fold (\<lambda>j t. t_add t (G j)) [0..<d] T)
       \<and> (\<forall>b<B. \<forall>n<m. fold (\<lambda>j t. t_add t (G j)) [0..<d] T ! b ! n
                           = T ! b ! n + (\<Sum>j<d. G j ! b ! n))"
  using G
proof (induction d)
  case 0
  with T show ?case by simp
next
  case (Suc d)
  let ?F = "fold (\<lambda>j t. t_add t (G j)) [0..<d] T"
  from Suc have IH: "shape2 B m ?F"
    "\<And>b n. b < B \<Longrightarrow> n < m \<Longrightarrow> ?F ! b ! n = T ! b ! n + (\<Sum>j<d. G j ! b ! n)"
    and Gd: "shape2 B m (G d)"
    by simp_all
  have step: "fold (\<lambda>j t. t_add t (G j)) [0..<Suc d] T = t_add ?F (G d)"
    by simp
  have "t_add ?F (G d) ! b ! n = T ! b ! n + (\<Sum>j<Suc d. G j ! b ! n)" if "b < B" "n < m" for b n
  proof -
    have "t_add ?F (G d) ! b = vadd (?F ! b) (G d ! b)"
      using IH(1) Gd that by (intro t_add_nth) (simp_all add: shape2_iff)
    moreover have "vadd (?F ! b) (G d ! b) ! n = ?F ! b ! n + G d ! b ! n"
      using IH(1) Gd that by (intro vadd_nth) (simp_all add: shape2_iff)
    ultimately show ?thesis
      using IH(2) [OF that] by simp
  qed
  moreover have "shape2 B m (t_add ?F (G d))"
    using IH(1) Gd by (rule shape2_t_add)
  ultimately show ?case
    unfolding step by blast
qed

lemma mult_level:
  assumes A1: "tshape B C D A1" and A2: "tshape B C D A2" and d: "d < D"
  shows "shape2 B (C ^ Suc d) (mult A1 A2 ! d)"
    and "b < B \<Longrightarrow> n < C ^ Suc d \<Longrightarrow>
           mult A1 A2 ! d ! b ! n
             = A1 ! d ! b ! n
               + (\<Sum>j<d. otimes (A1 ! j ! b) (A2 ! (d - 1 - j) ! b) ! n)
               + A2 ! d ! b ! n"
proof -
  let ?G = "\<lambda>j. outer (A1 ! j) (A2 ! (d - 1 - j))"
  have G: "\<forall>j<d. shape2 B (C ^ Suc d) (?G j)"
  proof (intro allI impI)
    fix j assume j: "j < d"
    then have "Suc j + Suc (d - 1 - j) = Suc d" by simp
    then have e: "C ^ Suc j * C ^ Suc (d - 1 - j) = C ^ Suc d"
      by (metis power_add)
    have "shape2 B (C ^ Suc j * C ^ Suc (d - 1 - j)) (?G j)"
      using tshape_level [OF A1, of j] tshape_level [OF A2, of "d - 1 - j"] j d
      by (intro shape2_outer) simp_all
    then show "shape2 B (C ^ Suc d) (?G j)" unfolding e .
  qed
  have T: "shape2 B (C ^ Suc d) (A1 ! d)" using A1 d by (rule tshape_level)
  have T2: "shape2 B (C ^ Suc d) (A2 ! d)" using A2 d by (rule tshape_level)
  note inner = fold_t_add_entries [OF T G]
  have m: "mult A1 A2 ! d = t_add (mult_inner (A1 ! d) A1 A2 d) (A2 ! d)"
    using d A1 by (simp add: mult_nth tshape_length)
  have mi: "mult_inner (A1 ! d) A1 A2 d = fold (\<lambda>j t. t_add t (?G j)) [0..<d] (A1 ! d)"
    by (simp add: mult_inner_def)
  show "shape2 B (C ^ Suc d) (mult A1 A2 ! d)"
    unfolding m mi using inner T2 by (intro shape2_t_add) simp_all
  show "mult A1 A2 ! d ! b ! n
             = A1 ! d ! b ! n
               + (\<Sum>j<d. otimes (A1 ! j ! b) (A2 ! (d - 1 - j) ! b) ! n)
               + A2 ! d ! b ! n" if "b < B" "n < C ^ Suc d"
  proof -
    let ?M = "fold (\<lambda>j t. t_add t (?G j)) [0..<d] (A1 ! d)"
    have sM: "shape2 B (C ^ Suc d) ?M" using inner by simp
    have "t_add ?M (A2 ! d) ! b = vadd (?M ! b) (A2 ! d ! b)"
      using sM T2 that by (intro t_add_nth) (simp_all add: shape2_iff)
    moreover have "vadd (?M ! b) (A2 ! d ! b) ! n = ?M ! b ! n + A2 ! d ! b ! n"
      using sM T2 that by (intro vadd_nth) (simp_all add: shape2_iff)
    moreover have "?M ! b ! n = A1 ! d ! b ! n + (\<Sum>j<d. ?G j ! b ! n)"
      using inner that by blast
    moreover have "(\<Sum>j<d. ?G j ! b ! n) = (\<Sum>j<d. otimes (A1 ! j ! b) (A2 ! (d - 1 - j) ! b) ! n)"
    proof (intro sum.cong refl)
      fix j assume "j \<in> {..<d}"
      then have j: "j < d" by simp
      have "length (A1 ! j) = B" "length (A2 ! (d - 1 - j)) = B"
        using tshape_rows [OF A1, of j] tshape_rows [OF A2, of "d - 1 - j"] j d by simp_all
      then show "?G j ! b ! n = otimes (A1 ! j ! b) (A2 ! (d - 1 - j) ! b) ! n"
        using that by (simp add: outer_nth)
    qed
    ultimately show ?thesis
      unfolding m mi by simp
  qed
qed

lemma mult_tshape:
  assumes "tshape B C D A1" "tshape B C D A2"
  shows "tshape B C D (mult A1 A2)"
  unfolding tshape_def
  using mult_level(1) [OF assms] assms(1) by (simp add: tshape_length)

lemma sum_split_ends:
  fixes f :: "nat \<Rightarrow> real"
  shows "(\<Sum>i\<le>Suc d. f i) = f 0 + (\<Sum>j<d. f (Suc j)) + f (Suc d)"
proof -
  have "(\<Sum>i\<le>Suc d. f i) = f 0 + (\<Sum>i\<le>d. f (Suc i))"
    by (rule sum.atMost_Suc_shift)
  also have "(\<Sum>i\<le>d. f (Suc i)) = (\<Sum>i<Suc d. f (Suc i))"
    by (simp add: lessThan_Suc_atMost)
  finally show ?thesis by simp
qed

lemma mult_coef:
  assumes A1: "tshape B C D A1" and A2: "tshape B C D A2"
    and b: "b < B" and w: "wordp C w" "length w \<le> D"
  shows "coef C (row_terms b (mult A1 A2)) w
     = conv (coef C (row_terms b A1)) (coef C (row_terms b A2)) w"
proof (cases "w = []")
  case True
  then show ?thesis by simp
next
  case False
  then obtain d where d: "length w = Suc d" by (cases w) auto
  with w have dD: "d < D" by simp
  let ?a1 = "coef C (row_terms b A1)" and ?a2 = "coef C (row_terms b A2)"
  have l1: "length A1 = D" and l2: "length A2 = D"
    using A1 A2 by (simp_all add: tshape_length)
  have iw: "idx C w < C ^ Suc d" using idx_less [OF w(1)] d by simp
  have "coef C (row_terms b (mult A1 A2)) w = mult A1 A2 ! d ! b ! idx C w"
    using d dD l1 by (simp add: coef_level)
  also have "\<dots> = A1 ! d ! b ! idx C w
               + (\<Sum>j<d. otimes (A1 ! j ! b) (A2 ! (d - 1 - j) ! b) ! idx C w)
               + A2 ! d ! b ! idx C w"
    using A1 A2 dD b iw by (rule mult_level(2))
  also have "A1 ! d ! b ! idx C w = ?a1 w"
    using d dD l1 by (simp add: coef_level)
  also have "A2 ! d ! b ! idx C w = ?a2 w"
    using d dD l2 by (simp add: coef_level)
  also have "(\<Sum>j<d. otimes (A1 ! j ! b) (A2 ! (d - 1 - j) ! b) ! idx C w)
      = (\<Sum>j<d. ?a1 (take (Suc j) w) * ?a2 (drop (Suc j) w))"
  proof (intro sum.cong refl)
    fix j assume "j \<in> {..<d}"
    then have j: "j < d" by simp
    let ?u = "take (Suc j) w" and ?v = "drop (Suc j) w"
    have lu: "length ?u = Suc j" and lv: "length ?v = Suc (d - 1 - j)"
      using j d by simp_all
    have wu: "wordp C ?u" and wv: "wordp C ?v"
      using w(1) by (simp_all add: wordp_take wordp_drop)
    have s1: "length (A1 ! j ! b) = C ^ length ?u"
      using tshape_level [OF A1, of j] j dD b lu by (simp add: shape2_iff)
    have s2: "length (A2 ! (d - 1 - j) ! b) = C ^ length ?v"
      using tshape_level [OF A2, of "d - 1 - j"] j dD b lv by (simp add: shape2_iff)
    have "otimes (A1 ! j ! b) (A2 ! (d - 1 - j) ! b) ! idx C (?u @ ?v)
        = A1 ! j ! b ! idx C ?u * A2 ! (d - 1 - j) ! b ! idx C ?v"
      using wu wv s1 s2 by (rule otimes_idx)
    moreover have "?a1 ?u = A1 ! j ! b ! idx C ?u"
      using lu j dD l1 by (simp add: coef_level)
    moreover have "?a2 ?v = A2 ! (d - 1 - j) ! b ! idx C ?v"
      using lv j dD l2 by (simp add: coef_level)
    ultimately show "otimes (A1 ! j ! b) (A2 ! (d - 1 - j) ! b) ! idx C w = ?a1 ?u * ?a2 ?v"
      by simp
  qed
  finally have "coef C (row_terms b (mult A1 A2)) w
      = ?a1 w + (\<Sum>j<d. ?a1 (take (Suc j) w) * ?a2 (drop (Suc j) w)) + ?a2 w" .
  moreover have "conv ?a1 ?a2 w
      = ?a2 w + (\<Sum>j<d. ?a1 (take (Suc j) w) * ?a2 (drop (Suc j) w)) + ?a1 w"
    unfolding conv_def d
    using sum_split_ends [of "\<lambda>i. ?a1 (take i w) * ?a2 (drop i w)" d] d
    by simp
  ultimately show ?thesis by simp
qed

section \<open>The drivers\<close>

subsection \<open>Products of exponentials\<close>

lemma weq_refl [simp]: "weq C D a a"
  by (simp add: weq_def)

lemma weq_sym: "weq C D a a' \<Longrightarrow> weq C D a' a"
  by (simp add: weq_def)

lemma weq_trans: "weq C D a a' \<Longrightarrow> weq C D a' a'' \<Longrightarrow> weq C D a a''"
  by (simp add: weq_def)

lemma weqD: "weq C D a a' \<Longrightarrow> wordp C w \<Longrightarrow> length w \<le> D \<Longrightarrow> a w = a' w"
  by (simp add: weq_def)

lemma conv_weq:
  assumes "weq C D a a'" "weq C D b b'"
  shows "weq C D (conv a b) (conv a' b')"
  unfolding weq_def
proof (intro allI impI)
  fix w assume w: "wordp C w \<and> length w \<le> D"
  show "conv a b w = conv a' b' w"
  proof (rule conv_cong)
    fix i
    show "a (take i w) = a' (take i w)"
      using assms(1) w by (intro weqD [where C = C and D = D]) (auto simp: wordp_take)
    show "b (drop i w) = b' (drop i w)"
      using assms(2) w by (intro weqD [where C = C and D = D]) (auto simp: wordp_drop)
  qed
qed

lemma conv_assoc_fun: "conv (conv a b) c = conv a (conv b c)"
  by (rule ext) (rule conv_assoc)

lemma conv_unit_right_fun [simp]: "conv a unitw = a"
  by (rule ext) simp

lemma conv_unit_left_fun [simp]: "conv unitw a = a"
  by (rule ext) simp

lemma sig_fold_Nil [simp]: "sig_fold inv_flag a [] = a"
  by (simp add: sig_fold_def)

lemma sig_fold_Cons:
  "sig_fold inv_flag a (x # xs)
     = sig_fold inv_flag (if inv_flag then conv (expw x) a else conv a (expw x)) xs"
  by (simp add: sig_fold_def)

lemma sig_fold_snoc:
  "sig_fold inv_flag a (xs @ [x])
     = (if inv_flag then conv (expw x) (sig_fold inv_flag a xs)
        else conv (sig_fold inv_flag a xs) (expw x))"
  by (simp add: sig_fold_def)

lemma sig_fold_append:
  "sig_fold inv_flag a (xs @ ys) = sig_fold inv_flag (sig_fold inv_flag a xs) ys"
  by (simp add: sig_fold_def)

lemma sig_fold_weq:
  assumes "weq C D a a'"
  shows "weq C D (sig_fold inv_flag a xs) (sig_fold inv_flag a' xs)"
  using assms
proof (induction xs arbitrary: a a')
  case Nil
  then show ?case by simp
next
  case (Cons x xs)
  have "weq C D (if inv_flag then conv (expw x) a else conv a (expw x))
                (if inv_flag then conv (expw x) a' else conv a' (expw x))"
    using Cons.prems by (simp add: conv_weq)
  then show ?case
    unfolding sig_fold_Cons by (rule Cons.IH)
qed

lemma sig_fold_right: "sig_fold False a xs = conv a (sig_fold False unitw xs)"
proof (induction xs rule: rev_induct)
  case Nil
  then show ?case by simp
next
  case (snoc x xs)
  have "sig_fold False a (xs @ [x]) = conv (conv a (sig_fold False unitw xs)) (expw x)"
    by (simp add: sig_fold_snoc snoc)
  then show ?case
    by (simp add: sig_fold_snoc conv_assoc_fun)
qed

lemma sig_fold_left: "sig_fold True a xs = conv (sig_fold True unitw xs) a"
proof (induction xs rule: rev_induct)
  case Nil
  then show ?case by simp
next
  case (snoc x xs)
  have "sig_fold True a (xs @ [x]) = conv (expw x) (conv (sig_fold True unitw xs) a)"
    by (simp add: sig_fold_snoc snoc)
  then show ?case
    by (simp add: sig_fold_snoc conv_assoc_fun)
qed

lemma expw_zero_weq:
  assumes "\<forall>c<length z. z ! c = 0"
  shows "weq (length z) D (expw z) unitw"
  unfolding weq_def
proof (intro allI impI)
  fix w assume w: "wordp (length z) w \<and> length w \<le> D"
  show "expw z w = unitw w"
  proof (cases "w = []")
    case True
    then show ?thesis by (simp add: unitw_def)
  next
    case False
    with w assms show ?thesis by (simp add: expw_zero unitw_def)
  qed
qed

text \<open>Buffers of shape (B, W) and the coefficient functions of their rows.\<close>

lemma buffer_ext:
  assumes T: "shape2 B (width C C D) T" and T': "shape2 B (width C C D) T'"
    and eq: "\<And>b. b < B \<Longrightarrow> weq C D (row_coef C D T b) (row_coef C D T' b)"
  shows "T = T'"
proof (rule nth_equalityI)
  show "length T = length T'" using T T' by (simp add: shape2_length)
next
  fix b assume "b < length T"
  then have b: "b < B" using T by (simp add: shape2_length)
  have l: "width C C D \<le> length (T ! b)" "width C C D \<le> length (T' ! b)"
    using T T' b by (simp_all add: shape2_iff)
  have "slice_row (T ! b) C D = slice_row (T' ! b) C D"
  proof (rule lshape_ext)
    show "lshape C D (slice_row (T ! b) C D)" "lshape C D (slice_row (T' ! b) C D)"
      using l by (simp_all add: slice_row_facts)
    fix w assume "wordp C w" "1 \<le> length w" "length w \<le> D"
    with eq [OF b] show "coef C (slice_row (T ! b) C D) w = coef C (slice_row (T' ! b) C D) w"
      by (simp add: weq_def row_coef_def)
  qed
  then have "write_row (slice_row (T ! b) C D) (T ! b) = write_row (slice_row (T' ! b) C D) (T ! b)"
    by simp
  also have "\<dots> = concat (slice_row (T' ! b) C D)"
    using lshape_width [OF slice_row_facts(1) [OF l(2)]] T b
    by (simp add: write_row_def shape2_iff)
  also have "\<dots> = write_row (slice_row (T' ! b) C D) (T' ! b)"
    using lshape_width [OF slice_row_facts(1) [OF l(2)]] T' b
    by (simp add: write_row_def shape2_iff)
  finally show "T ! b = T' ! b"
    using l by (simp add: slice_row_facts)
qed

lemma row_coef_write_terms:
  assumes "tshape B C D L" "length T = B" "b < B"
  shows "row_coef C D (write_terms L T) b = coef C (row_terms b L)"
  using assms
  by (simp add: row_coef_def write_terms_nth slice_row_write_row tshape_lshape)

lemma row_coef_slice:
  assumes "b < length T"
  shows "coef C (row_terms b (slice_by_term T C D)) = row_coef C D T b"
  using assms by (simp add: row_coef_def row_terms_slice_by_term)

lemma fused_buffer:
  fixes inv_flag :: bool
  assumes T: "shape2 B (width C C D) T" and x: "shape2 B C x" and D: "1 \<le> D"
    and r: "length r = D - 1" "\<forall>i<D - 1. r ! i = 1 / (real i + 2)"
  defines "T' \<equiv> write_terms (mult_fused_restricted_exp x (slice_by_term T C D) inv_flag r) T"
  shows "shape2 B (width C C D) T'"
    and "b < B \<Longrightarrow> weq C D (row_coef C D T' b)
           (if inv_flag then conv (expw (x ! b)) (row_coef C D T b)
            else conv (row_coef C D T b) (expw (x ! b)))"
proof -
  let ?A = "slice_by_term T C D"
  have A: "tshape B C D ?A" using T by (rule tshape_slice_by_term)
  have R: "tshape B C D (mult_fused_restricted_exp x ?A inv_flag r)"
    using A x D r by (rule mult_fused_tshape)
  show "shape2 B (width C C D) T'"
    unfolding T'_def using R T by (rule shape2_write_terms)
  show "weq C D (row_coef C D T' b)
           (if inv_flag then conv (expw (x ! b)) (row_coef C D T b)
            else conv (row_coef C D T b) (expw (x ! b)))" if b: "b < B"
    unfolding weq_def
  proof (intro allI impI)
    fix w assume w: "wordp C w \<and> length w \<le> D"
    have lT: "length T = B" using T by (rule shape2_length)
    have "row_coef C D T' b = coef C (row_terms b (mult_fused_restricted_exp x ?A inv_flag r))"
      unfolding T'_def using R lT b by (rule row_coef_write_terms)
    moreover have "coef C (row_terms b ?A) = row_coef C D T b"
      using b lT by (intro row_coef_slice) simp
    ultimately show "row_coef C D T' b w
        = (if inv_flag then conv (expw (x ! b)) (row_coef C D T b)
           else conv (row_coef C D T b) (expw (x ! b))) w"
      using mult_fused_coef_all [OF A x D r b, of w inv_flag] w by simp
  qed
qed

lemma restricted_exp_buffer:
  assumes T: "shape2 B (width C C D) T" and x: "shape2 B C x" and D: "1 \<le> D"
    and r: "length r = D - 1" "\<forall>i<D - 1. r ! i = 1 / (real i + 2)"
  defines "T' \<equiv> write_terms (restricted_exp x (slice_by_term T C D) r) T"
  shows "shape2 B (width C C D) T'"
    and "b < B \<Longrightarrow> weq C D (row_coef C D T' b) (expw (x ! b))"
proof -
  let ?A = "slice_by_term T C D"
  have lA: "length ?A = D" by simp
  have R: "tshape B C D (restricted_exp x ?A r)"
    using x D lA r by (rule restricted_exp_tshape)
  show "shape2 B (width C C D) T'"
    unfolding T'_def using R T by (rule shape2_write_terms)
  show "weq C D (row_coef C D T' b) (expw (x ! b))" if b: "b < B"
    unfolding weq_def
  proof (intro allI impI)
    fix w assume w: "wordp C w \<and> length w \<le> D"
    have lT: "length T = B" using T by (rule shape2_length)
    have "row_coef C D T' b = coef C (row_terms b (restricted_exp x ?A r))"
      unfolding T'_def using R lT b by (rule row_coef_write_terms)
    then show "row_coef C D T' b w = expw (x ! b) w"
      using restricted_exp_coef [OF x D lA r b, of w] w by simp
  qed
qed

lemma mult_buffer:
  assumes T: "shape2 B (width C C D) T" and A2: "tshape B C D A2"
  defines "T' \<equiv> write_terms (mult (slice_by_term T C D) A2) T"
  shows "shape2 B (width C C D) T'"
    and "b < B \<Longrightarrow> weq C D (row_coef C D T' b)
           (conv (row_coef C D T b) (coef C (row_terms b A2)))"
proof -
  let ?A = "slice_by_term T C D"
  have A: "tshape B C D ?A" using T by (rule tshape_slice_by_term)
  have R: "tshape B C D (mult ?A A2)" using A A2 by (rule mult_tshape)
  show "shape2 B (width C C D) T'"
    unfolding T'_def using R T by (rule shape2_write_terms)
  show "weq C D (row_coef C D T' b) (conv (row_coef C D T b) (coef C (row_terms b A2)))"
    if b: "b < B"
    unfolding weq_def
  proof (intro allI impI)
    fix w assume w: "wordp C w \<and> length w \<le> D"
    have lT: "length T = B" using T by (rule shape2_length)
    have "row_coef C D T' b = coef C (row_terms b (mult ?A A2))"
      unfolding T'_def using R lT b by (rule row_coef_write_terms)
    moreover have "coef C (row_terms b ?A) = row_coef C D T b"
      using b lT by (intro row_coef_slice) simp
    ultimately show "row_coef C D T' b w = conv (row_coef C D T b) (coef C (row_terms b A2)) w"
      using mult_coef [OF A A2 b, of w] w by simp
  qed
qed


subsection \<open>The serial loop\<close>

lemma fold_update_rows:
  "length (fold (\<lambda>b T. T[b := f b (T ! b)]) [0..<n] T) = length T
   \<and> (\<forall>b<length T. fold (\<lambda>b T. T[b := f b (T ! b)]) [0..<n] T ! b
            = (if b < n then f b (T ! b) else T ! b))"
proof (induction n)
  case 0
  then show ?case by simp
next
  case (Suc n)
  let ?F = "fold (\<lambda>b T. T[b := f b (T ! b)]) [0..<n] T"
  from Suc have IH: "length ?F = length T"
    "\<And>b. b < length T \<Longrightarrow> ?F ! b = (if b < n then f b (T ! b) else T ! b)" by simp_all
  have step: "fold (\<lambda>b T. T[b := f b (T ! b)]) [0..<Suc n] T = ?F[n := f n (?F ! n)]"
    by simp
  show ?case
    unfolding step using IH
    by (auto simp: nth_list_update less_Suc_eq)
qed

lemma cpu_batch_loop_eq:
  assumes T: "shape2 B (width C C D) T" and x: "shape2 B C x" and D: "1 \<le> D"
    and r: "D - 1 \<le> length r"
  shows "cpu_batch_loop x r inv_flag B C D T
       = write_terms (mult_fused_restricted_exp x (slice_by_term T C D) inv_flag r) T"
proof (rule nth_equalityI)
  let ?f = "\<lambda>b row. write_row (mult_fused_restricted_exp_single_cpu (x ! b)
                                  (slice_row row C D) inv_flag r) row"
  have lT: "length T = B" using T by (rule shape2_length)
  have lx: "length x = B" using x by (rule shape2_length)
  note fu = fold_update_rows [of ?f B T]
  have eq: "cpu_batch_loop x r inv_flag B C D T = fold (\<lambda>b T. T[b := ?f b (T ! b)]) [0..<B] T"
    by (simp add: cpu_batch_loop_def)
  show "length (cpu_batch_loop x r inv_flag B C D T)
      = length (write_terms (mult_fused_restricted_exp x (slice_by_term T C D) inv_flag r) T)"
    unfolding eq using fu by simp
  fix b assume "b < length (cpu_batch_loop x r inv_flag B C D T)"
  then have b: "b < B" unfolding eq using fu lT by simp
  let ?A = "slice_by_term T C D"
  have pos: "0 < length ?A" using D by simp
  have rows: "\<forall>j<length ?A. length (?A ! j) = B" using lT by (simp add: slice_by_term_rows)
  have rl: "length ?A - 1 \<le> length r" using r by simp
  have "row_terms b (mult_fused_restricted_exp x ?A inv_flag r)
      = mult_fused_restricted_exp_single_cpu (x ! b) (row_terms b ?A) inv_flag r"
    using pos rows lx rl b by (rule mult_fused_rows(2))
  also have "row_terms b ?A = slice_row (T ! b) C D"
    using b lT by (intro row_terms_slice_by_term) simp
  finally have "write_terms (mult_fused_restricted_exp x ?A inv_flag r) T ! b = ?f b (T ! b)"
    using b lT by (simp add: write_terms_nth)
  moreover have "cpu_batch_loop x r inv_flag B C D T ! b = ?f b (T ! b)"
    unfolding eq using fu b lT by simp
  ultimately show "cpu_batch_loop x r inv_flag B C D T ! b
      = write_terms (mult_fused_restricted_exp x ?A inv_flag r) T ! b"
    by simp
qed

lemma slice_at_stream_slice_by_term3:
  "si < length S \<Longrightarrow> slice_at_stream (slice_by_term3 S C D) si = slice_by_term (S ! si) C D"
  by (simp add: slice_at_stream_def slice_by_term3_def slice_by_term_def split_def)

lemma inner_step_D2:
  "signature_forward_inner_step incs r inv_flag C D si (D2 T) = D2 (sig_step incs r inv_flag C D si T)"
  by (simp add: signature_forward_inner_step_def sig_step_def)

lemma inner_step_D3:
  assumes "si < length S"
  shows "signature_forward_inner_step incs r inv_flag C D si (D3 S)
       = D3 (S[si := sig_step incs r inv_flag C D si (S ! (si - 1))])"
  using assms
  by (simp add: signature_forward_inner_step_def sig_step_def Let_def
      slice_at_stream_slice_by_term3)

lemma cpu_step_D2:
  assumes "shape2 B (width C C D) T" "shape2 B C (incs ! si)" "1 \<le> D" "D - 1 \<le> length r"
  shows "signature_forward_inner_cpu_step incs r inv_flag B C D si (D2 T)
       = D2 (sig_step incs r inv_flag C D si T)"
  using cpu_batch_loop_eq [OF assms, where inv_flag = inv_flag]
  by (simp add: signature_forward_inner_cpu_step_def sig_step_def)

lemma cpu_step_D3:
  assumes "si < length S" "shape2 B (width C C D) (S ! (si - 1))" "shape2 B C (incs ! si)"
    "1 \<le> D" "D - 1 \<le> length r"
  shows "signature_forward_inner_cpu_step incs r inv_flag B C D si (D3 S)
       = D3 (S[si := sig_step incs r inv_flag C D si (S ! (si - 1))])"
  using cpu_batch_loop_eq [OF assms(2-5), where inv_flag = inv_flag] assms(1)
  by (simp add: signature_forward_inner_cpu_step_def sig_step_def Let_def)

lemma sig_step_facts:
  assumes T: "shape2 B (width C C D) T" and x: "shape2 B C (incs ! si)" and D: "1 \<le> D"
    and r: "length r = D - 1" "\<forall>i<D - 1. r ! i = 1 / (real i + 2)"
  shows "shape2 B (width C C D) (sig_step incs r inv_flag C D si T)"
    and "b < B \<Longrightarrow> weq C D (row_coef C D (sig_step incs r inv_flag C D si T) b)
           (sig_fold inv_flag (row_coef C D T b) [incs ! si ! b])"
  using fused_buffer [OF T x D r, where inv_flag = inv_flag]
  by (simp_all add: sig_step_def sig_fold_def)

lemma fold_sig_steps:
  assumes T: "shape2 B (width C C D) T" and x: "\<forall>si\<in>set sis. shape2 B C (incs ! si)"
    and D: "1 \<le> D" and r: "length r = D - 1" "\<forall>i<D - 1. r ! i = 1 / (real i + 2)"
  shows "shape2 B (width C C D) (fold (sig_step incs r inv_flag C D) sis T)
       \<and> (\<forall>b<B. weq C D (row_coef C D (fold (sig_step incs r inv_flag C D) sis T) b)
                    (sig_fold inv_flag (row_coef C D T b) (map (\<lambda>si. incs ! si ! b) sis)))"
  using T x
proof (induction sis arbitrary: T)
  case Nil
  then show ?case by simp
next
  case (Cons si sis)
  let ?T1 = "sig_step incs r inv_flag C D si T"
  have x1: "shape2 B C (incs ! si)" using Cons.prems by simp
  note st = sig_step_facts [OF Cons.prems(1) x1 D r, where inv_flag = inv_flag]
  have IH: "shape2 B (width C C D) (fold (sig_step incs r inv_flag C D) sis ?T1)"
    "\<And>b. b < B \<Longrightarrow> weq C D (row_coef C D (fold (sig_step incs r inv_flag C D) sis ?T1) b)
                    (sig_fold inv_flag (row_coef C D ?T1 b) (map (\<lambda>si. incs ! si ! b) sis))"
    using Cons.IH [OF st(1)] Cons.prems(2) by simp_all
  have "weq C D (row_coef C D (fold (sig_step incs r inv_flag C D) (si # sis) T) b)
          (sig_fold inv_flag (row_coef C D T b) (map (\<lambda>si. incs ! si ! b) (si # sis)))"
    if b: "b < B" for b
  proof -
    have "weq C D (sig_fold inv_flag (row_coef C D ?T1 b) (map (\<lambda>si. incs ! si ! b) sis))
        (sig_fold inv_flag (sig_fold inv_flag (row_coef C D T b) [incs ! si ! b])
           (map (\<lambda>si. incs ! si ! b) sis))"
      using st(2) [OF b] by (rule sig_fold_weq)
    with IH(2) [OF b] have "weq C D (row_coef C D (fold (sig_step incs r inv_flag C D) sis ?T1) b)
        (sig_fold inv_flag (sig_fold inv_flag (row_coef C D T b) [incs ! si ! b])
           (map (\<lambda>si. incs ! si ! b) sis))"
      by (rule weq_trans)
    then show ?thesis
      by (simp flip: sig_fold_append)
  qed
  with IH(1) show ?case by simp
qed

text \<open>The serial drivers on a buffer of shape (B, W): both run \<open>sig_step\<close> along the stream.\<close>

lemma inner_D2:
  "signature_forward_inner incs r inv_flag S C D (D2 T)
     = D2 (fold (sig_step incs r inv_flag C D) [1..<S] T)"
proof -
  have "fold (signature_forward_inner_step incs r inv_flag C D) sis (D2 T)
      = D2 (fold (sig_step incs r inv_flag C D) sis T)" for sis
    by (induction sis arbitrary: T) (simp_all add: inner_step_D2)
  then show ?thesis by (simp add: signature_forward_inner_def)
qed

lemma inner_cpu_D2:
  assumes T: "shape2 B (width C C D) T" and x: "\<forall>si\<in>set [s..<e]. shape2 B C (incs ! si)"
    and D: "1 \<le> D" and r: "length r = D - 1" "\<forall>i<D - 1. r ! i = 1 / (real i + 2)"
    and dt: "scalar_t = kFloat \<or> scalar_t = kDouble"
  shows "signature_forward_inner_cpu incs scalar_t r inv_flag B s e C D (D2 T)
       = Inr (D2 (fold (sig_step incs r inv_flag C D) [s..<e] T))"
proof -
  have rl: "D - 1 \<le> length r" using r by simp
  have "fold (signature_forward_inner_cpu_step incs r inv_flag B C D) sis (D2 T)
      = D2 (fold (sig_step incs r inv_flag C D) sis T)"
    if "\<forall>si\<in>set sis. shape2 B C (incs ! si)" "shape2 B (width C C D) T" for sis T
    using that
  proof (induction sis arbitrary: T)
    case Nil
    then show ?case by simp
  next
    case (Cons si sis)
    have x1: "shape2 B C (incs ! si)" using Cons.prems by simp
    have "signature_forward_inner_cpu_step incs r inv_flag B C D si (D2 T)
        = D2 (sig_step incs r inv_flag C D si T)"
      using Cons.prems(2) x1 D rl by (rule cpu_step_D2)
    moreover have "shape2 B (width C C D) (sig_step incs r inv_flag C D si T)"
      using Cons.prems(2) x1 D r by (rule sig_step_facts)
    ultimately show ?case
      using Cons.IH Cons.prems(1) by simp
  qed
  with x T dt show ?thesis
    by (simp add: signature_forward_inner_cpu_def)
qed


subsection \<open>The loop that keeps every prefix\<close>

lemma length_stream_fold [simp]: "length (stream_fold incs r inv_flag C D sis S) = length S"
  unfolding stream_fold_def by (induction sis arbitrary: S) simp_all

lemma stream_fold_snoc:
  "stream_fold incs r inv_flag C D (sis @ [si]) S
     = (stream_fold incs r inv_flag C D sis S)
         [si := sig_step incs r inv_flag C D si (stream_fold incs r inv_flag C D sis S ! (si - 1))]"
  by (simp add: stream_fold_def)

lemma stream_fold_facts:
  fixes inv_flag :: bool and incs :: tensor3
  assumes S0: "shape2 B (width C C D) (S0 ! 0)" and k: "Suc k \<le> length S0"
    and x: "\<forall>si. 1 \<le> si \<and> si \<le> k \<longrightarrow> shape2 B C (incs ! si)"
    and D: "1 \<le> D" and r: "length r = D - 1" "\<forall>i<D - 1. r ! i = 1 / (real i + 2)"
  defines "Sk \<equiv> stream_fold incs r inv_flag C D [1..<Suc k] S0"
  shows "(\<forall>s. k < s \<and> s < length S0 \<longrightarrow> Sk ! s = S0 ! s)
       \<and> (\<forall>s\<le>k. shape2 B (width C C D) (Sk ! s)
              \<and> (\<forall>b<B. weq C D (row_coef C D (Sk ! s) b)
                           (sig_fold inv_flag (row_coef C D (S0 ! 0) b)
                              (map (\<lambda>si. incs ! si ! b) [1..<Suc s]))))"
  unfolding Sk_def using k x
proof (induction k)
  case 0
  then show ?case using S0 by (simp add: stream_fold_def)
next
  case (Suc k)
  let ?Sk = "stream_fold incs r inv_flag C D [1..<Suc k] S0"
  let ?S' = "stream_fold incs r inv_flag C D [1..<Suc (Suc k)] S0"
  let ?a = "\<lambda>b. row_coef C D (S0 ! 0) b"
  from Suc.IH Suc.prems have IH1: "\<And>s. k < s \<Longrightarrow> s < length S0 \<Longrightarrow> ?Sk ! s = S0 ! s"
    and IH2: "\<And>s. s \<le> k \<Longrightarrow> shape2 B (width C C D) (?Sk ! s)"
    and IH3: "\<And>s b. s \<le> k \<Longrightarrow> b < B \<Longrightarrow> weq C D (row_coef C D (?Sk ! s) b)
                 (sig_fold inv_flag (?a b) (map (\<lambda>si. incs ! si ! b) [1..<Suc s]))"
    by (simp_all del: upt_Suc)
  have xk: "shape2 B C (incs ! Suc k)" using Suc.prems by simp
  have kl: "Suc k < length S0" using Suc.prems by simp
  have "[1..<Suc (Suc k)] = [1..<Suc k] @ [Suc k]" by simp
  then have S': "?S' = ?Sk[Suc k := sig_step incs r inv_flag C D (Suc k) (?Sk ! k)]"
    using stream_fold_snoc [of incs r inv_flag C D "[1..<Suc k]" "Suc k" S0]
    by (simp del: upt_Suc)
  note st = sig_step_facts [OF IH2 [of k] xk D r, where inv_flag = inv_flag]
  have a: "?S' ! s = S0 ! s" if "Suc k < s" "s < length S0" for s
    using that IH1 [of s] unfolding S' by (simp del: upt_Suc)
  have b: "shape2 B (width C C D) (?S' ! s)" if "s \<le> Suc k" for s
  proof (cases "s = Suc k")
    case True
    then show ?thesis using st(1) kl unfolding S' by (simp del: upt_Suc)
  next
    case False
    with that show ?thesis using IH2 [of s] unfolding S' by (simp del: upt_Suc)
  qed
  have c: "weq C D (row_coef C D (?S' ! s) b)
             (sig_fold inv_flag (?a b) (map (\<lambda>si. incs ! si ! b) [1..<Suc s]))"
    if "s \<le> Suc k" "b < B" for s b
  proof (cases "s = Suc k")
    case True
    have "weq C D (row_coef C D (sig_step incs r inv_flag C D (Suc k) (?Sk ! k)) b)
        (sig_fold inv_flag (row_coef C D (?Sk ! k) b) [incs ! Suc k ! b])"
      using st(2) that by simp
    moreover have "weq C D (sig_fold inv_flag (row_coef C D (?Sk ! k) b) [incs ! Suc k ! b])
        (sig_fold inv_flag (sig_fold inv_flag (?a b) (map (\<lambda>si. incs ! si ! b) [1..<Suc k]))
           [incs ! Suc k ! b])"
      using IH3 [of k b] that by (intro sig_fold_weq) simp
    ultimately have "weq C D (row_coef C D (sig_step incs r inv_flag C D (Suc k) (?Sk ! k)) b)
        (sig_fold inv_flag (?a b) (map (\<lambda>si. incs ! si ! b) [1..<Suc k] @ [incs ! Suc k ! b]))"
      unfolding sig_fold_append by (rule weq_trans)
    moreover have "map (\<lambda>si. incs ! si ! b) [1..<Suc k] @ [incs ! Suc k ! b]
        = map (\<lambda>si. incs ! si ! b) [1..<Suc (Suc k)]"
      by simp
    ultimately show ?thesis
      using True kl unfolding S' by (simp del: upt_Suc)
  next
    case False
    with that show ?thesis using IH3 [of s b] unfolding S' by (simp del: upt_Suc)
  qed
  from a b c show ?case by blast
qed

lemma inner_D3:
  assumes "n \<le> length S"
  shows "signature_forward_inner incs r inv_flag n C D (D3 S)
       = D3 (stream_fold incs r inv_flag C D [1..<n] S)"
proof -
  have "fold (signature_forward_inner_step incs r inv_flag C D) sis (D3 S)
      = D3 (stream_fold incs r inv_flag C D sis S)" if "\<forall>si\<in>set sis. si < length S" for sis S
    using that
  proof (induction sis arbitrary: S)
    case Nil
    then show ?case by (simp add: stream_fold_def)
  next
    case (Cons si sis)
    then have "si < length S" by simp
    then have "signature_forward_inner_step incs r inv_flag C D si (D3 S)
        = D3 (S[si := sig_step incs r inv_flag C D si (S ! (si - 1))])"
      by (rule inner_step_D3)
    then show ?case
      using Cons.IH [of "S[si := sig_step incs r inv_flag C D si (S ! (si - 1))]"] Cons.prems
      by (simp add: stream_fold_def)
  qed
  with assms show ?thesis
    by (simp add: signature_forward_inner_def)
qed

lemma inner_cpu_D3:
  assumes S0: "shape2 B (width C C D) (S0 ! 0)" and n: "1 \<le> n" "n \<le> length S0"
    and x: "\<forall>si. 1 \<le> si \<and> si < n \<longrightarrow> shape2 B C (incs ! si)"
    and D: "1 \<le> D" and r: "length r = D - 1" "\<forall>i<D - 1. r ! i = 1 / (real i + 2)"
    and dt: "scalar_t = kFloat \<or> scalar_t = kDouble"
  shows "signature_forward_inner_cpu incs scalar_t r inv_flag B 1 n C D (D3 S0)
       = Inr (D3 (stream_fold incs r inv_flag C D [1..<n] S0))"
proof -
  have rl: "D - 1 \<le> length r" using r by simp
  have "fold (signature_forward_inner_cpu_step incs r inv_flag B C D) [1..<Suc k] (D3 S0)
      = D3 (stream_fold incs r inv_flag C D [1..<Suc k] S0)" if "Suc k \<le> n" for k
    using that
  proof (induction k)
    case 0
    then show ?case by (simp add: stream_fold_def)
  next
    case (Suc k)
    let ?Sk = "stream_fold incs r inv_flag C D [1..<Suc k] S0"
    have x': "\<forall>si. 1 \<le> si \<and> si \<le> k \<longrightarrow> shape2 B C (incs ! si)"
      using x Suc.prems by simp
    have kl: "Suc k \<le> length S0" using Suc.prems n by simp
    from stream_fold_facts [OF S0 kl x' D r, where inv_flag = inv_flag]
    have sh: "shape2 B (width C C D) (?Sk ! k)" by blast
    have xk: "shape2 B C (incs ! Suc k)" using x Suc.prems by simp
    have l: "Suc k < length ?Sk" using Suc.prems n by simp
    have "signature_forward_inner_cpu_step incs r inv_flag B C D (Suc k) (D3 ?Sk)
        = D3 (?Sk[Suc k := sig_step incs r inv_flag C D (Suc k) (?Sk ! (Suc k - 1))])"
      using l _ xk D rl by (rule cpu_step_D3) (use sh in simp)
    moreover have "fold (signature_forward_inner_cpu_step incs r inv_flag B C D) [1..<Suc k] (D3 S0)
        = D3 ?Sk"
      using Suc by (simp del: upt_Suc)
    moreover have "[1..<Suc (Suc k)] = [1..<Suc k] @ [Suc k]" by simp
    ultimately show ?case
      using stream_fold_snoc [of incs r inv_flag C D "[1..<Suc k]" "Suc k" S0]
      by (simp del: upt_Suc)
  qed
  from this [of "n - 1"] n dt show ?thesis
    by (simp add: signature_forward_inner_cpu_def)
qed



subsection \<open>The chunks of the parallel driver\<close>

lemma chunk_end_start: "chunk_end S t n = chunk_start S (Suc t) n"
  by (simp add: chunk_end_def chunk_start_def)

lemma chunk_start_0 [simp]: "chunk_start S 0 n = 1"
  by (simp add: chunk_start_def)

lemma chunk_start_last: "0 < n \<Longrightarrow> 1 \<le> S \<Longrightarrow> chunk_start S n n = S"
  by (simp add: chunk_start_def)

lemma chunk_start_mono: "chunk_start S t n \<le> chunk_start S (Suc t) n"
  unfolding chunk_start_def by (intro add_left_mono div_le_mono) simp

lemma chunk_start_pos: "1 \<le> chunk_start S t n"
  by (simp add: chunk_start_def)

lemma chunks_partition:
  "concat (map (\<lambda>t. [chunk_start S t n..<chunk_end S t n]) [0..<k]) = [1..<chunk_start S k n]"
proof (induction k)
  case 0
  then show ?case by simp
next
  case (Suc k)
  have "[1..<chunk_start S k n] @ [chunk_start S k n..<chunk_start S (Suc k) n]
      = [1..<chunk_start S (Suc k) n]"
    using chunk_start_pos [of S k n] chunk_start_mono [of S k n]
    by (metis le_Suc_ex upt_add_eq_append)
  with Suc show ?case
    by (simp add: chunk_end_start)
qed

lemma sig_fold_unit_Cons:
  "sig_fold inv_flag unitw (x # xs) = sig_fold inv_flag (expw x) xs"
  by (simp add: sig_fold_Cons)

lemma shape2_empty2 [simp]: "shape2 B n (empty2 B n)"
  by (simp add: shape2_def empty2_def list_all_length)

lemma omp_chunk_facts:
  fixes inv_flag :: bool
  assumes x: "\<forall>si. chunk_start S t n \<le> si \<and> si < chunk_end S t n \<longrightarrow> shape2 B C (incs ! si)"
    and D: "1 \<le> D" and r: "length r = D - 1" "\<forall>i<D - 1. r ! i = 1 / (real i + 2)"
    and dt: "scalar_t = kFloat \<or> scalar_t = kDouble"
  shows "\<exists>res. omp_chunk incs scalar_t r inv_flag B S (width C C D) C D n t = Inr res
           \<and> (case res of
                 None \<Rightarrow> [chunk_start S t n..<chunk_end S t n] = []
               | Some ch \<Rightarrow> tshape B C D ch
                   \<and> (\<forall>b<B. weq C D (coef C (row_terms b ch))
                                (sig_fold inv_flag unitw
                                   (map (\<lambda>si. incs ! si ! b) [chunk_start S t n..<chunk_end S t n]))))"
proof (cases "chunk_start S t n < chunk_end S t n")
  case False
  then show ?thesis by (simp add: omp_chunk_def Let_def)
next
  case True
  let ?s = "chunk_start S t n" and ?e = "chunk_end S t n"
  let ?T0 = "empty2 B (width C C D)"
  let ?T1 = "write_terms (restricted_exp (incs ! ?s) (slice_by_term ?T0 C D) r) ?T0"
  let ?T2 = "fold (sig_step incs r inv_flag C D) [?s + 1..<?e] ?T1"
  have xs: "shape2 B C (incs ! ?s)" using x True by simp
  have T0: "shape2 B (width C C D) ?T0" by simp
  note re = restricted_exp_buffer [OF T0 xs D r]
  have xr: "\<forall>si\<in>set [?s + 1..<?e]. shape2 B C (incs ! si)" using x by simp
  have cpu: "signature_forward_inner_cpu incs scalar_t r inv_flag B (?s + 1) ?e C D (D2 ?T1)
      = Inr (D2 ?T2)"
    using re(1) xr D r dt by (rule inner_cpu_D2)
  note fs = fold_sig_steps [OF re(1) xr D r, where inv_flag = inv_flag]
  have T2: "shape2 B (width C C D) ?T2" using fs by simp
  have ch: "tshape B C D (slice_by_term ?T2 C D)" using T2 by (rule tshape_slice_by_term)
  have "weq C D (coef C (row_terms b (slice_by_term ?T2 C D)))
          (sig_fold inv_flag unitw (map (\<lambda>si. incs ! si ! b) [?s..<?e]))" if b: "b < B" for b
  proof -
    have "coef C (row_terms b (slice_by_term ?T2 C D)) = row_coef C D ?T2 b"
      using b T2 by (intro row_coef_slice) (simp add: shape2_length)
    moreover have "weq C D (row_coef C D ?T2 b)
        (sig_fold inv_flag (row_coef C D ?T1 b) (map (\<lambda>si. incs ! si ! b) [?s + 1..<?e]))"
      using fs b by simp
    moreover have "weq C D
        (sig_fold inv_flag (row_coef C D ?T1 b) (map (\<lambda>si. incs ! si ! b) [?s + 1..<?e]))
        (sig_fold inv_flag (expw (incs ! ?s ! b)) (map (\<lambda>si. incs ! si ! b) [?s + 1..<?e]))"
      using re(2) [OF b] by (rule sig_fold_weq)
    moreover have "[?s..<?e] = ?s # [?s + 1..<?e]"
      using True by (simp add: upt_conv_Cons)
    ultimately show ?thesis
      using weq_trans by (simp only: list.map sig_fold_unit_Cons)
  qed
  with ch cpu True show ?thesis
    by (simp add: omp_chunk_def Let_def)
qed

lemma omp_collect_all:
  assumes "\<forall>t\<in>set ts. f t = Inr (g t)"
  shows "omp_collect (map f ts) = Inr (map g ts)"
  using assms by (induction ts) simp_all

lemma fold_index:
  "fold (\<lambda>i. f (xs ! i)) [0..<length xs] = fold f xs"
proof (induction xs rule: rev_induct)
  case Nil
  then show ?case by simp
next
  case (snoc x xs)
  have "fold (\<lambda>i. f ((xs @ [x]) ! i)) [0..<length xs] = fold (\<lambda>i. f (xs ! i)) [0..<length xs]"
    by (rule ext, rule fold_cong) (simp_all add: nth_append)
  with snoc show ?case by simp
qed

lemma combine_chunks_fold:
  "combine_chunks rs (length rs) inv_flag terms
     = fold (\<lambda>c terms. case c of Some ch \<Rightarrow> mult_inverse terms ch inv_flag | None \<Rightarrow> terms)
         rs terms"
  unfolding combine_chunks_def
  using fold_index [of "\<lambda>c terms. case c of Some ch \<Rightarrow> mult_inverse terms ch inv_flag
                                   | None \<Rightarrow> terms" rs]
  by simp

lemma conv_flag_weq:
  assumes "weq C D a a'" "weq C D c c'"
  shows "weq C D (conv_flag inv_flag a c) (conv_flag inv_flag a' c')"
  using assms by (simp add: conv_flag_def conv_weq)

lemma conv_flag_unit [simp]: "conv_flag inv_flag a unitw = a"
  by (simp add: conv_flag_def)

lemma foldl_conv_weq:
  assumes "length cs = length cs'" "\<forall>i<length cs. weq C D (cs ! i) (cs' ! i)" "weq C D a a'"
  shows "weq C D (foldl (conv_flag inv_flag) a cs) (foldl (conv_flag inv_flag) a' cs')"
  using assms
proof (induction cs cs' arbitrary: a a' rule: list_induct2)
  case Nil
  then show ?case by simp
next
  case (Cons c cs c' cs')
  have "weq C D (conv_flag inv_flag a c) (conv_flag inv_flag a' c')"
    using Cons.prems by (intro conv_flag_weq) auto
  moreover have "\<forall>i<length cs. weq C D (cs ! i) (cs' ! i)"
    using Cons.prems(1) by auto
  ultimately show ?case
    using Cons.IH by simp
qed

lemma mult_inverse_facts:
  assumes A: "tshape B C D terms" and ch: "tshape B C D ch"
  shows "tshape B C D (mult_inverse terms ch inv_flag)"
    and "b < B \<Longrightarrow> weq C D (coef C (row_terms b (mult_inverse terms ch inv_flag)))
           (conv_flag inv_flag (coef C (row_terms b terms)) (coef C (row_terms b ch)))"
proof -
  show "tshape B C D (mult_inverse terms ch inv_flag)"
    using A ch by (simp add: mult_inverse_def mult_tshape)
  show "weq C D (coef C (row_terms b (mult_inverse terms ch inv_flag)))
           (conv_flag inv_flag (coef C (row_terms b terms)) (coef C (row_terms b ch)))"
    if b: "b < B"
  proof (cases inv_flag)
    case True
    from mult_coef [OF ch A b] True show ?thesis
      by (simp add: mult_inverse_def conv_flag_def weq_def)
  next
    case False
    from mult_coef [OF A ch b] False show ?thesis
      by (simp add: mult_inverse_def conv_flag_def weq_def)
  qed
qed

lemma combine_coef:
  assumes "tshape B C D terms"
    and "\<forall>c\<in>set rs. case c of Some ch \<Rightarrow> tshape B C D ch | None \<Rightarrow> True"
  shows "tshape B C D
           (fold (\<lambda>c terms. case c of Some ch \<Rightarrow> mult_inverse terms ch inv_flag | None \<Rightarrow> terms)
              rs terms)
       \<and> (\<forall>b<B. weq C D
             (coef C (row_terms b
                (fold (\<lambda>c terms. case c of Some ch \<Rightarrow> mult_inverse terms ch inv_flag
                                   | None \<Rightarrow> terms) rs terms)))
             (foldl (conv_flag inv_flag) (coef C (row_terms b terms)) (map (chunk_coef C b) rs)))"
  using assms
proof (induction rs arbitrary: terms)
  case Nil
  then show ?case by simp
next
  case (Cons c rs)
  let ?step = "\<lambda>c terms. case c of Some ch \<Rightarrow> mult_inverse terms ch inv_flag | None \<Rightarrow> terms"
  let ?t1 = "?step c terms"
  have t1: "tshape B C D ?t1"
    using Cons.prems by (cases c) (simp_all add: mult_inverse_facts)
  have c1: "weq C D (coef C (row_terms b ?t1))
      (conv_flag inv_flag (coef C (row_terms b terms)) (chunk_coef C b c))"
    if "b < B" for b
  proof (cases c)
    case None
    then show ?thesis by (simp add: chunk_coef_def)
  next
    case (Some ch)
    then have "tshape B C D ch" using Cons.prems by simp
    from mult_inverse_facts(2) [OF Cons.prems(1) this that] Some show ?thesis
      by (simp add: chunk_coef_def)
  qed
  from Cons.IH [OF t1] Cons.prems(2)
  have IH: "tshape B C D (fold ?step rs ?t1)"
    "\<And>b. b < B \<Longrightarrow> weq C D (coef C (row_terms b (fold ?step rs ?t1)))
         (foldl (conv_flag inv_flag) (coef C (row_terms b ?t1)) (map (chunk_coef C b) rs))"
    by simp_all
  have "weq C D (coef C (row_terms b (fold ?step (c # rs) terms)))
      (foldl (conv_flag inv_flag) (coef C (row_terms b terms)) (map (chunk_coef C b) (c # rs)))"
    if b: "b < B" for b
  proof -
    have "weq C D
        (foldl (conv_flag inv_flag) (coef C (row_terms b ?t1)) (map (chunk_coef C b) rs))
        (foldl (conv_flag inv_flag)
           (conv_flag inv_flag (coef C (row_terms b terms)) (chunk_coef C b c))
           (map (chunk_coef C b) rs))"
      using c1 [OF b] by (intro foldl_conv_weq) simp_all
    with IH(2) [OF b] show ?thesis using weq_trans by simp
  qed
  with IH(1) show ?case by simp
qed

lemma foldl_conv_sig:
  "foldl (conv_flag inv_flag) a (map (\<lambda>X. sig_fold inv_flag unitw X) Xs)
     = sig_fold inv_flag a (concat Xs)"
proof (induction Xs arbitrary: a)
  case Nil
  then show ?case by simp
next
  case (Cons X Xs)
  have "conv_flag inv_flag a (sig_fold inv_flag unitw X) = sig_fold inv_flag a X"
    using sig_fold_right [of a X] sig_fold_left [of a X]
    by (cases inv_flag) (simp_all add: conv_flag_def)
  then show ?case
    by (simp add: Cons sig_fold_append)
qed

lemma foldl_conv_units: "foldl (conv_flag inv_flag) a (replicate m unitw) = a"
  by (induction m) simp_all

lemma foldl_conv_unused:
  "foldl (conv_flag inv_flag) a (map (chunk_coef C b) (rs @ replicate m None))
     = foldl (conv_flag inv_flag) a (map (chunk_coef C b) rs)"
  by (simp add: chunk_coef_def foldl_conv_units)

lemma chunked_result:
  fixes inv_flag :: bool
  assumes T: "shape2 B (width C C D) T"
    and x: "\<forall>si. 1 \<le> si \<and> si < S \<longrightarrow> shape2 B C (incs ! si)"
    and D: "1 \<le> D" and r: "length r = D - 1" "\<forall>i<D - 1. r ! i = 1 / (real i + 2)"
    and dt: "scalar_t = kFloat \<or> scalar_t = kDouble"
    and k: "1 \<le> k" and env: "wf_env env" and S: "1 \<le> S"
  defines "n \<equiv> team_size env k"
  shows "\<exists>T'. signature_forward_chunked env incs scalar_t r inv_flag B S (width C C D) C D k T
               = Inr (D2 T')
           \<and> shape2 B (width C C D) T'
           \<and> (\<forall>b<B. weq C D (row_coef C D T' b)
                 (foldl (conv_flag inv_flag) (row_coef C D T b)
                    (map (\<lambda>t. sig_fold inv_flag unitw
                                 (map (\<lambda>si. incs ! si ! b) [chunk_start S t n..<chunk_end S t n]))
                         [0..<n])))"
proof -
  let ?W = "width C C D"
  let ?X = "\<lambda>b t. map (\<lambda>si. incs ! si ! b) [chunk_start S t n..<chunk_end S t n]"
  let ?f = "omp_chunk incs scalar_t r inv_flag B S ?W C D n"
  have n: "1 \<le> n" "n \<le> k" using env k by (simp_all add: wf_env_def n_def)
  have range: "1 \<le> chunk_start S t n \<and> chunk_end S t n \<le> S" if "t < n" for t
  proof -
    have "(S - 1) * (1 + t) div n \<le> (S - 1) * n div n"
      using that by (intro div_le_mono mult_le_mono) simp_all
    then show ?thesis using n S by (simp add: chunk_start_def chunk_end_def)
  qed
  have "\<forall>t. \<exists>res. t < n \<longrightarrow> ?f t = Inr res
           \<and> (case res of
                 None \<Rightarrow> [chunk_start S t n..<chunk_end S t n] = []
               | Some ch \<Rightarrow> tshape B C D ch
                   \<and> (\<forall>b<B. weq C D (coef C (row_terms b ch)) (sig_fold inv_flag unitw (?X b t))))"
  proof (intro allI)
    fix t
    show "\<exists>res. t < n \<longrightarrow> ?f t = Inr res
           \<and> (case res of
                 None \<Rightarrow> [chunk_start S t n..<chunk_end S t n] = []
               | Some ch \<Rightarrow> tshape B C D ch
                   \<and> (\<forall>b<B. weq C D (coef C (row_terms b ch)) (sig_fold inv_flag unitw (?X b t))))"
    proof (cases "t < n")
      case True
      have "\<forall>si. chunk_start S t n \<le> si \<and> si < chunk_end S t n \<longrightarrow> shape2 B C (incs ! si)"
        using x range [OF True] by auto
      from omp_chunk_facts [OF this D r dt, where inv_flag = inv_flag] show ?thesis by blast
    next
      case False
      then show ?thesis by simp
    qed
  qed
  from choice [OF this] obtain g where G: "\<forall>t. t < n \<longrightarrow> ?f t = Inr (g t)
           \<and> (case g t of
                 None \<Rightarrow> [chunk_start S t n..<chunk_end S t n] = []
               | Some ch \<Rightarrow> tshape B C D ch
                   \<and> (\<forall>b<B. weq C D (coef C (row_terms b ch)) (sig_fold inv_flag unitw (?X b t))))"
    by blast
  have g: "?f t = Inr (g t)" if "t < n" for t using G that by blast
  have gNone: "[chunk_start S t n..<chunk_end S t n] = []" if "t < n" "g t = None" for t
    using G that by (auto split: option.splits)
  have gSome: "tshape B C D ch
      \<and> (\<forall>b<B. weq C D (coef C (row_terms b ch)) (sig_fold inv_flag unitw (?X b t)))"
    if "t < n" "g t = Some ch" for t ch
  proof -
    from G that(1) have "case g t of
                 None \<Rightarrow> [chunk_start S t n..<chunk_end S t n] = []
               | Some ch \<Rightarrow> tshape B C D ch
                   \<and> (\<forall>b<B. weq C D (coef C (row_terms b ch)) (sig_fold inv_flag unitw (?X b t)))"
      by blast
    then show ?thesis unfolding that(2) by simp
  qed
  let ?rs = "map g [0..<n]"
  let ?omp = "?rs @ replicate (k - n) None"
  let ?step = "\<lambda>c terms. case c of Some ch \<Rightarrow> mult_inverse terms ch inv_flag | None \<Rightarrow> terms"
  let ?terms = "fold ?step ?omp (slice_by_term T C D)"
  have coll: "omp_collect (map ?f [0..<n]) = Inr ?rs"
    by (rule omp_collect_all) (simp add: g)
  have lomp: "length ?omp = k" using n by simp
  have comb: "combine_chunks ?omp k inv_flag (slice_by_term T C D) = ?terms"
    using combine_chunks_fold [of ?omp inv_flag] lomp by simp
  have run: "signature_forward_chunked env incs scalar_t r inv_flag B S ?W C D k T
      = Inr (D2 (write_terms ?terms T))"
    by (simp add: signature_forward_chunked_def Let_def n_def [symmetric] coll comb)
  have A: "tshape B C D (slice_by_term T C D)" using T by (rule tshape_slice_by_term)
  have shapes: "\<forall>c\<in>set ?omp. case c of Some ch \<Rightarrow> tshape B C D ch | None \<Rightarrow> True"
    using gSome by (auto split: option.splits)
  note cc = combine_coef [OF A shapes]
  have lT: "length T = B" using T by (rule shape2_length)
  have sh: "shape2 B ?W (write_terms ?terms T)"
    using cc T by (intro shape2_write_terms) simp_all
  have "weq C D (row_coef C D (write_terms ?terms T) b)
          (foldl (conv_flag inv_flag) (row_coef C D T b) (map (\<lambda>t. sig_fold inv_flag unitw (?X b t)) [0..<n]))"
    if b: "b < B" for b
  proof -
    have 1: "row_coef C D (write_terms ?terms T) b = coef C (row_terms b ?terms)"
      using cc lT b by (intro row_coef_write_terms) simp_all
    have 2: "coef C (row_terms b (slice_by_term T C D)) = row_coef C D T b"
      using b lT by (intro row_coef_slice) simp
    have 3: "weq C D (coef C (row_terms b ?terms))
        (foldl (conv_flag inv_flag) (row_coef C D T b) (map (chunk_coef C b) ?rs))"
      using cc [THEN conjunct2, rule_format, OF b] unfolding 2 foldl_conv_unused .
    have 4: "weq C D (foldl (conv_flag inv_flag) (row_coef C D T b) (map (chunk_coef C b) ?rs))
        (foldl (conv_flag inv_flag) (row_coef C D T b) (map (\<lambda>t. sig_fold inv_flag unitw (?X b t)) [0..<n]))"
    proof (rule foldl_conv_weq)
      show "length (map (chunk_coef C b) ?rs)
          = length (map (\<lambda>t. sig_fold inv_flag unitw (?X b t)) [0..<n])" by simp
      show "\<forall>i<length (map (chunk_coef C b) ?rs).
          weq C D (map (chunk_coef C b) ?rs ! i)
            (map (\<lambda>t. sig_fold inv_flag unitw (?X b t)) [0..<n] ! i)"
      proof (intro allI impI)
        fix i assume "i < length (map (chunk_coef C b) ?rs)"
        then have i: "i < n" by simp
        have "weq C D (chunk_coef C b (g i)) (sig_fold inv_flag unitw (?X b i))"
        proof (cases "g i")
          case None
          have "weq C D unitw (sig_fold inv_flag unitw (map (\<lambda>si. incs ! si ! b) []))" by simp
          then show ?thesis unfolding gNone [OF i None] None by (simp add: chunk_coef_def)
        next
          case (Some ch)
          with gSome [OF i] b show ?thesis by (simp add: chunk_coef_def)
        qed
        with i show "weq C D (map (chunk_coef C b) ?rs ! i)
            (map (\<lambda>t. sig_fold inv_flag unitw (?X b t)) [0..<n] ! i)" by simp
      qed
      show "weq C D (row_coef C D T b) (row_coef C D T b)" by simp
    qed
    show ?thesis unfolding 1 using 3 4 by (rule weq_trans)
  qed
  with run sh show ?thesis by blast
qed

lemma chunks_sig_fold:
  assumes "0 < n" "1 \<le> S"
  shows "foldl (conv_flag inv_flag) a
           (map (\<lambda>t. sig_fold inv_flag unitw (map f [chunk_start S t n..<chunk_end S t n]))
              [0..<n])
         = sig_fold inv_flag a (map f [1..<S])"
proof -
  have "map (\<lambda>t. sig_fold inv_flag unitw (map f [chunk_start S t n..<chunk_end S t n])) [0..<n]
      = map (sig_fold inv_flag unitw)
          (map (\<lambda>t. map f [chunk_start S t n..<chunk_end S t n]) [0..<n])"
    by simp
  moreover have "concat (map (\<lambda>t. map f [chunk_start S t n..<chunk_end S t n]) [0..<n])
      = map f (concat (map (\<lambda>t. [chunk_start S t n..<chunk_end S t n]) [0..<n]))"
    by (simp add: map_concat comp_def)
  ultimately show ?thesis
    using assms by (simp only: foldl_conv_sig chunks_partition chunk_start_last)
qed



section \<open>What signature_forward returns\<close>

lemma is_signature_unique:
  assumes "is_signature B C D a T" "is_signature B C D a' T'"
    and "\<And>b. b < B \<Longrightarrow> weq C D (a b) (a' b)"
  shows "T = T'"
proof (rule buffer_ext)
  show "shape2 B (width C C D) T" "shape2 B (width C C D) T'"
    using assms by (simp_all add: is_signature_def)
  fix b assume b: "b < B"
  have "weq C D (row_coef C D T b) (a b)" "weq C D (row_coef C D T' b) (a' b)"
    using assms(1,2) b by (simp_all add: is_signature_def)
  with assms(3) [OF b] show "weq C D (row_coef C D T b) (row_coef C D T' b)"
    by (meson weq_sym weq_trans)
qed

lemma is_signature_weq:
  assumes "is_signature B C D a T" "\<And>b. b < B \<Longrightarrow> weq C D (a b) (a' b)"
  shows "is_signature B C D a' T"
  using assms unfolding is_signature_def by (meson weq_trans)

lemma first_term_facts:
  fixes inv_flag initial :: bool
  assumes x: "shape2 B C x" and D: "1 \<le> D" and C: "1 \<le> C"
    and iv: "initial \<Longrightarrow> shape2 B (signature_channels C D) (data2 (contents initial_value))"
  defines "F0 \<equiv> (if initial then data2 (contents initial_value)
                   else empty2 B (signature_channels C D))"
  defines "terms \<equiv> (if initial then
                       mult_fused_restricted_exp x (slice_by_term F0 C D) inv_flag
                         (make_reciprocals D)
                     else restricted_exp x (slice_by_term F0 C D) (make_reciprocals D))"
  shows "is_signature B C D (\<lambda>b. sig_fold inv_flag (sig_start C D initial initial_value b) [x ! b])
           (write_terms terms F0)"
proof -
  have W: "signature_channels C D = width C C D" using C by (rule signature_channels_width)
  have F0: "shape2 B (width C C D) F0" using iv by (simp add: F0_def W)
  show ?thesis
  proof (cases initial)
    case True
    note fb = fused_buffer [OF F0 x D recips_facts, where inv_flag = inv_flag]
    from True fb show ?thesis
      by (cases inv_flag) (simp_all add: is_signature_def terms_def sig_start_def sig_fold_Cons F0_def)
  next
    case False
    note rb = restricted_exp_buffer [OF F0 x D recips_facts]
    from False rb show ?thesis
      by (simp add: is_signature_def terms_def sig_start_def sig_fold_Cons)
  qed
qed


lemma empty3_nth [simp]: "s < S \<Longrightarrow> empty3 S B n ! s = empty2 B n"
  by (simp add: empty3_def)

lemma length_empty3 [simp]: "length (empty3 S B n) = S"
  by (simp add: empty3_def)

lemma signature_forward_unfold:
  fixes inv_flag initial basepoint stream :: bool
  assumes sz: "sizes path = [N, B, C]" and co: "contents path = D3 P" and P: "shape3 N B C P"
    and pos: "1 \<le> B" "1 \<le> C" "1 \<le> D" and N: "1 \<le> N" "basepoint \<or> 2 \<le> N"
    and fl: "is_floating_point path"
    and bp: "basepoint \<Longrightarrow> sizes basepoint_value = [B, C]
               \<and> dtype basepoint_value = dtype path \<and> device basepoint_value = device path
               \<and> shape2 B C (data2 (contents basepoint_value))"
    and iv: "initial \<Longrightarrow> sizes initial_value = [B, signature_channels C D]
               \<and> dtype initial_value = dtype path \<and> device initial_value = device path
               \<and> shape2 B (signature_channels C D) (data2 (contents initial_value))"
  defines "incs \<equiv> compute_path_increments P basepoint (data2 (contents basepoint_value)) inv_flag"
    and "S \<equiv> N - (if basepoint then 0 else 1)"
    and "W \<equiv> signature_channels C D"
  shows "\<exists>F1. is_signature B C D
                (\<lambda>b. sig_fold inv_flag (sig_start C D initial initial_value b) [incs ! 0 ! b]) F1
     \<and> signature_forward env path (int D) stream basepoint basepoint_value inv_flag initial
         initial_value
       = (case (if is_cuda path then
                  Inr (signature_forward_inner incs (make_reciprocals D) inv_flag S C D
                         (if stream then D3 ((empty3 S B W)[0 := F1]) else D2 F1))
                else if stream_threads_of env stream B N S W = 1 then
                  signature_forward_inner_cpu incs (dtype path) (make_reciprocals D) inv_flag
                    B 1 S C D (if stream then D3 ((empty3 S B W)[0 := F1]) else D2 F1)
                else
                  signature_forward_chunked env incs (dtype path) (make_reciprocals D) inv_flag
                    B S W C D (stream_threads_of env stream B N S W)
                    (data2 (if stream then D3 ((empty3 S B W)[0 := F1]) else D2 F1)))
          of Inl e \<Rightarrow> Inl e
           | Inr signature \<Rightarrow>
               Inr (\<lparr>sizes = (if stream then [S, B, W] else [B, W]),
                     dtype = dtype path, device = device path, contents = signature\<rparr>,
                    \<lparr>sizes = [S, B, C], dtype = dtype path, device = device path,
                     contents = D3 incs\<rparr>))"
proof -
  have chk: "signature_checkargs path (int D) basepoint basepoint_value initial initial_value = None"
    unfolding checkargs_accepts_iff
    using sz pos N fl bp iv by (intro exI [of _ N] exI [of _ B] exI [of _ C]) auto
  note d = sizes_3d [OF sz]
  have S1: "1 \<le> S" using N by (auto simp: S_def)
  have sh: "shape3 S B C incs"
    unfolding S_def incs_def using P N(1) bp by (intro increments_shape) simp_all
  then have x: "shape2 B C (incs ! 0)" using S1 by (simp add: shape3_iff)
  have iv': "initial \<Longrightarrow> shape2 B (signature_channels C D) (data2 (contents initial_value))"
    using iv by simp
  let ?F0 = "if initial then data2 (contents initial_value) else empty2 B (signature_channels C D)"
  let ?terms = "if initial then
                  mult_fused_restricted_exp (incs ! 0) (slice_by_term ?F0 C D) inv_flag
                    (make_reciprocals D)
                else restricted_exp (incs ! 0) (slice_by_term ?F0 C D) (make_reciprocals D)"
  let ?F1 = "write_terms ?terms ?F0"
  note ft = first_term_facts [OF x pos(3) pos(2) iv', where inv_flag = inv_flag]
  have ft0: "first_term_of (if stream then D3 (empty3 S B W) else D2 (empty2 B W)) = empty2 B W"
    using S1 by simp
  have run: "signature_forward env path (int D) stream basepoint basepoint_value inv_flag initial
         initial_value
       = (case (if is_cuda path then
                  Inr (signature_forward_inner incs (make_reciprocals D) inv_flag S C D
                         (if stream then D3 ((empty3 S B W)[0 := ?F1]) else D2 ?F1))
                else if stream_threads_of env stream B N S W = 1 then
                  signature_forward_inner_cpu incs (dtype path) (make_reciprocals D) inv_flag
                    B 1 S C D (if stream then D3 ((empty3 S B W)[0 := ?F1]) else D2 ?F1)
                else
                  signature_forward_chunked env incs (dtype path) (make_reciprocals D) inv_flag
                    B S W C D (stream_threads_of env stream B N S W)
                    (data2 (if stream then D3 ((empty3 S B W)[0 := ?F1]) else D2 ?F1)))
          of Inl e \<Rightarrow> Inl e
           | Inr signature \<Rightarrow>
               Inr (\<lparr>sizes = (if stream then [S, B, W] else [B, W]),
                     dtype = dtype path, device = device path, contents = signature\<rparr>,
                    \<lparr>sizes = [S, B, C], dtype = dtype path, device = device path,
                     contents = D3 incs\<rparr>))"
    unfolding signature_forward_def chk option.case Let_def d co contents.case data3.simps
      incs_def [symmetric] nat_int S_def [symmetric] W_def [symmetric] ft0
    by (cases stream; cases initial) simp_all
  from ft run show ?thesis by (intro exI [of _ ?F1]) simp
qed


lemma stream_threads_pos:
  assumes "wf_env env" "1 \<le> B" "1 \<le> N"
  shows "1 \<le> stream_threads_of env stream B N S W"
proof -
  have "1 \<le> omp_max_threads env" using assms by (simp add: wf_env_def)
  then have "B \<le> omp_max_threads env + B - 1" by arith
  then have "1 \<le> (omp_max_threads env + B - 1) div B"
    using assms(2) by (simp add: Suc_le_eq div_greater_zero_iff)
  moreover have "1 \<le> (N + 2) div 3" using assms by simp
  ultimately show ?thesis
    using assms(1) by (simp add: stream_threads_of_def wf_env_def Let_def)
qed

lemma stream_threads_stream:
  assumes "wf_env env"
  shows "stream_threads_of env True B N S W = 1"
  using assms by (simp add: stream_threads_of_def wf_env_def)

lemma batch_row_take:
  assumes "s < length incs"
  shows "batch_row b (take (Suc s) incs) = incs ! 0 ! b # map (\<lambda>si. incs ! si ! b) [1..<Suc s]"
proof -
  have "take (Suc s) incs = map (\<lambda>si. incs ! si) [0..<Suc s]"
    using assms by (rule_tac nth_equalityI) (simp_all del: upt_Suc)
  also have "[0..<Suc s] = 0 # [1..<Suc s]" by (simp add: upt_conv_Cons del: upt_Suc)
  finally show ?thesis by (simp add: batch_row_def comp_def del: upt_Suc)
qed

lemma sig_fold_first:
  fixes inv_flag :: bool
  assumes f: "weq C D f (sig_fold inv_flag a0 [incs ! 0 ! b])"
    and g: "weq C D g (sig_fold inv_flag f (map (\<lambda>si. incs ! si ! b) [1..<Suc s]))"
    and s: "s < length incs"
  shows "weq C D g (sig_fold inv_flag a0 (batch_row b (take (Suc s) incs)))"
proof -
  have "weq C D (sig_fold inv_flag f (map (\<lambda>si. incs ! si ! b) [1..<Suc s]))
          (sig_fold inv_flag (sig_fold inv_flag a0 [incs ! 0 ! b])
             (map (\<lambda>si. incs ! si ! b) [1..<Suc s]))"
    using f by (rule sig_fold_weq)
  also have "sig_fold inv_flag (sig_fold inv_flag a0 [incs ! 0 ! b])
             (map (\<lambda>si. incs ! si ! b) [1..<Suc s])
      = sig_fold inv_flag a0 (batch_row b (take (Suc s) incs))"
    unfolding batch_row_take [OF s] by (simp add: sig_fold_Cons del: upt_Suc)
  finally show ?thesis using g weq_trans by blast
qed


lemma signature_forward_result:
  fixes inv_flag initial basepoint stream :: bool
  assumes sz: "sizes path = [N, B, C]" and co: "contents path = D3 P" and P: "shape3 N B C P"
    and pos: "1 \<le> B" "1 \<le> C" "1 \<le> D" and N: "1 \<le> N" "basepoint \<or> 2 \<le> N"
    and fl: "is_floating_point path"
    and bp: "basepoint \<Longrightarrow> sizes basepoint_value = [B, C]
               \<and> dtype basepoint_value = dtype path \<and> device basepoint_value = device path
               \<and> shape2 B C (data2 (contents basepoint_value))"
    and iv: "initial \<Longrightarrow> sizes initial_value = [B, signature_channels C D]
               \<and> dtype initial_value = dtype path \<and> device initial_value = device path
               \<and> shape2 B (signature_channels C D) (data2 (contents initial_value))"
    and dt: "is_cuda path \<or> dtype path = kFloat \<or> dtype path = kDouble"
    and env: "wf_env env"
  defines "incs \<equiv> compute_path_increments P basepoint (data2 (contents basepoint_value)) inv_flag"
    and "S \<equiv> N - (if basepoint then 0 else 1)"
    and "W \<equiv> signature_channels C D"
  shows "\<exists>sigc. signature_forward env path (int D) stream basepoint basepoint_value inv_flag
                  initial initial_value
           = Inr (\<lparr>sizes = (if stream then [S, B, W] else [B, W]),
                    dtype = dtype path, device = device path, contents = sigc\<rparr>,
                  \<lparr>sizes = [S, B, C], dtype = dtype path, device = device path,
                    contents = D3 incs\<rparr>)
         \<and> (if stream then
              length (data3 sigc) = S \<and> sigc = D3 (data3 sigc)
              \<and> (\<forall>s<S. is_signature B C D
                     (\<lambda>b. sig_fold inv_flag (sig_start C D initial initial_value b)
                             (batch_row b (take (Suc s) incs)))
                     (data3 sigc ! s))
            else
              sigc = D2 (data2 sigc)
              \<and> is_signature B C D
                   (\<lambda>b. sig_fold inv_flag (sig_start C D initial initial_value b)
                           (batch_row b incs))
                   (data2 sigc))"
proof -
  let ?a0 = "sig_start C D initial initial_value"
  let ?r = "make_reciprocals D"
  from signature_forward_unfold [OF sz co P pos N fl bp iv, where inv_flag = inv_flag
      and env = env and stream = stream]
  obtain F1 where F1: "is_signature B C D (\<lambda>b. sig_fold inv_flag (?a0 b) [incs ! 0 ! b]) F1"
    and run: "signature_forward env path (int D) stream basepoint basepoint_value inv_flag initial
         initial_value
       = (case (if is_cuda path then
                  Inr (signature_forward_inner incs ?r inv_flag S C D
                         (if stream then D3 ((empty3 S B W)[0 := F1]) else D2 F1))
                else if stream_threads_of env stream B N S W = 1 then
                  signature_forward_inner_cpu incs (dtype path) ?r inv_flag
                    B 1 S C D (if stream then D3 ((empty3 S B W)[0 := F1]) else D2 F1)
                else
                  signature_forward_chunked env incs (dtype path) ?r inv_flag
                    B S W C D (stream_threads_of env stream B N S W)
                    (data2 (if stream then D3 ((empty3 S B W)[0 := F1]) else D2 F1)))
          of Inl e \<Rightarrow> Inl e
           | Inr signature \<Rightarrow>
               Inr (\<lparr>sizes = (if stream then [S, B, W] else [B, W]),
                     dtype = dtype path, device = device path, contents = signature\<rparr>,
                    \<lparr>sizes = [S, B, C], dtype = dtype path, device = device path,
                     contents = D3 incs\<rparr>))"
    unfolding incs_def S_def W_def by blast
  have Wd: "W = width C C D" unfolding W_def using pos(2) by (rule signature_channels_width)
  have S1: "1 \<le> S" using N by (auto simp: S_def)
  have sh: "shape3 S B C incs"
    unfolding S_def incs_def using P N(1) bp by (intro increments_shape) simp_all
  then have x: "\<And>si. si < S \<Longrightarrow> shape2 B C (incs ! si)" and lincs: "length incs = S"
    by (simp_all add: shape3_iff)
  have F1s: "shape2 B (width C C D) F1" using F1 by (simp add: is_signature_def)
  have F1c: "\<And>b. b < B \<Longrightarrow> weq C D (row_coef C D F1 b) (sig_fold inv_flag (?a0 b) [incs ! 0 ! b])"
    using F1 by (simp add: is_signature_def)
  show ?thesis
  proof (cases stream)
    case True
    let ?S0 = "(empty3 S B W)[0 := F1]"
    let ?Sk = "stream_fold incs ?r inv_flag C D [1..<S] ?S0"
    have S00: "shape2 B (width C C D) (?S0 ! 0)" using S1 F1s by simp
    have lS0: "length ?S0 = S" by simp
    have xs: "\<forall>si. 1 \<le> si \<and> si < S \<longrightarrow> shape2 B C (incs ! si)" using x by simp
    have drv: "(if is_cuda path then
                  Inr (signature_forward_inner incs ?r inv_flag S C D (D3 ?S0))
                else signature_forward_inner_cpu incs (dtype path) ?r inv_flag B 1 S C D (D3 ?S0))
               = Inr (D3 ?Sk)"
    proof (cases "is_cuda path")
      case True
      then show ?thesis using inner_D3 [of S ?S0] by simp
    next
      case False
      with dt have "dtype path = kFloat \<or> dtype path = kDouble" by simp
      from inner_cpu_D3 [OF S00 S1 _ xs pos(3) recips_facts this, where inv_flag = inv_flag]
      show ?thesis using False by simp
    qed
    have res: "signature_forward env path (int D) stream basepoint basepoint_value inv_flag
                  initial initial_value
           = Inr (\<lparr>sizes = [S, B, W], dtype = dtype path, device = device path,
                    contents = D3 ?Sk\<rparr>,
                  \<lparr>sizes = [S, B, C], dtype = dtype path, device = device path,
                    contents = D3 incs\<rparr>)"
      using drv True stream_threads_stream [OF env] unfolding run
      by (cases "is_cuda path") simp_all
    obtain k where k: "S = Suc k" using S1 by (cases S) simp_all
    have xk: "\<forall>si. 1 \<le> si \<and> si \<le> k \<longrightarrow> shape2 B C (incs ! si)" using x k by simp
    have "Suc k \<le> length ?S0" using k by simp
    note sf = stream_fold_facts [OF S00 this xk pos(3) recips_facts, where inv_flag = inv_flag]
    have "is_signature B C D
            (\<lambda>b. sig_fold inv_flag (?a0 b) (batch_row b (take (Suc s) incs))) (?Sk ! s)"
      if s: "s < S" for s
    proof -
      from s k have sk: "s \<le> k" by simp
      have 1: "shape2 B (width C C D) (?Sk ! s)" using sf sk unfolding k by blast
      have 2: "weq C D (row_coef C D (?Sk ! s) b)
          (sig_fold inv_flag (row_coef C D F1 b) (map (\<lambda>si. incs ! si ! b) [1..<Suc s]))"
        if b: "b < B" for b
      proof -
        have "weq C D (row_coef C D (?Sk ! s) b)
          (sig_fold inv_flag (row_coef C D (?S0 ! 0) b) (map (\<lambda>si. incs ! si ! b) [1..<Suc s]))"
          using sf sk b unfolding k by blast
        then show ?thesis using S1 by simp
      qed
      have "weq C D (row_coef C D (?Sk ! s) b)
              (sig_fold inv_flag (?a0 b) (batch_row b (take (Suc s) incs)))" if b: "b < B" for b
        using F1c [OF b] 2 [OF b] by (rule sig_fold_first) (simp add: lincs s)
      with 1 show ?thesis by (simp add: is_signature_def)
    qed
    with res True show ?thesis by (intro exI [of _ "D3 ?Sk"]) simp
  next
    case False
    let ?T = "fold (sig_step incs ?r inv_flag C D) [1..<S] F1"
    have xs: "\<forall>si\<in>set [1..<S]. shape2 B C (incs ! si)" using x by simp
    note fs = fold_sig_steps [OF F1s xs pos(3) recips_facts, where inv_flag = inv_flag]
    obtain k where k: "S = Suc k" using S1 by (cases S) simp_all
    have "\<exists>T. (if is_cuda path then
                  Inr (signature_forward_inner incs ?r inv_flag S C D (D2 F1))
                else if stream_threads_of env stream B N S W = 1 then
                  signature_forward_inner_cpu incs (dtype path) ?r inv_flag B 1 S C D (D2 F1)
                else
                  signature_forward_chunked env incs (dtype path) ?r inv_flag
                    B S W C D (stream_threads_of env stream B N S W) F1) = Inr (D2 T)
              \<and> shape2 B (width C C D) T
              \<and> (\<forall>b<B. weq C D (row_coef C D T b)
                    (sig_fold inv_flag (row_coef C D F1 b) (map (\<lambda>si. incs ! si ! b) [1..<S])))"
    proof (cases "is_cuda path")
      case True
      then show ?thesis using fs by (simp add: inner_D2)
    next
      case nc: False
      with dt have dt': "dtype path = kFloat \<or> dtype path = kDouble" by simp
      show ?thesis
      proof (cases "stream_threads_of env stream B N S W = 1")
        case True
        with nc fs inner_cpu_D2 [OF F1s xs pos(3) recips_facts dt', where inv_flag = inv_flag]
        show ?thesis by simp
      next
        case False
        have xc: "\<forall>si. 1 \<le> si \<and> si < S \<longrightarrow> shape2 B C (incs ! si)" using x by simp
        have kk: "1 \<le> stream_threads_of env stream B N S W"
          using env pos(1) N(1) by (rule stream_threads_pos)
        let ?n = "team_size env (stream_threads_of env stream B N S W)"
        have n: "0 < ?n" using env kk by (simp add: wf_env_def Suc_le_eq)
        from chunked_result [OF F1s xc pos(3) recips_facts dt' kk env S1, where inv_flag = inv_flag]
        obtain T' where T': "signature_forward_chunked env incs (dtype path) ?r inv_flag B S
              (width C C D) C D (stream_threads_of env stream B N S W) F1 = Inr (D2 T')"
          "shape2 B (width C C D) T'"
          "\<forall>b<B. weq C D (row_coef C D T' b)
                 (foldl (conv_flag inv_flag) (row_coef C D F1 b)
                    (map (\<lambda>t. sig_fold inv_flag unitw
                                 (map (\<lambda>si. incs ! si ! b) [chunk_start S t ?n..<chunk_end S t ?n]))
                         [0..<?n]))"
          by blast
        have "\<forall>b<B. weq C D (row_coef C D T' b)
            (sig_fold inv_flag (row_coef C D F1 b) (map (\<lambda>si. incs ! si ! b) [1..<S]))"
          using T'(3) unfolding chunks_sig_fold [OF n S1] .
        with T'(1,2) nc False show ?thesis by (simp add: Wd)
      qed
    qed
    then obtain T where T: "(if is_cuda path then
                  Inr (signature_forward_inner incs ?r inv_flag S C D (D2 F1))
                else if stream_threads_of env stream B N S W = 1 then
                  signature_forward_inner_cpu incs (dtype path) ?r inv_flag B 1 S C D (D2 F1)
                else
                  signature_forward_chunked env incs (dtype path) ?r inv_flag
                    B S W C D (stream_threads_of env stream B N S W) F1) = Inr (D2 T)"
      and Ts: "shape2 B (width C C D) T"
      and Tc: "\<And>b. b < B \<Longrightarrow> weq C D (row_coef C D T b)
                    (sig_fold inv_flag (row_coef C D F1 b) (map (\<lambda>si. incs ! si ! b) [1..<S]))"
      by blast
    have res: "signature_forward env path (int D) stream basepoint basepoint_value inv_flag
                  initial initial_value
           = Inr (\<lparr>sizes = [B, W], dtype = dtype path, device = device path,
                    contents = D2 T\<rparr>,
                  \<lparr>sizes = [S, B, C], dtype = dtype path, device = device path,
                    contents = D3 incs\<rparr>)"
      unfolding run using T \<open>\<not> stream\<close>
      by (simp only: if_False data2.simps sum.case)
    have "weq C D (row_coef C D T b) (sig_fold inv_flag (?a0 b) (batch_row b incs))"
      if b: "b < B" for b
    proof -
      have "weq C D (row_coef C D T b)
              (sig_fold inv_flag (?a0 b) (batch_row b (take (Suc k) incs)))"
        using F1c [OF b] Tc [OF b, unfolded k] by (rule sig_fold_first) (simp add: lincs k)
      then show ?thesis using lincs k by simp
    qed
    with Ts have "is_signature B C D (\<lambda>b. sig_fold inv_flag (?a0 b) (batch_row b incs)) T"
      by (simp add: is_signature_def)
    with res \<open>\<not> stream\<close> show ?thesis by (intro exI [of _ "D2 T"]) simp
  qed
qed




section \<open>Chen's identity\<close>

lemma increments_split:
  assumes m: "1 \<le> m" "Suc m \<le> length P"
  shows "compute_path_increments P False bp False
       = compute_path_increments (take (Suc m) P) False bp False
         @ compute_path_increments (drop m P) False bp False"
proof (rule nth_equalityI)
  have l1: "1 \<le> length P" and l2: "1 \<le> length (take (Suc m) P)" and l3: "1 \<le> length (drop m P)"
    using m by simp_all
  note ip = increments_plain [OF l1, where bp = bp and inv_flag = False]
  note it = increments_plain [OF l2, where bp = bp and inv_flag = False]
  note id = increments_plain [OF l3, where bp = bp and inv_flag = False]
  show "length (compute_path_increments P False bp False)
      = length (compute_path_increments (take (Suc m) P) False bp False
                @ compute_path_increments (drop m P) False bp False)"
    using m by (simp add: ip(1) it(1) id(1))
  fix s assume "s < length (compute_path_increments P False bp False)"
  then have s: "s < length P - 1" by (simp add: ip(1))
  show "compute_path_increments P False bp False ! s
      = (compute_path_increments (take (Suc m) P) False bp False
         @ compute_path_increments (drop m P) False bp False) ! s"
  proof (cases "s < m")
    case True
    then show ?thesis
      using s m by (simp add: nth_append ip it)
  next
    case False
    then have "s - m < length (drop m P) - 1" using s m by simp
    with False show ?thesis
      using s m by (simp add: nth_append ip it id)
  qed
qed

lemma batch_row_append [simp]: "batch_row b (xs @ ys) = batch_row b xs @ batch_row b ys"
  by (simp add: batch_row_def)

lemma combine_signatures:
  assumes T1: "is_signature B C D (\<lambda>b. sig_fold False unitw (xs b)) T1"
    and T2: "is_signature B C D (\<lambda>b. sig_fold False unitw (ys b)) T2"
  shows "is_signature B C D (\<lambda>b. sig_fold False unitw (xs b @ ys b))
           (write_terms (mult (slice_by_term T1 C D) (slice_by_term T2 C D)) T1)"
proof -
  have s1: "shape2 B (width C C D) T1" and s2: "shape2 B (width C C D) T2"
    using T1 T2 by (simp_all add: is_signature_def)
  have A2: "tshape B C D (slice_by_term T2 C D)" using s2 by (rule tshape_slice_by_term)
  note mb = mult_buffer [OF s1 A2]
  have "weq C D (row_coef C D (write_terms (mult (slice_by_term T1 C D) (slice_by_term T2 C D)) T1) b)
          (sig_fold False unitw (xs b @ ys b))" if b: "b < B" for b
  proof -
    have "coef C (row_terms b (slice_by_term T2 C D)) = row_coef C D T2 b"
      using b s2 by (intro row_coef_slice) (simp add: shape2_length)
    with mb(2) [OF b]
    have 1: "weq C D (row_coef C D (write_terms (mult (slice_by_term T1 C D) (slice_by_term T2 C D)) T1) b)
        (conv (row_coef C D T1 b) (row_coef C D T2 b))" by simp
    have 2: "weq C D (conv (row_coef C D T1 b) (row_coef C D T2 b))
        (conv (sig_fold False unitw (xs b)) (sig_fold False unitw (ys b)))"
      using T1 T2 b by (intro conv_weq) (simp_all add: is_signature_def)
    have 3: "conv (sig_fold False unitw (xs b)) (sig_fold False unitw (ys b))
        = sig_fold False unitw (xs b @ ys b)"
      by (simp add: sig_fold_append sig_fold_right [symmetric])
    from 1 2 show ?thesis unfolding 3 by (rule weq_trans)
  qed
  with mb(1) show ?thesis by (simp add: is_signature_def)
qed


lemma signature_forward_plain:
  assumes P: "shape3 N B C P" and pos: "1 \<le> B" "1 \<le> C" "1 \<le> D" and N: "2 \<le> N"
    and dt: "dev = kCUDA \<and> scalar_t \<in> {kHalf, kBFloat16, kFloat, kDouble}
             \<or> scalar_t = kFloat \<or> scalar_t = kDouble"
    and env: "wf_env env"
  shows "\<exists>T. signature_forward env
                \<lparr>sizes = [N, B, C], dtype = scalar_t, device = dev, contents = D3 P\<rparr>
                (int D) False False bpv False False ivt
             = Inr (\<lparr>sizes = [B, signature_channels C D], dtype = scalar_t, device = dev,
                      contents = D2 T\<rparr>,
                    \<lparr>sizes = [N - 1, B, C], dtype = scalar_t, device = dev,
                      contents = D3 (compute_path_increments P False (data2 (contents bpv)) False)\<rparr>)
           \<and> is_signature B C D
                (\<lambda>b. sig_fold False unitw
                        (batch_row b (compute_path_increments P False (data2 (contents bpv)) False)))
                T"
proof -
  let ?path = "\<lparr>sizes = [N, B, C], dtype = scalar_t, device = dev, contents = D3 P\<rparr>"
  have 1: "sizes ?path = [N, B, C]" "contents ?path = D3 P" by simp_all
  have 2: "1 \<le> N" "False \<or> 2 \<le> N" using N by simp_all
  have 3: "is_floating_point ?path" using dt by (auto simp: is_floating_point_def)
  have 4: "is_cuda ?path \<or> dtype ?path = kFloat \<or> dtype ?path = kDouble"
    using dt by (auto simp: is_cuda_def)
  from signature_forward_result [OF 1 P pos 2 3 _ _ 4 env, where basepoint_value = bpv
      and initial = False and initial_value = ivt and inv_flag = False and stream = False]
  show ?thesis
    by (simp add: sig_start_def) metis
qed


text \<open>
  Claim C1 (Chen's identity). For a path of shape (N, B, C) with N \<ge> 2, depth D \<ge> 1 and
  a split index m with 1 \<le> m \<le> N - 2, the three calls of \<open>signature_forward\<close>
  (stream = false, no basepoint, no inverse, no initial) on the path, on \<open>path[:m+1]\<close> and
  on \<open>path[m:]\<close> return, and \<open>signature_combine_forward\<close> of the two sub-path
  signatures returns the signature of the whole path.
\<close>

theorem signature_forward_chen_identity:
  assumes P: "shape3 N B C P" and pos: "1 \<le> B" "1 \<le> C" "1 \<le> D"
    and m: "1 \<le> m" "m + 2 \<le> N"
    and dt: "dev = kCUDA \<and> scalar_t \<in> {kHalf, kBFloat16, kFloat, kDouble}
             \<or> scalar_t = kFloat \<or> scalar_t = kDouble"
    and env: "wf_env env"
  shows "\<exists>sig incs sig1 incs1 sig2 incs2.
           signature_forward env
             \<lparr>sizes = [N, B, C], dtype = scalar_t, device = dev, contents = D3 P\<rparr>
             (int D) False False bpv False False ivt = Inr (sig, incs)
         \<and> signature_forward env
             \<lparr>sizes = [m + 1, B, C], dtype = scalar_t, device = dev,
               contents = D3 (take (m + 1) P)\<rparr>
             (int D) False False bpv False False ivt = Inr (sig1, incs1)
         \<and> signature_forward env
             \<lparr>sizes = [N - m, B, C], dtype = scalar_t, device = dev,
               contents = D3 (drop m P)\<rparr>
             (int D) False False bpv False False ivt = Inr (sig2, incs2)
         \<and> signature_combine_forward sig1 sig2 C D = Inr sig"
proof -
  let ?bp = "data2 (contents bpv)"
  let ?W = "signature_channels C D"
  have lP: "length P = N" and rows: "\<And>s. s < N \<Longrightarrow> shape2 B C (P ! s)"
    using P by (simp_all add: shape3_iff)
  have P1: "shape3 (m + 1) B C (take (m + 1) P)"
    using m lP rows by (simp add: shape3_iff)
  have P2: "shape3 (N - m) B C (drop m P)"
    using m lP rows by (simp add: shape3_iff)
  have N: "2 \<le> N" "2 \<le> m + 1" "2 \<le> N - m" using m by simp_all
  from signature_forward_plain [OF P pos N(1) dt env, of bpv ivt]
  obtain T where T: "signature_forward env
        \<lparr>sizes = [N, B, C], dtype = scalar_t, device = dev, contents = D3 P\<rparr>
        (int D) False False bpv False False ivt
      = Inr (\<lparr>sizes = [B, ?W], dtype = scalar_t, device = dev, contents = D2 T\<rparr>,
             \<lparr>sizes = [N - 1, B, C], dtype = scalar_t, device = dev,
               contents = D3 (compute_path_increments P False ?bp False)\<rparr>)"
    and Ts: "is_signature B C D
        (\<lambda>b. sig_fold False unitw (batch_row b (compute_path_increments P False ?bp False))) T"
    by blast
  from signature_forward_plain [OF P1 pos N(2) dt env, of bpv ivt]
  obtain T1 where T1: "signature_forward env
        \<lparr>sizes = [m + 1, B, C], dtype = scalar_t, device = dev, contents = D3 (take (m + 1) P)\<rparr>
        (int D) False False bpv False False ivt
      = Inr (\<lparr>sizes = [B, ?W], dtype = scalar_t, device = dev, contents = D2 T1\<rparr>,
             \<lparr>sizes = [m + 1 - 1, B, C], dtype = scalar_t, device = dev,
               contents = D3 (compute_path_increments (take (m + 1) P) False ?bp False)\<rparr>)"
    and T1s: "is_signature B C D
        (\<lambda>b. sig_fold False unitw
                (batch_row b (compute_path_increments (take (m + 1) P) False ?bp False))) T1"
    by blast
  from signature_forward_plain [OF P2 pos N(3) dt env, of bpv ivt]
  obtain T2 where T2: "signature_forward env
        \<lparr>sizes = [N - m, B, C], dtype = scalar_t, device = dev, contents = D3 (drop m P)\<rparr>
        (int D) False False bpv False False ivt
      = Inr (\<lparr>sizes = [B, ?W], dtype = scalar_t, device = dev, contents = D2 T2\<rparr>,
             \<lparr>sizes = [N - m - 1, B, C], dtype = scalar_t, device = dev,
               contents = D3 (compute_path_increments (drop m P) False ?bp False)\<rparr>)"
    and T2s: "is_signature B C D
        (\<lambda>b. sig_fold False unitw
                (batch_row b (compute_path_increments (drop m P) False ?bp False))) T2"
    by blast
  let ?T' = "write_terms (mult (slice_by_term T1 C D) (slice_by_term T2 C D)) T1"
  have split: "compute_path_increments P False ?bp False
      = compute_path_increments (take (m + 1) P) False ?bp False
        @ compute_path_increments (drop m P) False ?bp False"
    using increments_split [of m P ?bp] m lP by simp
  have "is_signature B C D
      (\<lambda>b. sig_fold False unitw
              (batch_row b (compute_path_increments (take (m + 1) P) False ?bp False)
               @ batch_row b (compute_path_increments (drop m P) False ?bp False))) ?T'"
    using T1s T2s by (rule combine_signatures)
  with Ts have eq: "T = ?T'"
    by (rule is_signature_unique) (simp add: split)
  have "signature_combine_forward
          \<lparr>sizes = [B, ?W], dtype = scalar_t, device = dev, contents = D2 T1\<rparr>
          \<lparr>sizes = [B, ?W], dtype = scalar_t, device = dev, contents = D2 T2\<rparr> C D
      = Inr \<lparr>sizes = [B, ?W], dtype = scalar_t, device = dev, contents = D2 T\<rparr>"
    by (simp add: signature_combine_forward_def Let_def ndimension_def size_dim_def
        batch_dim_def channel_dim_def eq)
  with T T1 T2 show ?thesis by blast
qed


theorem signature_forward_chen_identity_witness:
  "\<exists>sig incs sig1 incs1 sig2 incs2.
     signature_forward \<lparr>omp_max_threads = 1, max_parallelism = 1, team_size = (\<lambda>k. k)\<rparr>
       \<lparr>sizes = [3, 1, 2], dtype = kDouble, device = kCPU,
         contents = D3 [[[0, 0]], [[1, 0]], [[1, 1]]]\<rparr>
       2 False False \<lparr>sizes = [], dtype = kDouble, device = kCPU, contents = D2 []\<rparr>
       False False \<lparr>sizes = [], dtype = kDouble, device = kCPU, contents = D2 []\<rparr>
       = Inr (sig, incs)
   \<and> signature_forward \<lparr>omp_max_threads = 1, max_parallelism = 1, team_size = (\<lambda>k. k)\<rparr>
       \<lparr>sizes = [2, 1, 2], dtype = kDouble, device = kCPU,
         contents = D3 [[[0, 0]], [[1, 0]]]\<rparr>
       2 False False \<lparr>sizes = [], dtype = kDouble, device = kCPU, contents = D2 []\<rparr>
       False False \<lparr>sizes = [], dtype = kDouble, device = kCPU, contents = D2 []\<rparr>
       = Inr (sig1, incs1)
   \<and> signature_forward \<lparr>omp_max_threads = 1, max_parallelism = 1, team_size = (\<lambda>k. k)\<rparr>
       \<lparr>sizes = [2, 1, 2], dtype = kDouble, device = kCPU,
         contents = D3 [[[1, 0]], [[1, 1]]]\<rparr>
       2 False False \<lparr>sizes = [], dtype = kDouble, device = kCPU, contents = D2 []\<rparr>
       False False \<lparr>sizes = [], dtype = kDouble, device = kCPU, contents = D2 []\<rparr>
       = Inr (sig2, incs2)
   \<and> signature_combine_forward sig1 sig2 2 2 = Inr sig"
  using signature_forward_chen_identity [of 3 1 2 "[[[0, 0]], [[1, 0]], [[1, 1]]]" 2 1 kCPU kDouble
      "\<lparr>omp_max_threads = 1, max_parallelism = 1, team_size = (\<lambda>k. k)\<rparr>"
      "\<lparr>sizes = [], dtype = kDouble, device = kCPU, contents = D2 []\<rparr>"
      "\<lparr>sizes = [], dtype = kDouble, device = kCPU, contents = D2 []\<rparr>"]
  by (simp add: shape3_def shape2_def wf_env_def numeral_2_eq_2)



section \<open>The prefixes kept by stream = true\<close>








section \<open>Calls with stream = false\<close>



section \<open>The inverse flag and the reversed path\<close>






section \<open>The result does not depend on the driver\<close>




section \<open>The buffers signature_forward writes\<close>

lemma unchanged_below_refl [simp]: "unchanged_below n s s"
  by (simp add: unchanged_below_def)

lemma unchanged_below_trans:
  "unchanged_below n s s' \<Longrightarrow> unchanged_below n s' s'' \<Longrightarrow> unchanged_below n s s''"
  by (auto simp: unchanged_below_def)

lemma alloc_facts:
  "fst (alloc c s) = top s" "top (snd (alloc c s)) = Suc (top s)"
  "heap (snd (alloc c s)) = (heap s)(top s := c)"
  by (simp_all add: alloc_def)

lemma alloc_unchanged: "n \<le> top s \<Longrightarrow> unchanged_below n s (snd (alloc c s))"
  by (simp add: unchanged_below_def alloc_def)

lemma write_buf_facts [simp]:
  "top (write_buf a c s) = top s" "heap (write_buf a c s) = (heap s)(a := c)"
  by (simp_all add: write_buf_def)

lemma write_buf_unchanged: "n \<le> a \<Longrightarrow> unchanged_below n s (write_buf a c s)"
  by (simp add: unchanged_below_def)

lemma fold_write_buf:
  "n \<le> a \<Longrightarrow> unchanged_below n s (fold (\<lambda>i s. write_buf a (f i s) s) xs s)
     \<and> top (fold (\<lambda>i s. write_buf a (f i s) s) xs s) = top s"
proof (induction xs arbitrary: s)
  case Nil
  then show ?case by simp
next
  case (Cons x xs)
  from Cons.IH [OF Cons.prems, of "write_buf a (f x s) s"]
    write_buf_unchanged [OF Cons.prems, of s "f x s"]
  show ?case by (auto intro: unchanged_below_trans)
qed

lemma compute_path_increments_st_frame:
  fixes basepoint inv_flag :: bool
  assumes "compute_path_increments_st path basepoint basepoint_value inv_flag s = (pinc, s')"
  shows "pinc = top s" "top s' = Suc (top s)" "unchanged_below (top s) s s'"
proof -
  have "pinc = top s \<and> top s' = Suc (top s) \<and> unchanged_below (top s) s s'"
  proof (cases basepoint)
    case True
    then show ?thesis
      using assms
      by (cases inv_flag)
        (auto simp add: compute_path_increments_st_def Let_def alloc_def unchanged_below_def)
  next
    case False
    then show ?thesis
      using assms
      by (cases inv_flag)
        (auto simp add: compute_path_increments_st_def Let_def alloc_def unchanged_below_def)
  qed
  then show "pinc = top s" "top s' = Suc (top s)" "unchanged_below (top s) s s'" by simp_all
qed

lemma signature_forward_inner_st_frame:
  assumes "n \<le> signature"
  shows "unchanged_below n s
           (signature_forward_inner_st path_increments r inv_flag S C D signature s)"
    and "top (signature_forward_inner_st path_increments r inv_flag S C D signature s) = top s"
  unfolding signature_forward_inner_st_def
  using fold_write_buf [OF assms, where s = s and xs = "[1..<S]"
      and f = "\<lambda>i s. signature_forward_inner_step (data3 (heap s path_increments)) r inv_flag
                      C D i (heap s signature)"]
  by simp_all

lemma signature_forward_inner_cpu_st_frame:
  assumes "n \<le> signature"
    and "signature_forward_inner_cpu_st path_increments scalar_t r inv_flag B start end C D
           signature s = Inr s'"
  shows "unchanged_below n s s'" "top s' = top s"
  using assms(2) fold_write_buf [OF assms(1), where s = s and xs = "[start..<end]"
      and f = "\<lambda>i s. signature_forward_inner_cpu_step (data3 (heap s path_increments)) r
                      inv_flag B C D i (heap s signature)"]
  by (auto simp: signature_forward_inner_cpu_st_def split: if_splits)

lemma signature_forward_inner_cpu_st_returns:
  assumes "scalar_t = kFloat \<or> scalar_t = kDouble"
  shows "\<exists>s'. signature_forward_inner_cpu_st path_increments scalar_t r inv_flag B start end C D
           signature s = Inr s'"
  using assms by (simp add: signature_forward_inner_cpu_st_def)

lemma omp_chunk_st_frame:
  assumes "omp_chunk_st path_increments scalar_t r inv_flag B S W C D num_threads t s
             = Inr (res, s')"
  shows "unchanged_below (top s) s s'"
proof (cases "chunk_start S t num_threads < chunk_end S t num_threads")
  case False
  with assms show ?thesis by (simp add: omp_chunk_st_def Let_def)
next
  case True
  let ?s1 = "snd (alloc (D2 (empty2 B W)) s)"
  let ?s2 = "write_buf (top s)
               (D2 (write_terms
                      (restricted_exp (data3 (heap ?s1 path_increments) ! chunk_start S t num_threads)
                         (slice_by_term (data2 (heap ?s1 (top s))) C D) r)
                      (data2 (heap ?s1 (top s))))) ?s1"
  from assms True
  have run: "signature_forward_inner_cpu_st path_increments scalar_t r inv_flag B
      (chunk_start S t num_threads + 1) (chunk_end S t num_threads) C D (top s) ?s2 = Inr s'"
    by (auto simp: omp_chunk_st_def Let_def alloc_def split: sum.splits)
  have "unchanged_below (top s) s ?s1" by (rule alloc_unchanged) simp
  moreover have "unchanged_below (top s) ?s1 ?s2" by (rule write_buf_unchanged) simp
  moreover have "unchanged_below (top s) ?s2 s'"
    using _ run by (rule signature_forward_inner_cpu_st_frame) simp
  ultimately show ?thesis by (blast intro: unchanged_below_trans)
qed

lemma omp_chunk_st_returns:
  assumes "scalar_t = kFloat \<or> scalar_t = kDouble"
  shows "\<exists>res s'. omp_chunk_st path_increments scalar_t r inv_flag B S W C D num_threads t s
             = Inr (res, s')"
  using assms
  by (simp add: omp_chunk_st_def Let_def signature_forward_inner_cpu_st_def split: prod.splits)

lemma unchanged_below_mono:
  "unchanged_below m s s' \<Longrightarrow> n \<le> m \<Longrightarrow> unchanged_below n s s'"
  by (simp add: unchanged_below_def)

lemma omp_region_st_frame:
  assumes "\<And>t s res s'. thread t s = Inr (res, s') \<Longrightarrow> unchanged_below (top s) s s'"
    and "omp_region_st thread ts s = Inr (rs, s')"
  shows "unchanged_below (top s) s s'"
  using assms(2)
proof (induction ts arbitrary: s rs)
  case Nil
  then show ?case by simp
next
  case (Cons t ts)
  from Cons.prems obtain r s1 rs' where 1: "thread t s = Inr (r, s1)"
    and 2: "omp_region_st thread ts s1 = Inr (rs', s')"
    by (auto split: sum.splits prod.splits)
  from assms(1) [OF 1] have a: "unchanged_below (top s) s s1" .
  then have "top s \<le> top s1" by (simp add: unchanged_below_def)
  with Cons.IH [OF 2] have "unchanged_below (top s) s1 s'" by (rule unchanged_below_mono)
  with a show ?case by (rule unchanged_below_trans)
qed

lemma omp_region_st_returns:
  assumes "\<And>t s. \<exists>res s'. thread t s = Inr (res, s')"
  shows "\<exists>rs s'. omp_region_st thread ts s = Inr (rs, s')"
proof (induction ts arbitrary: s)
  case Nil
  then show ?case by simp
next
  case (Cons t ts)
  from assms [of t s] obtain r s1 where 1: "thread t s = Inr (r, s1)" by blast
  from Cons [of s1] obtain rs s2 where 2: "omp_region_st thread ts s1 = Inr (rs, s2)" by blast
  from 1 2 show ?case by simp
qed

lemma combine_chunks_st_frame:
  assumes "n \<le> signature"
  shows "unchanged_below n s (combine_chunks_st omp_results k inv_flag C D signature s)"
proof -
  have "unchanged_below n s
      (fold (\<lambda>thread_index s.
             case omp_results ! thread_index of
               Some chunk \<Rightarrow>
                 write_buf signature
                   (D2 (write_terms
                          (mult_inverse (slice_by_term (data2 (heap s signature)) C D)
                             (slice_by_term (data2 (heap s chunk)) C D) inv_flag)
                          (data2 (heap s signature)))) s
             | None \<Rightarrow> s) xs s)" for xs
  proof (induction xs arbitrary: s)
    case Nil
    then show ?case by simp
  next
    case (Cons x xs)
    show ?case
    proof (cases "omp_results ! x")
      case None
      with Cons show ?thesis by simp
    next
      case (Some chunk)
      let ?s1 = "write_buf signature
                   (D2 (write_terms
                          (mult_inverse (slice_by_term (data2 (heap s signature)) C D)
                             (slice_by_term (data2 (heap s chunk)) C D) inv_flag)
                          (data2 (heap s signature)))) s"
      have "unchanged_below n s ?s1" using assms by (rule write_buf_unchanged)
      with Cons [of ?s1] Some show ?thesis
        by (auto intro: unchanged_below_trans)
    qed
  qed
  then show ?thesis by (simp add: combine_chunks_st_def)
qed

lemma signature_forward_chunked_st_frame:
  assumes "n \<le> signature" "n \<le> top s"
    and "signature_forward_chunked_st env path_increments scalar_t r inv_flag B S W C D k
           signature s = Inr s'"
  shows "unchanged_below n s s'"
proof -
  let ?th = "omp_chunk_st path_increments scalar_t r inv_flag B S W C D (team_size env k)"
  from assms(3) obtain rs s1 where 1: "omp_region_st ?th [0..<team_size env k] s = Inr (rs, s1)"
    and 2: "s' = combine_chunks_st (rs @ replicate (k - team_size env k) None) k inv_flag C D
               signature s1"
    by (auto simp: signature_forward_chunked_st_def Let_def split: sum.splits prod.splits)
  have "unchanged_below (top s) s s1"
    using _ 1 by (rule omp_region_st_frame) (rule omp_chunk_st_frame)
  then have "unchanged_below n s s1" using assms(2) by (rule unchanged_below_mono)
  moreover have "unchanged_below n s1 s'" unfolding 2 using assms(1) by (rule combine_chunks_st_frame)
  ultimately show ?thesis by (rule unchanged_below_trans)
qed

lemma signature_forward_chunked_st_returns:
  assumes "scalar_t = kFloat \<or> scalar_t = kDouble"
  shows "\<exists>s'. signature_forward_chunked_st env path_increments scalar_t r inv_flag B S W C D k
           signature s = Inr s'"
proof -
  let ?th = "omp_chunk_st path_increments scalar_t r inv_flag B S W C D (team_size env k)"
  have "\<exists>rs s'. omp_region_st ?th [0..<team_size env k] s = Inr (rs, s')"
    by (rule omp_region_st_returns) (rule omp_chunk_st_returns [OF assms])
  then show ?thesis
    by (auto simp: signature_forward_chunked_st_def Let_def)
qed

text \<open>
  Claim C9 (frame property of the forward pass). On an input that
  \<open>signature_checkargs\<close> accepts and whose element type the driver supports, the call of
  \<open>signature_forward\<close> returns and leaves every buffer that was allocated before the call
  as it was; in particular \<open>path\<close>, \<open>basepoint_value\<close> and \<open>initial_value\<close> hold what
  they held. The signature and the increments it returns are buffers allocated during
  the call.
\<close>

theorem signature_forward_frame:
  fixes stream basepoint inv_flag initial :: bool
  assumes valid: "signature_checkargs (load s path) depth basepoint (load s basepoint_value)
                    initial (load s initial_value) = None"
    and dt: "ref_device path = kCUDA \<or> ref_dtype path = kFloat \<or> ref_dtype path = kDouble"
    and allocated: "ref_addr path < top s" "ref_addr basepoint_value < top s"
      "ref_addr initial_value < top s"
  shows "\<exists>sig incs s'.
           signature_forward_st env path depth stream basepoint basepoint_value inv_flag initial
             initial_value s = Inr ((sig, incs), s')
         \<and> load s' path = load s path
         \<and> load s' basepoint_value = load s basepoint_value
         \<and> load s' initial_value = load s initial_value
         \<and> (\<forall>a<top s. heap s' a = heap s a)
         \<and> top s \<le> ref_addr sig \<and> ref_addr sig < top s'
         \<and> top s \<le> ref_addr incs \<and> ref_addr incs < top s'"
proof -
  let ?B = "size_dim (load s path) batch_dim"
  let ?N = "size_dim (load s path) stream_dim"
  let ?C = "size_dim (load s path) channel_dim"
  let ?S = "?N - (if basepoint then 0 else 1)"
  let ?W = "signature_channels ?C (nat depth)"
  let ?r = "make_reciprocals (nat depth)"
  obtain pinc s1 where cpi: "compute_path_increments_st (ref_addr path) basepoint
      (ref_addr basepoint_value) inv_flag s = (pinc, s1)"
    by (cases "compute_path_increments_st (ref_addr path) basepoint
      (ref_addr basepoint_value) inv_flag s") blast
  note f1 = compute_path_increments_st_frame [OF cpi]
  define sg where "sg = top s1"
  define s2 where "s2 = snd (alloc (if stream then D3 (empty3 ?S ?B ?W) else D2 (empty2 ?B ?W)) s1)"
  define s3 where "s3 = (if initial then
                      write_buf sg
                        (set_first_term (data2 (heap s2 (ref_addr initial_value)))
                           (heap s2 sg)) s2
                    else s2)"
  define terms where "terms = (if initial then
                   mult_fused_restricted_exp (data3 (heap s3 pinc) ! 0)
                     (slice_by_term (first_term_of (heap s3 sg)) ?C (nat depth))
                     inv_flag ?r
                 else
                   restricted_exp (data3 (heap s3 pinc) ! 0)
                     (slice_by_term (first_term_of (heap s3 sg)) ?C (nat depth)) ?r)"
  define s4 where "s4 = write_buf sg
                     (set_first_term (write_terms terms (first_term_of (heap s3 sg)))
                        (heap s3 sg)) s3"
  define k where "k = stream_threads_of env stream ?B ?N ?S ?W"
  define driven where "driven =
                (if is_cuda (load s path) then
                   Inr (signature_forward_inner_st pinc ?r inv_flag ?S ?C (nat depth) sg s4)
                 else if k = 1 then
                   signature_forward_inner_cpu_st pinc (ref_dtype path) ?r
                     inv_flag ?B 1 ?S ?C (nat depth) sg s4
                 else
                   signature_forward_chunked_st env pinc (ref_dtype path) ?r
                     inv_flag ?B ?S ?W ?C (nat depth) k sg s4)"
  have al: "alloc (if stream then D3 (empty3 ?S ?B ?W) else D2 (empty2 ?B ?W)) s1 = (sg, s2)"
    by (simp add: sg_def s2_def alloc_def)
  have run: "signature_forward_st env path depth stream basepoint basepoint_value inv_flag initial
             initial_value s
      = (case driven of
           Inl e \<Rightarrow> Inl e
         | Inr s5 \<Rightarrow>
             Inr ((\<lparr>ref_sizes = (if stream then [?S, ?B, ?W] else [?B, ?W]),
                     ref_dtype = ref_dtype path, ref_device = ref_device path, ref_addr = sg\<rparr>,
                   \<lparr>ref_sizes = [?S, ?B, ?C],
                     ref_dtype = ref_dtype path, ref_device = ref_device path, ref_addr = pinc\<rparr>),
                  s5))"
    unfolding signature_forward_st_def valid option.case Let_def cpi prod.case al
      s3_def [symmetric] terms_def [symmetric] s4_def [symmetric] k_def [symmetric]
      driven_def [symmetric] ..
  have sg: "top s \<le> sg" "top s2 = Suc sg" "sg = Suc (top s)"
    using f1 by (simp_all add: sg_def s2_def alloc_def)
  have u1: "unchanged_below (top s) s s1" by (rule f1)
  have "unchanged_below (top s1) s1 s2" unfolding s2_def by (rule alloc_unchanged) simp
  moreover have "top s \<le> top s1" using f1(2) by simp
  ultimately have u2: "unchanged_below (top s) s1 s2" by (rule unchanged_below_mono)
  have u3: "unchanged_below (top s) s2 s3"
    unfolding s3_def using sg(1) by (simp add: write_buf_unchanged)
  have u4: "unchanged_below (top s) s3 s4"
    unfolding s4_def using sg(1) by (rule write_buf_unchanged)
  have t4: "top s4 = Suc sg" using sg(2) by (simp add: s4_def s3_def)
  have u04: "unchanged_below (top s) s s4"
    using u1 u2 u3 u4 by (blast intro: unchanged_below_trans)
  have "\<exists>s5. driven = Inr s5 \<and> unchanged_below (top s) s4 s5"
  proof (cases "is_cuda (load s path)")
    case True
    then show ?thesis
      using signature_forward_inner_st_frame(1) [OF sg(1)] by (simp add: driven_def)
  next
    case False
    with dt have dt': "ref_dtype path = kFloat \<or> ref_dtype path = kDouble"
      by (simp add: is_cuda_def load_def)
    show ?thesis
    proof (cases "k = 1")
      case True
      from signature_forward_inner_cpu_st_returns [OF dt']
      obtain s5 where 5: "signature_forward_inner_cpu_st pinc (ref_dtype path) ?r
                     inv_flag ?B 1 ?S ?C (nat depth) sg s4 = Inr s5" by blast
      from signature_forward_inner_cpu_st_frame(1) [OF sg(1) 5] 5 True False
      show ?thesis by (simp add: driven_def)
    next
      case k: False
      from signature_forward_chunked_st_returns [OF dt']
      obtain s5 where 5: "signature_forward_chunked_st env pinc (ref_dtype path) ?r
                     inv_flag ?B ?S ?W ?C (nat depth) k sg s4 = Inr s5" by blast
      have "top s \<le> top s4" using t4 sg(1) by simp
      from signature_forward_chunked_st_frame [OF sg(1) this 5] 5 k False
      show ?thesis by (simp add: driven_def)
    qed
  qed
  then obtain s5 where 5: "driven = Inr s5" and u5: "unchanged_below (top s) s4 s5" by blast
  from u04 u5 have u: "unchanged_below (top s) s s5" by (rule unchanged_below_trans)
  then have same: "\<forall>a<top s. heap s5 a = heap s a" by (simp add: unchanged_below_def)
  have "top s4 \<le> top s5" using u5 by (simp add: unchanged_below_def)
  then have lt: "sg < top s5" "pinc < top s5" using t4 f1(1) sg(1) by simp_all
  show ?thesis
    unfolding run 5 using same allocated sg(1) lt f1(1)
    by (simp add: load_def)
qed


theorem signature_forward_frame_witness:
  "\<exists>sig incs s'.
     signature_forward_st \<lparr>omp_max_threads = 1, max_parallelism = 1, team_size = (\<lambda>k. k)\<rparr>
       \<lparr>ref_sizes = [2, 1, 2], ref_dtype = kDouble, ref_device = kCPU, ref_addr = 0\<rparr>
       2 False True
       \<lparr>ref_sizes = [1, 2], ref_dtype = kDouble, ref_device = kCPU, ref_addr = 1\<rparr>
       True True
       \<lparr>ref_sizes = [1, 6], ref_dtype = kDouble, ref_device = kCPU, ref_addr = 2\<rparr>
       \<lparr>heap = (\<lambda>a. D2 [])(0 := D3 [[[1, 0]], [[1, 1]]], 1 := D2 [[0, 0]],
                                2 := D2 [[1, 2, 3, 4, 5, 6]]),
         top = 3\<rparr>
       = Inr ((sig, incs), s')
   \<and> heap s' 0 = D3 [[[1, 0]], [[1, 1]]] \<and> heap s' 1 = D2 [[0, 0]]
   \<and> heap s' 2 = D2 [[1, 2, 3, 4, 5, 6]]
   \<and> 3 \<le> ref_addr sig \<and> 3 \<le> ref_addr incs"
proof -
  let ?s = "\<lparr>heap = (\<lambda>a. D2 [])(0 := D3 [[[1, 0]], [[1, 1]]], 1 := D2 [[0, 0]],
                                2 := D2 [[1, 2, 3, 4, 5 :: real, 6]]),
             top = 3\<rparr>"
  let ?path = "\<lparr>ref_sizes = [2, 1, 2], ref_dtype = kDouble, ref_device = kCPU, ref_addr = 0\<rparr>"
  let ?bpv = "\<lparr>ref_sizes = [1, 2], ref_dtype = kDouble, ref_device = kCPU, ref_addr = 1\<rparr>"
  let ?ivt = "\<lparr>ref_sizes = [1, 6], ref_dtype = kDouble, ref_device = kCPU, ref_addr = 2\<rparr>"
  have valid: "signature_checkargs (load ?s ?path) 2 True (load ?s ?bpv) True (load ?s ?ivt) = None"
    by (simp add: signature_checkargs_def load_def ndimension_def size_dim_def batch_dim_def
        stream_dim_def channel_dim_def is_floating_point_def make_opts_def
        signature_channels_def)
  have dt: "ref_device ?path = kCUDA \<or> ref_dtype ?path = kFloat \<or> ref_dtype ?path = kDouble"
    by simp
  have al: "ref_addr ?path < top ?s" "ref_addr ?bpv < top ?s" "ref_addr ?ivt < top ?s"
    by simp_all
  from signature_forward_frame [OF valid dt al,
      of "\<lparr>omp_max_threads = 1, max_parallelism = 1, team_size = (\<lambda>k. k)\<rparr>" False True]
  obtain sig incs s' where run: "signature_forward_st
       \<lparr>omp_max_threads = 1, max_parallelism = 1, team_size = (\<lambda>k. k)\<rparr>
       ?path 2 False True ?bpv True True ?ivt ?s = Inr ((sig, incs), s')"
    and same: "\<forall>a<top ?s. heap s' a = heap ?s a"
    and fresh: "top ?s \<le> ref_addr sig" "top ?s \<le> ref_addr incs"
    by blast
  have "heap s' 0 = heap ?s 0" "heap s' 1 = heap ?s 1" "heap s' 2 = heap ?s 2"
    using same by simp_all
  with run fresh show ?thesis by simp
qed


section \<open>The buffers signature_backward writes\<close>

lemma fold_unchanged:
  assumes "\<And>i s. unchanged_below n s (f i s) \<and> top (f i s) = top s"
  shows "unchanged_below n s (fold f xs s) \<and> top (fold f xs s) = top s"
proof (induction xs arbitrary: s)
  case Nil
  then show ?case by simp
next
  case (Cons x xs)
  from Cons.IH [of "f x s"] assms [of s x]
  show ?case by (auto intro: unchanged_below_trans)
qed

lemma compute_path_increments_backward_st_frame:
  fixes basepoint inv_flag :: bool
  assumes "compute_path_increments_backward_st grad_path_increments basepoint inv_flag S B C s
             = ((grad_path, grad_basepoint_value), s')"
  shows "grad_path = top s"
    and "grad_basepoint_value = grad_path_increments \<or> top s \<le> grad_basepoint_value"
    and "unchanged_below (top s) s s'"
proof -
  have "grad_path = top s
      \<and> (grad_basepoint_value = grad_path_increments \<or> top s \<le> grad_basepoint_value)
      \<and> unchanged_below (top s) s s'"
  proof (cases basepoint)
    case True
    then show ?thesis
      using assms
      by (cases inv_flag)
        (auto simp add: compute_path_increments_backward_st_def Let_def alloc_def
          unchanged_below_def)
  next
    case False
    then show ?thesis
      using assms
      by (cases inv_flag)
        (auto simp add: compute_path_increments_backward_st_def Let_def alloc_def
          unchanged_below_def)
  qed
  then show "grad_path = top s"
    and "grad_basepoint_value = grad_path_increments \<or> top s \<le> grad_basepoint_value"
    and "unchanged_below (top s) s s'"
    by simp_all
qed

lemma signature_backward_step_frame:
  fixes stream inv_flag :: bool
  assumes "n \<le> grad_signature_at_stream" "stream \<or> n \<le> signature_at_stream"
    and "n \<le> grad_path_increments"
  shows "unchanged_below n s
           (signature_backward_step grad_signature signature path_increments r stream inv_flag
              C depth grad_signature_at_stream signature_at_stream grad_path_increments i s)
       \<and> top (signature_backward_step grad_signature signature path_increments r stream inv_flag
              C depth grad_signature_at_stream signature_at_stream grad_path_increments i s)
           = top s"
  using assms
  by (cases stream)
    (auto simp add: signature_backward_step_def Let_def unchanged_below_def split: prod.splits)

lemma signature_backward_first_st_frame:
  fixes stream inv_flag initial :: bool
  assumes "n \<le> grad_signature_at_stream" "stream \<or> n \<le> signature_at_stream"
    and "n \<le> grad_path_increments" "n \<le> top s"
  shows "unchanged_below n s
           (signature_backward_first_st signature path_increments r stream inv_flag initial
              C depth grad_signature_at_stream signature_at_stream grad_path_increments s)"
  using assms
  by (cases stream; cases initial)
    (auto simp add: signature_backward_first_st_def Let_def unchanged_below_def alloc_def
      split: prod.splits)

text \<open>
  Claim C10 (frame property of the backward pass). The arguments are tensors allocated in the
  store, of the shapes the forward pass gives them: \<open>path_increments\<close> of sizes (S, B, C)
  with at least one increment, \<open>signature\<close> and \<open>grad_signature\<close> of sizes (S, B, W) with
  \<open>stream\<close> and (B, W) without, where W = \<open>signature_channels C depth\<close>. Then
  \<open>signature_backward\<close> returns, and in the store it leaves \<open>grad_signature\<close>,
  \<open>signature\<close> and \<open>path_increments\<close> hold what they held before, as does every buffer
  that was allocated before the call: the in-place rollback of the signature, the updates of
  \<open>grad_signature_at_stream\<close> and the writes into \<open>grad_path_increments\<close> and \<open>grad_path\<close>
  all land in buffers allocated by the call, and the three results live in such buffers.
\<close>

theorem signature_backward_frame:
  fixes stream basepoint inv_flag initial :: bool
  assumes sizes: "ref_sizes path_increments = [S, B, C]" "1 \<le> S" "1 \<le> depth"
      "ref_sizes signature = (if stream then [S, B, signature_channels C depth]
                              else [B, signature_channels C depth])"
      "ref_sizes grad_signature = ref_sizes signature"
    and shapes: "holds (ref_sizes path_increments) (heap s (ref_addr path_increments))"
      "holds (ref_sizes signature) (heap s (ref_addr signature))"
      "holds (ref_sizes grad_signature) (heap s (ref_addr grad_signature))"
    and allocated: "ref_addr grad_signature < top s" "ref_addr signature < top s"
      "ref_addr path_increments < top s"
  shows "\<exists>grad_path grad_basepoint_value grad_initial_value s'.
           signature_backward_st grad_signature signature path_increments depth stream basepoint
             inv_flag initial s
             = ((grad_path, grad_basepoint_value, grad_initial_value), s')
         \<and> load s' grad_signature = load s grad_signature
         \<and> load s' signature = load s signature
         \<and> load s' path_increments = load s path_increments
         \<and> (\<forall>a<top s. heap s' a = heap s a)
         \<and> top s \<le> ref_addr grad_path \<and> ref_addr grad_path < top s'
         \<and> top s \<le> ref_addr grad_basepoint_value \<and> ref_addr grad_basepoint_value < top s'
         \<and> top s \<le> ref_addr grad_initial_value \<and> ref_addr grad_initial_value < top s'"
proof -
  let ?r = "make_reciprocals depth"
  let ?S = "size_dim (load s path_increments) stream_dim"
  let ?B = "size_dim (load s path_increments) batch_dim"
  let ?C = "size_dim (load s path_increments) channel_dim"
  define s1 where "s1 = snd (alloc (D2 (if stream
       then last (data3 (heap s (ref_addr grad_signature)))
       else data2 (heap s (ref_addr grad_signature)))) s)"
  define sas where "sas = (if stream then ref_addr signature else top s1)"
  define s2 where "s2 = (if stream then s1
       else snd (alloc (D2 (data2 (heap s1 (ref_addr signature)))) s1))"
  define gpi where "gpi = top s2"
  define s3 where
    "s3 = snd (alloc (D3 (empty_like3 (data3 (heap s2 (ref_addr path_increments))))) s2)"
  define s4 where "s4 = fold (signature_backward_step (ref_addr grad_signature)
       (ref_addr signature) (ref_addr path_increments) ?r stream inv_flag ?C depth (top s) sas
       gpi) (rev [1..<?S]) s3"
  define s5 where "s5 = signature_backward_first_st (ref_addr signature)
       (ref_addr path_increments) ?r stream inv_flag initial ?C depth (top s) sas gpi s4"
  obtain gp gbv s6 where cp: "compute_path_increments_backward_st gpi basepoint inv_flag
       ?S ?B ?C s5 = ((gp, gbv), s6)"
    by (metis surj_pair)
  have a1: "alloc (D2 (if stream then last (data3 (heap s (ref_addr grad_signature)))
                       else data2 (heap s (ref_addr grad_signature)))) s = (top s, s1)"
    by (simp add: s1_def alloc_def)
  have a2: "(if stream then (ref_addr signature, s1)
             else alloc (D2 (data2 (heap s1 (ref_addr signature)))) s1) = (sas, s2)"
    by (simp add: sas_def s2_def alloc_def)
  have a3: "alloc (D3 (empty_like3 (data3 (heap s2 (ref_addr path_increments))))) s2 = (gpi, s3)"
    by (simp add: gpi_def s3_def alloc_def)
  have run: "signature_backward_st grad_signature signature path_increments depth stream basepoint
        inv_flag initial s
      = ((\<lparr>ref_sizes = [?S + (if basepoint then 0 else 1), ?B, ?C],
            ref_dtype = ref_dtype signature, ref_device = ref_device signature, ref_addr = gp\<rparr>,
          \<lparr>ref_sizes = (if basepoint then [?B, ?C] else [0]),
            ref_dtype = ref_dtype signature, ref_device = ref_device signature, ref_addr = gbv\<rparr>,
          \<lparr>ref_sizes = [?B, signature_channels ?C depth],
            ref_dtype = ref_dtype signature, ref_device = ref_device signature,
            ref_addr = top s\<rparr>),
         s6)"
    unfolding signature_backward_st_def Let_def a1 prod.case a2 a3
      s4_def [symmetric] s5_def [symmetric] cp ..
  have t1: "top s1 = Suc (top s)" by (simp add: s1_def alloc_def)
  have u1: "unchanged_below (top s) s s1" unfolding s1_def by (rule alloc_unchanged) simp
  have t2: "top s \<le> top s2" "top s1 \<le> top s2" using t1 by (simp_all add: s2_def alloc_def)
  have u2: "unchanged_below (top s) s1 s2"
    using t1 by (simp add: s2_def alloc_unchanged)
  have t3: "top s3 = Suc gpi" by (simp add: s3_def gpi_def alloc_def)
  have u3: "unchanged_below (top s) s2 s3"
    unfolding s3_def using t2(1) by (rule alloc_unchanged)
  have sas: "stream \<or> top s \<le> sas" using t1 by (simp add: sas_def)
  have gpi: "top s \<le> gpi" using t2(1) by (simp add: gpi_def)
  have u4: "unchanged_below (top s) s3 s4 \<and> top s4 = top s3"
    unfolding s4_def
    by (rule fold_unchanged) (rule signature_backward_step_frame [OF order_refl sas gpi])
  have t4: "top s \<le> top s4" using u4 t3 gpi by simp
  have u5: "unchanged_below (top s) s4 s5"
    unfolding s5_def by (rule signature_backward_first_st_frame [OF order_refl sas gpi t4])
  have t5: "top s4 \<le> top s5" using u5 by (simp add: unchanged_below_def)
  note f = compute_path_increments_backward_st_frame [OF cp]
  have "unchanged_below (top s) s5 s6"
    using f(3) by (rule unchanged_below_mono) (use t4 t5 in simp)
  with u1 u2 u3 u4 u5 have u: "unchanged_below (top s) s s6"
    by (blast intro: unchanged_below_trans)
  then have same: "\<forall>a<top s. heap s6 a = heap s a" by (simp add: unchanged_below_def)
  have t6: "Suc (top s5) \<le> top s6"
    using cp
    by (cases basepoint; cases inv_flag)
      (auto simp add: compute_path_increments_backward_st_def Let_def alloc_def)
  have lt: "top s < top s6" "gpi < top s6" "gp < top s6"
    using t6 t5 u4 t3 gpi f(1) by simp_all
  have gbv: "top s \<le> gbv \<and> gbv < top s6"
    using cp gpi lt(2) t4 t5
    by (cases basepoint; cases inv_flag)
      (auto simp add: compute_path_increments_backward_st_def Let_def alloc_def)
  have gp: "top s \<le> gp" using f(1) t4 t5 by simp
  show ?thesis
    unfolding run using same allocated lt gbv gp
    by (simp add: load_def)
qed

theorem signature_backward_frame_witness:
  "\<exists>grad_path grad_basepoint_value grad_initial_value s'.
     signature_backward_st
       \<lparr>ref_sizes = [1, 6], ref_dtype = kDouble, ref_device = kCPU, ref_addr = 0\<rparr>
       \<lparr>ref_sizes = [1, 6], ref_dtype = kDouble, ref_device = kCPU, ref_addr = 1\<rparr>
       \<lparr>ref_sizes = [2, 1, 2], ref_dtype = kDouble, ref_device = kCPU, ref_addr = 2\<rparr>
       2 False False False False
       \<lparr>heap = (\<lambda>a. D2 [])(0 := D2 [[1, 0, 0, 0, 0, 0]], 1 := D2 [[1, 1, 1 / 2, 1, 0, 1 / 2]],
                                2 := D3 [[[1, 0]], [[0, 1]]]),
         top = 3\<rparr>
       = ((grad_path, grad_basepoint_value, grad_initial_value), s')
   \<and> heap s' 0 = D2 [[1, 0, 0, 0, 0, 0]] \<and> heap s' 1 = D2 [[1, 1, 1 / 2, 1, 0, 1 / 2]]
   \<and> heap s' 2 = D3 [[[1, 0]], [[0, 1]]]
   \<and> 3 \<le> ref_addr grad_path \<and> 3 \<le> ref_addr grad_basepoint_value
   \<and> 3 \<le> ref_addr grad_initial_value"
proof -
  let ?s = "\<lparr>heap = (\<lambda>a. D2 [])(0 := D2 [[1, 0, 0, 0, 0, 0]],
                                1 := D2 [[1, 1, 1 / 2, 1, 0, 1 / 2 :: real]],
                                2 := D3 [[[1, 0]], [[0, 1]]]),
             top = 3\<rparr>"
  let ?gs = "\<lparr>ref_sizes = [1, 6], ref_dtype = kDouble, ref_device = kCPU, ref_addr = 0\<rparr>"
  let ?sg = "\<lparr>ref_sizes = [1, 6], ref_dtype = kDouble, ref_device = kCPU, ref_addr = 1\<rparr>"
  let ?pinc = "\<lparr>ref_sizes = [2, 1, 2], ref_dtype = kDouble, ref_device = kCPU, ref_addr = 2\<rparr>"
  have sizes: "ref_sizes ?pinc = [2, 1, 2]" "1 \<le> (2 :: nat)" "1 \<le> (2 :: nat)"
    "ref_sizes ?sg = (if False then [2, 1, signature_channels 2 2]
                      else [1, signature_channels 2 2])"
    "ref_sizes ?gs = ref_sizes ?sg"
    by (simp_all add: signature_channels_def)
  have shapes: "holds (ref_sizes ?pinc) (heap ?s (ref_addr ?pinc))"
    "holds (ref_sizes ?sg) (heap ?s (ref_addr ?sg))"
    "holds (ref_sizes ?gs) (heap ?s (ref_addr ?gs))"
    by (simp_all add: shape3_def shape2_def)
  have al: "ref_addr ?gs < top ?s" "ref_addr ?sg < top ?s" "ref_addr ?pinc < top ?s"
    by simp_all
  from signature_backward_frame [OF sizes shapes al, where basepoint = False
      and inv_flag = False and initial = False]
  obtain gp gbv giv s' where run: "signature_backward_st ?gs ?sg ?pinc 2 False False False False ?s
        = ((gp, gbv, giv), s')"
    and same: "\<forall>a<top ?s. heap s' a = heap ?s a"
    and fresh: "top ?s \<le> ref_addr gp" "top ?s \<le> ref_addr gbv" "top ?s \<le> ref_addr giv"
    by blast
  have "heap s' 0 = heap ?s 0" "heap s' 1 = heap ?s 1" "heap s' 2 = heap ?s 2"
    using same by simp_all
  with run fresh show ?thesis by simp
qed


end
